(* ===== verification/Xv6_Prelude.thy ===== *)
theory Xv6_Prelude
  imports Main "HOL-Library.Word"
begin

text \<open>
  Shared prelude of the development: the names of the machine types, the result
  type in which a kernel panic is a value, sequencing of fallible steps, byte
  addressed memory with little-endian 32-bit accesses, and the generic lemmas on
  lists and words that the component theories share.

  The collection \<open>res_simps\<close> holds the equations of the result type; the
  collection \<open>mem_simps\<close> the equations of memory reads over memory writes.
\<close>

unbundle bit_operations_syntax

named_theorems res_simps \<open>equations of fallible computations\<close>
named_theorems mem_simps \<open>reads over writes\<close>

section \<open>Machine types\<close>

text \<open>types.h: uint, ushort, uchar.\<close>

type_synonym uchar = "8 word"
type_synonym ushort = "16 word"
type_synonym uint = "32 word"

text \<open>A C \<open>int\<close> value is kept as the 32-bit word that holds it and read with \<open>sint\<close>.\<close>

type_synonym cint = "32 word"

section \<open>Fallible steps\<close>

text \<open>
  \<open>Panic msg\<close> is a call of the kernel function \<open>panic\<close> with that message;
  \<open>Block chan\<close> is a step that cannot go on in a sequential run, because the
  code would sleep or spin until another process acts; \<open>Undef what\<close> is a
  step to which C gives no meaning (signed overflow, a null pointer followed).
\<close>

datatype kerr = Panic string | Block string | Undef string

type_synonym 'a res = "kerr + 'a"

definition bindE :: "'a res \<Rightarrow> ('a \<Rightarrow> 'b res) \<Rightarrow> 'b res" where
  "bindE m f = (case m of Inl e \<Rightarrow> Inl e | Inr x \<Rightarrow> f x)"

definition panic :: "string \<Rightarrow> 'a res" where
  "panic s = Inl (Panic s)"

lemma bindE_Inr [simp, res_simps]: "bindE (Inr x) f = f x"
  by (simp add: bindE_def)

lemma bindE_Inl [simp, res_simps]: "bindE (Inl e) f = Inl e"
  by (simp add: bindE_def)

lemma bindE_panic [simp, res_simps]: "bindE (panic s) f = panic s"
  by (simp add: panic_def)

lemma bindE_eq_Inr: "bindE m f = Inr y \<longleftrightarrow> (\<exists>x. m = Inr x \<and> f x = Inr y)"
  by (cases m) auto

lemma bindE_InrE [elim!]:
  assumes "bindE m f = Inr y"
  obtains x where "m = Inr x" "f x = Inr y"
  using assms by (auto simp: bindE_eq_Inr)

lemma panic_neq_Inr [simp]: "panic s \<noteq> Inr x" "Inr x \<noteq> panic s"
  by (simp_all add: panic_def)

lemma panic_inject [simp]: "panic s = panic t \<longleftrightarrow> s = t"
  by (simp add: panic_def)

lemma bindE_cong [fundef_cong]:
  "m = m' \<Longrightarrow> (\<And>x. m' = Inr x \<Longrightarrow> f x = g x) \<Longrightarrow> bindE m f = bindE m' g"
  by (cases m') auto

text \<open>A loop of fallible steps over a list.\<close>

fun foldE :: "('a \<Rightarrow> 's \<Rightarrow> 's res) \<Rightarrow> 'a list \<Rightarrow> 's \<Rightarrow> 's res" where
  "foldE f [] s = Inr s"
| "foldE f (x # xs) s = bindE (f x s) (foldE f xs)"

lemma foldE_append: "foldE f (xs @ ys) s = bindE (foldE f xs s) (foldE f ys)"
  by (induction xs arbitrary: s) (auto simp: bindE_def split: sum.splits)

lemma foldE_cong [fundef_cong]:
  "xs = ys \<Longrightarrow> s = t \<Longrightarrow> (\<And>x s. x \<in> set ys \<Longrightarrow> f x s = g x s) \<Longrightarrow> foldE f xs s = foldE g ys t"
  by (induction ys arbitrary: xs s t) (auto simp: bindE_def split: sum.splits)

section \<open>Byte-addressed memory\<close>

type_synonym memory = "uint \<Rightarrow> uchar"

text \<open>Read and write the little-endian 32-bit word at an address.\<close>

definition load32 :: "memory \<Rightarrow> uint \<Rightarrow> uint" where
  "load32 m a = ucast (m a) OR push_bit 8 (ucast (m (a + 1)))
     OR push_bit 16 (ucast (m (a + 2))) OR push_bit 24 (ucast (m (a + 3)))"

definition store32 :: "memory \<Rightarrow> uint \<Rightarrow> uint \<Rightarrow> memory" where
  "store32 m a v = m(a := ucast v, a + 1 := ucast (drop_bit 8 v),
     a + 2 := ucast (drop_bit 16 v), a + 3 := ucast (drop_bit 24 v))"

text \<open>The \<open>n\<close> bytes of memory from address \<open>a\<close> on, addresses wrapping at \<open>2 ^ 32\<close>.\<close>

definition bytes_at :: "memory \<Rightarrow> uint \<Rightarrow> nat \<Rightarrow> uchar list" where
  "bytes_at m a n = map (\<lambda>i. m (a + of_nat i)) [0..<n]"

lemma length_bytes_at [simp]: "length (bytes_at m a n) = n"
  by (simp add: bytes_at_def)

lemma nth_bytes_at [simp]: "i < n \<Longrightarrow> bytes_at m a n ! i = m (a + of_nat i)"
  by (simp add: bytes_at_def)

lemma bytes_at_eqI: "(\<And>i. i < n \<Longrightarrow> m (a + of_nat i) = m' (b + of_nat i)) \<Longrightarrow>
    bytes_at m a n = bytes_at m' b n"
  by (simp add: bytes_at_def)

lemma unat_lt_32: "unat (x :: uint) < 2 ^ 32"
  using unsigned_less [of x] by simp

lemma unat_nonneg: "0 \<le> sint (n :: cint) \<Longrightarrow> unat n = nat (sint n)"
proof -
  assume pos: "0 \<le> sint n"
  have s: "sint n = signed_take_bit 31 (uint n)" by (simp add: sint_uint)
  have b: "\<not> bit (uint n) 31" using pos unfolding s by simp
  have "uint n = take_bit (Suc 31) (uint n)" using take_bit_int_eq_self [of "uint n" 32] uint_lt2p [of n] by simp
  also have "\<dots> = take_bit 31 (uint n)" using b unfolding take_bit_Suc_from_most by simp
  also have "\<dots> = sint n" unfolding s by (rule signed_take_bit_eq_if_positive [OF b, symmetric])
  finally show ?thesis by (simp add: unat_eq_nat_uint)
qed

lemma word_lt_4_cases: "(i :: uint) < 4 \<Longrightarrow> i = 0 \<or> i = 1 \<or> i = 2 \<or> i = 3"
  by unat_arith

lemma load32_store32_same [simp, mem_simps]: "load32 (store32 m a v) a = v"
proof (rule bit_word_eqI)
  fix n assume n: "n < LENGTH(32)"
  have d: "a + 1 \<noteq> a" "a + 2 \<noteq> a" "a + 3 \<noteq> a" "a + 2 \<noteq> a + 1" "a + 3 \<noteq> a + 1" "a + 3 \<noteq> a + 2"
    by simp_all
  consider "n < 8" | "8 \<le> n" "n < 16" | "16 \<le> n" "n < 24" | "24 \<le> n" by linarith
  then show "bit (load32 (store32 m a v) a) n = bit v n"
    using n d by cases (auto simp: load32_def store32_def bit_simps)
qed

lemma store32_other [mem_simps]: "\<not> (b - a) < 4 \<Longrightarrow> store32 m a v b = m b"
  by (auto simp: store32_def)

lemma load32_store32_other [mem_simps]:
  assumes "\<And>i j. i < 4 \<Longrightarrow> j < 4 \<Longrightarrow> a + i \<noteq> b + j"
  shows "load32 (store32 m a v) b = load32 m b"
proof -
  have "store32 m a v (b + j) = m (b + j)" if "j < 4" for j
  proof (rule store32_other)
    show "\<not> (b + j) - a < 4"
    proof
      assume "(b + j) - a < 4"
      from assms [OF this that] show False by simp
    qed
  qed
  from this [of 0] this [of 1] this [of 2] this [of 3] show ?thesis
    by (simp add: load32_def)
qed

section \<open>Alignment\<close>

lemma aligned_less:
  fixes v w p :: nat
  assumes "p dvd v" "p dvd w" "v < w"
  shows "v + p \<le> w"
proof -
  from assms obtain k l where kl: "v = p * k" "w = p * l" by (auto elim!: dvdE)
  with assms(3) have "Suc k \<le> l" by (auto simp: Suc_le_eq)
  then have "p * Suc k \<le> p * l" by (rule mult_le_mono2)
  with kl show ?thesis by simp
qed

lemma aligned_eq:
  fixes u v i p :: nat
  assumes "p dvd u" "p dvd v" "i < p" "u + i < v + p" "v \<le> u + i"
  shows "u = v"
  using assms aligned_less [of p u v] aligned_less [of p v u] by (cases u v rule: linorder_cases) auto

section \<open>Lists\<close>

text \<open>The index of the first element with a property: the scan \<open>for(p = t; p < &t[N]; p++)\<close>.\<close>

fun find_index :: "('a \<Rightarrow> bool) \<Rightarrow> 'a list \<Rightarrow> nat option" where
  "find_index P [] = None"
| "find_index P (x # xs) = (if P x then Some 0 else map_option Suc (find_index P xs))"

lemma find_index_None [simp]: "find_index P xs = None \<longleftrightarrow> (\<forall>x \<in> set xs. \<not> P x)"
  by (induction xs) auto

lemma find_index_Some: "find_index P xs = Some i \<longleftrightarrow>
    i < length xs \<and> P (xs ! i) \<and> (\<forall>j < i. \<not> P (xs ! j))"
proof (induction xs arbitrary: i)
  case Nil
  then show ?case by simp
next
  case (Cons x xs)
  show ?case
  proof (cases i)
    case 0
    then show ?thesis by auto
  next
    case (Suc k)
    then show ?thesis using Cons.IH [of k] by (auto simp: less_Suc_eq_0_disj)
  qed
qed

lemma find_index_SomeD:
  assumes "find_index P xs = Some i"
  shows "i < length xs" "P (xs ! i)" "\<And>j. j < i \<Longrightarrow> \<not> P (xs ! j)"
  using assms by (auto simp: find_index_Some)

end
