(* ===== verification/Xv6_String.thy ===== *)
theory Xv6_String
  imports Xv6_Prelude
begin

text \<open>
  The kernel's memory and string routines (Xv6-Syscall/src/string.c) on byte
  addressed memory, with the two string instructions of x86.h they use.  Pointers
  are 32-bit words, so overlapping arguments alias as they do in the code.

  The locale \<open>region_writer\<close> is the contract every routine here gives its
  callers: nothing outside the destination region changes.
\<close>

section \<open>Operations\<close>

text \<open>x86.h: \<open>rep stosb\<close> and \<open>rep stosl\<close> with the direction flag clear.\<close>

fun stosb :: "memory \<Rightarrow> uint \<Rightarrow> uchar \<Rightarrow> nat \<Rightarrow> memory" where
  "stosb m addr data 0 = m"
| "stosb m addr data (Suc cnt) = stosb (m(addr := data)) (addr + 1) data cnt"

fun stosl :: "memory \<Rightarrow> uint \<Rightarrow> uint \<Rightarrow> nat \<Rightarrow> memory" where
  "stosl m addr data 0 = m"
| "stosl m addr data (Suc cnt) = stosl (store32 m addr data) (addr + 4) data cnt"

definition memset :: "memory \<Rightarrow> uint \<Rightarrow> cint \<Rightarrow> uint \<Rightarrow> memory" where
  "memset m dst c n =
     (if dst mod 4 = 0 \<and> n mod 4 = 0
      then let c = c AND 0xFF in
        stosl m dst (push_bit 24 c OR push_bit 16 c OR push_bit 8 c OR c) (unat (n div 4))
      else stosb m dst (ucast c) (unat n))"

fun memcmp_loop :: "memory \<Rightarrow> uint \<Rightarrow> uint \<Rightarrow> nat \<Rightarrow> int" where
  "memcmp_loop m s1 s2 0 = 0"
| "memcmp_loop m s1 s2 (Suc n) =
     (if m s1 \<noteq> m s2 then uint (m s1) - uint (m s2)
      else memcmp_loop m (s1 + 1) (s2 + 1) n)"

definition memcmp :: "memory \<Rightarrow> uint \<Rightarrow> uint \<Rightarrow> uint \<Rightarrow> int" where
  "memcmp m v1 v2 n = memcmp_loop m v1 v2 (unat n)"

text \<open>The two loops of \<open>memmove\<close>: \<open>*--d = *--s\<close> and \<open>*d++ = *s++\<close>.\<close>

fun copy_down :: "memory \<Rightarrow> uint \<Rightarrow> uint \<Rightarrow> nat \<Rightarrow> memory" where
  "copy_down m d s 0 = m"
| "copy_down m d s (Suc n) = copy_down (m(d - 1 := m (s - 1))) (d - 1) (s - 1) n"

fun copy_up :: "memory \<Rightarrow> uint \<Rightarrow> uint \<Rightarrow> nat \<Rightarrow> memory" where
  "copy_up m d s 0 = m"
| "copy_up m d s (Suc n) = copy_up (m(d := m s)) (d + 1) (s + 1) n"

definition memmove :: "memory \<Rightarrow> uint \<Rightarrow> uint \<Rightarrow> uint \<Rightarrow> memory" where
  "memmove m dst src n =
     (if src < dst \<and> src + n > dst then copy_down m (dst + n) (src + n) (unat n)
      else copy_up m dst src (unat n))"

definition memcpy :: "memory \<Rightarrow> uint \<Rightarrow> uint \<Rightarrow> uint \<Rightarrow> memory" where
  "memcpy m dst src n = memmove m dst src n"

fun strncmp_loop :: "memory \<Rightarrow> uint \<Rightarrow> uint \<Rightarrow> nat \<Rightarrow> int" where
  "strncmp_loop m p q 0 = 0"
| "strncmp_loop m p q (Suc n) =
     (if m p \<noteq> 0 \<and> m p = m q then strncmp_loop m (p + 1) (q + 1) n
      else uint (m p) - uint (m q))"

definition strncmp :: "memory \<Rightarrow> uint \<Rightarrow> uint \<Rightarrow> uint \<Rightarrow> int" where
  "strncmp m p q n = strncmp_loop m p q (unat n)"

text \<open>
  First loop of \<open>strncpy\<close>: memory, destination pointer and the count that is left
  for the second loop, which pads with zeroes.
\<close>

fun strncpy_copy :: "memory \<Rightarrow> uint \<Rightarrow> uint \<Rightarrow> nat \<Rightarrow> memory \<times> uint \<times> nat" where
  "strncpy_copy m s t 0 = (m, s, 0)"
| "strncpy_copy m s t (Suc n) =
     (let m' = m(s := m t) in
      if m' s \<noteq> 0 then strncpy_copy m' (s + 1) (t + 1) n else (m', s + 1, n))"

fun strncpy_pad :: "memory \<Rightarrow> uint \<Rightarrow> nat \<Rightarrow> memory" where
  "strncpy_pad m s 0 = m"
| "strncpy_pad m s (Suc n) = strncpy_pad (m(s := 0)) (s + 1) n"

definition strncpy :: "memory \<Rightarrow> uint \<Rightarrow> uint \<Rightarrow> cint \<Rightarrow> memory" where
  "strncpy m s t n =
     (let (m', s', k) = strncpy_copy m s t (nat (sint n)) in strncpy_pad m' s' k)"

text \<open>
  The loop of \<open>safestrcpy\<close> stops one byte early and leaves the destination pointer
  where the final NUL goes.
\<close>

definition safestrcpy :: "memory \<Rightarrow> uint \<Rightarrow> uint \<Rightarrow> cint \<Rightarrow> memory" where
  "safestrcpy m s t n =
     (if sint n \<le> 0 then m
      else let (m', s', k) = strncpy_copy m s t (nat (sint n) - 1) in m'(s' := 0))"

text \<open>The scan of \<open>strlen\<close>; \<open>None\<close> when no byte is NUL and the loop does not stop.\<close>

partial_function (option) strlen_from :: "memory \<Rightarrow> uint \<Rightarrow> nat \<Rightarrow> nat option" where
  "strlen_from m s n = (if m (s + of_nat n) = 0 then Some n else strlen_from m s (Suc n))"

definition strlen :: "memory \<Rightarrow> uint \<Rightarrow> nat option" where
  "strlen m s = strlen_from m s 0"

text \<open>The C string at an address, read for at most \<open>n\<close> bytes.\<close>

definition cstr :: "memory \<Rightarrow> uint \<Rightarrow> nat \<Rightarrow> uchar list" where
  "cstr m p n = takeWhile (\<lambda>b. b \<noteq> 0) (bytes_at m p n)"

section \<open>Regions\<close>

text \<open>\<open>in_region d n a\<close>: address \<open>a\<close> is one of the \<open>n\<close> bytes from \<open>d\<close> on.\<close>

definition in_region :: "uint \<Rightarrow> nat \<Rightarrow> uint \<Rightarrow> bool" where
  "in_region d n a \<longleftrightarrow> unat (a - d) < n"

lemma in_region_0 [simp]: "\<not> in_region d 0 a"
  by (simp add: in_region_def)

lemma in_region_Suc: "n < 2 ^ 32 \<Longrightarrow> in_region d (Suc n) a \<longleftrightarrow> a = d \<or> in_region (d + 1) n a"
proof (cases "a = d")
  case False
  assume n: "n < 2 ^ 32"
  have "unat (a - (d + 1)) = unat (a - d) - 1"
    using False unat_minus_one [of "a - d"] by (simp add: algebra_simps)
  moreover have "0 < unat (a - d)" using False by (simp add: unat_gt_0)
  ultimately show ?thesis using False by (auto simp: in_region_def)
qed (simp add: in_region_def)

lemma in_region_offset: "i < n \<Longrightarrow> n \<le> 2 ^ 32 \<Longrightarrow> in_region d n (d + of_nat i)"
  by (simp add: in_region_def unat_of_nat take_bit_eq_mod)

text \<open>The contract of a routine that writes the region \<open>[d, d + n)\<close> only.\<close>

locale region_writer =
  fixes w :: "memory \<Rightarrow> memory" and d :: uint and n :: nat
  assumes frame: "\<not> in_region d n a \<Longrightarrow> w m a = m a"
begin

lemma bytes_at_frame:
  assumes "\<And>i. i < k \<Longrightarrow> \<not> in_region d n (p + of_nat i)"
  shows "bytes_at (w m) p k = bytes_at m p k"
  using assms frame by (intro bytes_at_eqI) auto

lemma load32_frame:
  assumes "\<And>i. i < 4 \<Longrightarrow> \<not> in_region d n (p + i)"
  shows "load32 (w m) p = load32 m p"
  using frame [OF assms [of 0]] frame [OF assms [of 1]] frame [OF assms [of 2]]
    frame [OF assms [of 3]] by (simp add: load32_def)

end

section \<open>What the loops compute\<close>

lemma stosb_apply: "n < 2 ^ 32 \<Longrightarrow> stosb m d c n a = (if in_region d n a then c else m a)"
  by (induction n arbitrary: m d) (auto simp: in_region_Suc)

lemma in_region_4: "in_region d 4 a \<longleftrightarrow> a = d \<or> a = d + 1 \<or> a = d + 2 \<or> a = d + 3"
proof -
  have "in_region d 4 a \<longleftrightarrow> a - d < 4"
    by (simp add: in_region_def word_less_nat_alt)
  also have "\<dots> \<longleftrightarrow> a - d = 0 \<or> a - d = 1 \<or> a - d = 2 \<or> a - d = 3"
    using word_lt_4_cases [of "a - d"] by auto
  also have "\<dots> \<longleftrightarrow> a = d \<or> a = d + 1 \<or> a = d + 2 \<or> a = d + 3"
    by (auto simp: algebra_simps)
  finally show ?thesis .
qed

lemma in_region_add4: "n + 4 < 2 ^ 32 \<Longrightarrow>
    in_region d (n + 4) a \<longleftrightarrow> in_region d 4 a \<or> in_region (d + 4) n a"
proof -
  assume b: "n + 4 < 2 ^ 32"
  have "n + 4 = Suc (Suc (Suc (Suc n)))" by simp
  then have "in_region d (n + 4) a \<longleftrightarrow> a = d \<or> a = d + 1 \<or> a = d + 1 + 1 \<or> a = d + 1 + 1 + 1
      \<or> in_region (d + 1 + 1 + 1 + 1) n a"
    using b by (simp only: in_region_Suc)
  then show ?thesis by (simp add: in_region_4 add.commute)
qed

text \<open>A word whose four bytes are all \<open>c\<close>.\<close>

lemma ucast_fill_bytes:
  fixes c :: uint
  defines "v \<equiv> push_bit 24 (c AND 0xFF) OR push_bit 16 (c AND 0xFF) OR push_bit 8 (c AND 0xFF) OR (c AND 0xFF)"
  shows "ucast v = (ucast c :: uchar)" "ucast (drop_bit 8 v) = (ucast c :: uchar)"
    "ucast (drop_bit 16 v) = (ucast c :: uchar)" "ucast (drop_bit 24 v) = (ucast c :: uchar)"
proof -
  have m: "(0xFF :: uint) = mask 8" by (simp add: mask_eq_exp_minus_1)
  show "ucast v = (ucast c :: uchar)" "ucast (drop_bit 8 v) = (ucast c :: uchar)"
    "ucast (drop_bit 16 v) = (ucast c :: uchar)" "ucast (drop_bit 24 v) = (ucast c :: uchar)"
    unfolding v_def m by (rule bit_word_eqI, force simp: bit_simps)+
qed

lemma stosl_apply:
  fixes v :: uint
  assumes "4 * k < 2 ^ 32"
    and "ucast v = (b :: uchar)" "ucast (drop_bit 8 v) = b" "ucast (drop_bit 16 v) = b"
      "ucast (drop_bit 24 v) = b"
  shows "stosl m d v k a = (if in_region d (4 * k) a then b else m a)"
  using assms
proof (induction k arbitrary: m d)
  case (Suc k)
  have "store32 m d v a = (if in_region d 4 a then b else m a)"
    using Suc.prems by (simp add: store32_def in_region_4)
  moreover have "stosl (store32 m d v) (d + 4) v k a =
      (if in_region (d + 4) (4 * k) a then b else store32 m d v a)"
    using Suc.prems by (intro Suc.IH) simp_all
  ultimately show ?case
    using in_region_add4 [of "4 * k" d a] Suc.prems(1) by (simp add: add.commute)
qed simp

lemma memset_apply: "memset m dst c n a = (if in_region dst (unat n) a then ucast c else m a)"
proof (cases "dst mod 4 = 0 \<and> n mod 4 = 0")
  case True
  then have "unat n mod 4 = 0" by (simp add: unat_mod flip: unat_0_iff)
  then have n4: "4 * unat (n div 4) = unat n" by (simp add: unat_div) presburger
  have b: "4 * unat (n div 4) < 2 ^ 32" using n4 unat_lt_32 [of n] by simp
  show ?thesis
    using True n4 stosl_apply [OF b ucast_fill_bytes [of c]]
    by (simp add: memset_def Let_def)
next
  case False
  then have "memset m dst c n = stosb m dst (ucast c) (unat n)"
    unfolding memset_def by (rule if_not_P)
  then show ?thesis using unat_lt_32 [of n] by (simp add: stosb_apply)
qed

interpretation memset_w: region_writer "\<lambda>m. memset m dst c n" dst "unat n" for dst c n
  by unfold_locales (simp add: memset_apply)

lemma copy_up_apply:
  "n < 2 ^ 32 \<Longrightarrow> d = s \<or> n \<le> unat (d - s) \<Longrightarrow>
     copy_up m d s n a = (if in_region d n a then m (s + (a - d)) else m a)"
proof (induction n arbitrary: m d s)
  case (Suc n)
  have IH: "copy_up (m(d := m s)) (d + 1) (s + 1) n a =
      (if in_region (d + 1) n a then (m(d := m s)) (s + 1 + (a - (d + 1))) else (m(d := m s)) a)"
    using Suc.prems by (intro Suc.IH) auto
  have "(m(d := m s)) (s + (a - d)) = m (s + (a - d))" if "in_region (d + 1) n a"
  proof (cases "s + (a - d) = d")
    case True
    then have ds: "d - s = a - d" by (simp add: algebra_simps)
    have "unat (a - d) < Suc n"
      using that Suc.prems in_region_Suc [of n d a] by (simp add: in_region_def)
    with ds Suc.prems have "d = s" by auto
    with True show ?thesis by simp
  qed simp
  with IH Suc.prems in_region_Suc [of n d a] show ?case by (auto simp: algebra_simps)
qed simp

text \<open>Membership in the \<open>n\<close> bytes that end before \<open>d\<close>.\<close>

lemma in_region_below: "n < 2 ^ 32 \<Longrightarrow>
    in_region (d - of_nat (Suc n)) (Suc n) a \<longleftrightarrow> a = d - 1 \<or> in_region (d - 1 - of_nat n) n a"
proof -
  assume n: "n < 2 ^ 32"
  let ?b = "d - 1 - of_nat n"
  have un: "unat (of_nat n :: uint) = n" using n by (simp add: unat_of_nat take_bit_eq_mod)
  have "unat (a - ?b) = n \<longleftrightarrow> a - ?b = of_nat n"
    using un by (auto simp: word_unat_eq_iff)
  also have "\<dots> \<longleftrightarrow> a = d - 1" by (auto simp: algebra_simps)
  finally have "unat (a - ?b) < Suc n \<longleftrightarrow> a = d - 1 \<or> unat (a - ?b) < n" by linarith
  moreover have "d - of_nat (Suc n) = ?b" by (simp add: algebra_simps)
  ultimately show ?thesis by (simp only: in_region_def)
qed

lemma copy_down_apply:
  "n < 2 ^ 32 \<Longrightarrow> d = s \<or> n \<le> unat (s - d) \<Longrightarrow>
     copy_down m d s n a = (if in_region (d - of_nat n) n a then m (s + (a - d)) else m a)"
proof (induction n arbitrary: m d s)
  case (Suc n)
  let ?m = "m(d - 1 := m (s - 1))"
  have IH: "copy_down ?m (d - 1) (s - 1) n a =
      (if in_region (d - 1 - of_nat n) n a then ?m (s - 1 + (a - (d - 1))) else ?m a)"
    using Suc.prems by (intro Suc.IH) auto
  have "?m (s + (a - d)) = m (s + (a - d))" if "in_region (d - 1 - of_nat n) n a"
  proof (cases "s + (a - d) = d - 1")
    case True
    have k: "unat (a - (d - 1 - of_nat n)) < n" using that by (simp add: in_region_def)
    have "a = d - 1 - (s - d)" using True by (simp add: algebra_simps)
    then have "a - (d - 1 - of_nat n) = of_nat n - (s - d)" by (simp add: algebra_simps)
    with k have "unat (of_nat n - (s - d)) < n" by simp
    moreover have "unat (of_nat n :: uint) = n"
      using Suc.prems by (simp add: unat_of_nat take_bit_eq_mod)
    ultimately have "\<not> Suc n \<le> unat (s - d)"
      using unat_sub_if' [of "of_nat n" "s - d"] unat_lt_32 [of "s - d"] by (auto split: if_splits)
    with Suc.prems have "d = s" by simp
    with True show ?thesis by simp
  qed simp
  with IH Suc.prems in_region_below [of n d a] show ?case by (auto simp: algebra_simps)
qed simp

lemma memmove_apply:
  assumes "unat src + unat n < 2 ^ 32" "unat dst + unat n < 2 ^ 32"
  shows "memmove m dst src n a = (if in_region dst (unat n) a then m (src + (a - dst)) else m a)"
proof (cases "src < dst \<and> src + n > dst")
  case True
  have "unat (src - dst) = 2 ^ 32 + unat src - unat dst"
    using True unat_sub_if' [of src dst] by (simp add: word_less_nat_alt)
  then have "unat n \<le> unat (src - dst)" using assms by linarith
  then have "copy_down m (dst + n) (src + n) (unat n) a =
      (if in_region dst (unat n) a then m (src + (a - dst)) else m a)"
    using copy_down_apply [of "unat n" "dst + n" "src + n" m a] unat_lt_32 [of n]
    by (simp add: algebra_simps)
  with True show ?thesis by (simp add: memmove_def)
next
  case False
  have sn: "unat (src + n) = unat src + unat n"
    using assms by (simp add: unat_plus_if')
  have "dst = src \<or> unat n \<le> unat (dst - src)"
  proof (cases "src < dst")
    case True
    with False sn have "unat src + unat n \<le> unat dst"
      by (simp add: word_less_nat_alt not_less)
    then show ?thesis using unat_sub_if' [of dst src] by auto
  next
    case False
    then show ?thesis
      using assms unat_sub_if' [of dst src] by (auto simp: word_less_nat_alt word_unat_eq_iff)
  qed
  moreover have "memmove m dst src n = copy_up m dst src (unat n)"
    unfolding memmove_def using False by (rule if_not_P)
  ultimately show ?thesis
    using copy_up_apply [of "unat n" dst src m a] unat_lt_32 [of n] by simp
qed

section \<open>Bounded string comparison and copy\<close>

lemma bytes_at_0 [simp]: "bytes_at m p 0 = []"
  by (simp add: bytes_at_def)

lemma bytes_at_Suc: "bytes_at m p (Suc n) = m p # bytes_at m (p + 1) n"
  by (rule nth_equalityI) (auto simp: nth_Cons algebra_simps split: nat.splits)

lemma cstr_0 [simp]: "cstr m p 0 = []"
  by (simp add: cstr_def)

lemma cstr_Suc: "cstr m p (Suc n) = (if m p = 0 then [] else m p # cstr m (p + 1) n)"
  by (simp add: cstr_def bytes_at_Suc)

lemma strncmp_loop_eq_0: "strncmp_loop m p q n = 0 \<longleftrightarrow> cstr m p n = cstr m q n"
  by (induction n arbitrary: p q) (auto simp: cstr_Suc word_uint_eq_iff)

lemma memcmp_loop_eq_0: "memcmp_loop m p q n = 0 \<longleftrightarrow> bytes_at m p n = bytes_at m q n"
  by (induction n arbitrary: p q) (auto simp: bytes_at_Suc word_uint_eq_iff)

lemma length_cstr_le: "length (cstr m p n) \<le> n"
  using length_takeWhile_le [of "\<lambda>b. b \<noteq> 0" "bytes_at m p n"] by (simp add: cstr_def)

lemma cstr_cong: "(\<And>i. i < n \<Longrightarrow> m (p + of_nat i) = m' (q + of_nat i)) \<Longrightarrow> cstr m p n = cstr m' q n"
  using bytes_at_eqI [of n m p m' q] by (simp add: cstr_def)

lemma cstr_nonzero: "0 \<notin> set (cstr m p n)"
  by (auto simp: cstr_def dest: set_takeWhileD)

lemma cstr_nth: "i < length (cstr m p n) \<Longrightarrow> cstr m p n ! i = m (p + of_nat i)"
  using length_cstr_le [of m p n] by (simp add: cstr_def takeWhile_nth)

lemma cstr_stop: "length (cstr m p n) < n \<Longrightarrow> m (p + of_nat (length (cstr m p n))) = 0"
  using nth_length_takeWhile [of "\<lambda>b. b \<noteq> 0" "bytes_at m p n"] by (simp add: cstr_def)

lemma cstr_eqI:
  assumes "length xs < n" "\<And>i. i < length xs \<Longrightarrow> m (p + of_nat i) = xs ! i"
    "0 \<notin> set xs" "m (p + of_nat (length xs)) = 0"
  shows "cstr m p n = xs"
  using assms
proof (induction xs arbitrary: p n)
  case Nil
  then show ?case by (cases n) (simp_all add: cstr_Suc)
next
  case (Cons x xs)
  from Cons.prems(1) obtain k where n: "n = Suc k" by (cases n) auto
  have x: "m p = x" using Cons.prems(2) [of 0] by simp
  have "cstr m (p + 1) k = xs"
  proof (rule Cons.IH)
    show "m (p + 1 + of_nat i) = xs ! i" if "i < length xs" for i
      using Cons.prems(2) [of "Suc i"] that by (simp add: algebra_simps)
  qed (use Cons.prems n in \<open>auto simp: algebra_simps\<close>)
  with x n Cons.prems(3) show ?case by (simp add: cstr_Suc)
qed

text \<open>The number of bytes the copying loop writes: the string and, if it fits, its NUL.\<close>

definition copy_len :: "memory \<Rightarrow> uint \<Rightarrow> nat \<Rightarrow> nat" where
  "copy_len m t n = min n (Suc (length (cstr m t n)))"

lemma copy_len_Suc: "copy_len m t (Suc n) = (if m t = 0 then 1 else Suc (copy_len m (t + 1) n))"
  by (simp add: copy_len_def cstr_Suc)

lemma in_region_1: "in_region s (Suc 0) a \<longleftrightarrow> a = s"
  using in_region_Suc [of 0 s a] by simp

text \<open>No byte of the \<open>n\<close> bytes from \<open>t\<close> on lies in the \<open>n\<close> bytes from \<open>s\<close> on.\<close>

definition disjoint_regions :: "uint \<Rightarrow> uint \<Rightarrow> nat \<Rightarrow> bool" where
  "disjoint_regions s t n \<longleftrightarrow> (\<forall>j < n. \<not> in_region s n (t + of_nat j))"

lemma disjoint_regions_Suc:
  assumes "disjoint_regions s t (Suc n)" "n < 2 ^ 32"
  shows "disjoint_regions (s + 1) (t + 1) n"
  unfolding disjoint_regions_def
proof (intro allI impI)
  fix j assume "j < n"
  then have "\<not> in_region s (Suc n) (t + of_nat (Suc j))"
    using assms(1) unfolding disjoint_regions_def by blast
  then show "\<not> in_region (s + 1) n (t + 1 + of_nat j)"
    using in_region_Suc [OF assms(2)] by (simp add: add.assoc)
qed

lemma disjoint_regionsD:
  assumes "disjoint_regions s t n" "j < n"
  shows "t + of_nat j \<noteq> s" "\<not> in_region s n (t + of_nat j)"
  using assms by (auto simp: disjoint_regions_def in_region_def)

lemma disjoint_regions_le: "disjoint_regions s t n \<Longrightarrow> k \<le> n \<Longrightarrow> disjoint_regions s t k"
  unfolding disjoint_regions_def in_region_def by (meson order.strict_trans2)

lemma disjoint_regionsI:
  assumes "unat t + n \<le> unat s" "unat s + n \<le> 2 ^ 32"
  shows "disjoint_regions s t n"
  unfolding disjoint_regions_def
proof (intro allI impI)
  fix j assume j: "j < n"
  have "unat (of_nat j :: uint) = j"
    using assms j by (simp add: unat_of_nat take_bit_eq_mod)
  then have "unat (t + of_nat j) = unat t + j"
    using assms j unat_plus_if' [of t "of_nat j"] unat_lt_32 [of s] by simp
  then show "\<not> in_region s n (t + of_nat j)"
    using assms j unat_sub_if' [of "t + of_nat j" s] by (simp add: in_region_def)
qed

lemma strncpy_copy_eq:
  assumes "n < 2 ^ 32" "disjoint_regions s t n"
  shows "strncpy_copy m s t n =
    ((\<lambda>a. if in_region s (copy_len m t n) a then m (t + (a - s)) else m a),
     s + of_nat (copy_len m t n), n - copy_len m t n)"
  using assms
proof (induction n arbitrary: m s t)
  case 0
  then show ?case by (simp add: copy_len_def)
next
  case (Suc n)
  let ?m = "m(s := m t)"
  have keep: "?m (t + of_nat j) = m (t + of_nat j)" if "j < Suc n" for j
    using disjoint_regionsD(1) [OF Suc.prems(2) that] by simp
  show ?case
  proof (cases "m t = 0")
    case True
    then have "copy_len m t (Suc n) = Suc 0" by (simp add: copy_len_Suc)
    with True show ?thesis by (auto simp: in_region_1)
  next
    case False
    have c: "cstr ?m (t + 1) n = cstr m (t + 1) n"
    proof (rule cstr_cong)
      show "?m (t + 1 + of_nat i) = m (t + 1 + of_nat i)" if "i < n" for i
        using keep [of "Suc i"] that by (simp add: algebra_simps)
    qed
    let ?k = "copy_len m (t + 1) n"
    have kn: "?k \<le> n" by (simp add: copy_len_def)
    have k: "copy_len ?m (t + 1) n = ?k" by (simp add: copy_len_def c)
    have IH: "strncpy_copy ?m (s + 1) (t + 1) n =
      ((\<lambda>a. if in_region (s + 1) ?k a then ?m (t + 1 + (a - (s + 1))) else ?m a),
       s + 1 + of_nat ?k, n - ?k)"
      using Suc.prems disjoint_regions_Suc [OF Suc.prems(2)]
      by (intro Suc.IH [of "s + 1" "t + 1" ?m, unfolded k]) simp_all
    have src: "?m (t + (a - s)) = m (t + (a - s))" if "in_region (s + 1) ?k a" for a
    proof -
      have "unat (a - s) < Suc n"
        using that kn Suc.prems(1) in_region_Suc [of ?k s a] by (auto simp: in_region_def)
      from keep [OF this] show ?thesis by simp
    qed
    have upd: "(\<lambda>a. if in_region (s + 1) ?k a then ?m (t + 1 + (a - (s + 1))) else ?m a) =
        (\<lambda>a. if in_region s (Suc ?k) a then m (t + (a - s)) else m a)"
    proof
      fix a
      have e: "t + 1 + (a - (s + 1)) = t + (a - s)" by simp
      have r: "in_region s (Suc ?k) a \<longleftrightarrow> a = s \<or> in_region (s + 1) ?k a"
        using kn Suc.prems(1) by (intro in_region_Suc) simp
      show "(if in_region (s + 1) ?k a then ?m (t + 1 + (a - (s + 1))) else ?m a) =
        (if in_region s (Suc ?k) a then m (t + (a - s)) else m a)"
        unfolding e r using src [of a] by (cases "in_region (s + 1) ?k a") auto
    qed
    have "strncpy_copy m s t (Suc n) = strncpy_copy ?m (s + 1) (t + 1) n"
      using False by simp
    then show ?thesis unfolding IH upd using False by (simp add: copy_len_Suc add.assoc)
  qed
qed

lemma nat_sint_lt: "nat (sint (n :: cint)) < 2 ^ 32"
  using sint_lt [of n] by simp

lemma strncpy_pad_apply: "n < 2 ^ 32 \<Longrightarrow> strncpy_pad m s n a = (if in_region s n a then 0 else m a)"
  by (induction n arbitrary: m s) (auto simp: in_region_Suc)

lemma in_region_rest:
  assumes "k \<le> n" "n < 2 ^ 32"
  shows "in_region (s + of_nat k) (n - k) a \<longleftrightarrow> in_region s n a \<and> \<not> in_region s k a"
proof -
  have k: "unat (of_nat k :: uint) = k" using assms by (simp add: unat_of_nat take_bit_eq_mod)
  have e: "a - (s + of_nat k) = (a - s) - of_nat k" by simp
  show ?thesis
    unfolding in_region_def e
    using unat_sub_if' [of "a - s" "of_nat k"] k assms unat_lt_32 [of "a - s"]
    by (auto split: if_splits)
qed

lemma copy_len_le: "copy_len m t n \<le> n"
  by (simp add: copy_len_def)

lemma strncpy_apply:
  fixes n :: cint
  defines "N \<equiv> nat (sint n)"
  assumes "disjoint_regions s t N"
  shows "strncpy m s t n a =
    (if in_region s N a then if in_region s (copy_len m t N) a then m (t + (a - s)) else 0
     else m a)"
proof -
  have N: "N < 2 ^ 32" using nat_sint_lt [of n] by (simp add: N_def)
  have "N - copy_len m t N < 2 ^ 32" using N by simp
  moreover have "in_region s (copy_len m t N) a \<Longrightarrow> in_region s N a"
    using copy_len_le [of m t N] by (simp add: in_region_def)
  ultimately show ?thesis
    using in_region_rest [OF copy_len_le N, of s m t a]
    by (auto simp: strncpy_def N_def [symmetric] strncpy_copy_eq [OF N assms(2)] strncpy_pad_apply)
qed

lemma strncpy_cstr:
  fixes n :: cint
  defines "N \<equiv> nat (sint n)"
  assumes "disjoint_regions s t N"
  shows "cstr (strncpy m s t n) s N = cstr m t N"
proof (cases "length (cstr m t N) < N")
  case True
  have N: "N \<le> 2 ^ 32" using nat_sint_lt [of n] by (simp add: N_def)
  have L: "copy_len m t N = Suc (length (cstr m t N))" using True by (simp add: copy_len_def)
  have at: "strncpy m s t n (s + of_nat i) = m (t + of_nat i)" if "i \<le> length (cstr m t N)" for i
    using that True N L in_region_offset [of i N s] in_region_offset [of i "copy_len m t N" s]
    by (simp add: strncpy_apply [OF assms(2) [unfolded N_def], folded N_def])
  show ?thesis
    by (rule cstr_eqI) (use True at cstr_nonzero cstr_nth cstr_stop in auto)
next
  case False
  then have len: "length (cstr m t N) = N" using length_cstr_le [of m t N] by simp
  have N: "N \<le> 2 ^ 32" using nat_sint_lt [of n] by (simp add: N_def)
  have L: "copy_len m t N = N" using len by (simp add: copy_len_def)
  have "strncpy m s t n (s + of_nat i) = m (t + of_nat i)" if "i < N" for i
    using that N L in_region_offset [of i N s]
    by (simp add: strncpy_apply [OF assms(2) [unfolded N_def], folded N_def])
  then show ?thesis by (rule cstr_cong)
qed

lemma safestrcpy_cstr:
  fixes n :: cint
  defines "N \<equiv> nat (sint n)"
  assumes pos: "0 < sint n" and dis: "disjoint_regions s t N"
  shows "cstr (safestrcpy m s t n) s N = cstr m t (N - 1)"
    and "\<not> in_region s N a \<Longrightarrow> safestrcpy m s t n a = m a"
proof -
  let ?K = "N - 1" and ?c = "cstr m t (N - 1)"
  let ?L = "copy_len m t ?K"
  have N: "N < 2 ^ 32" "0 < N" using nat_sint_lt [of n] pos by (simp_all add: N_def)
  have d: "disjoint_regions s t ?K" using dis by (rule disjoint_regions_le) simp
  have K: "?K < 2 ^ 32" using N by simp
  have eq: "safestrcpy m s t n =
      (\<lambda>a. if in_region s ?L a then m (t + (a - s)) else m a)(s + of_nat ?L := 0)"
    using pos strncpy_copy_eq [OF K d, of m] by (simp add: safestrcpy_def N_def [symmetric])
  have LN: "?L < N" using copy_len_le [of m t ?K] N by linarith
  have LB: "?L < 2 ^ 32" using LN N by simp
  have out: "\<not> in_region s ?L (s + of_nat ?L)"
    using LB by (simp add: in_region_def unat_of_nat take_bit_eq_mod)
  show "safestrcpy m s t n a = m a" if "\<not> in_region s N a"
  proof -
    have "a \<noteq> s + of_nat ?L" using that in_region_offset [OF LN] N by auto
    moreover have "\<not> in_region s ?L a" using that LN by (simp add: in_region_def)
    ultimately show ?thesis by (simp add: eq)
  qed
  have at: "safestrcpy m s t n (s + of_nat i) = m (t + of_nat i)" if "i < ?L" for i
  proof -
    have "in_region s ?L (s + of_nat i)" using that LB by (intro in_region_offset) auto
    moreover from this out have "s + of_nat i \<noteq> s + of_nat ?L" by auto
    ultimately show ?thesis by (simp add: eq)
  qed
  show "cstr (safestrcpy m s t n) s N = ?c"
  proof (rule cstr_eqI)
    have cK: "length ?c \<le> ?K" by (rule length_cstr_le)
    then show "length ?c < N" using N by linarith
    have "length ?c \<le> ?L" using cK by (simp add: copy_len_def)
    then show "safestrcpy m s t n (s + of_nat i) = ?c ! i" if "i < length ?c" for i
      using that at [of i] by (simp add: cstr_nth)
    show "0 \<notin> set ?c" by (rule cstr_nonzero)
    show "safestrcpy m s t n (s + of_nat (length ?c)) = 0"
    proof (cases "length ?c < ?K")
      case True
      then have "?L = Suc (length ?c)" by (simp add: copy_len_def)
      with at [of "length ?c"] cstr_stop [OF True] show ?thesis by simp
    next
      case False
      then have "?L = length ?c" using cK by (simp add: copy_len_def)
      then show ?thesis by (simp add: eq)
    qed
  qed
qed

lemma strlen_from_NUL:
  "m (s + of_nat (n + k)) = 0 \<Longrightarrow> (\<And>i. i < k \<Longrightarrow> m (s + of_nat (n + i)) \<noteq> 0) \<Longrightarrow>
     strlen_from m s n = Some (n + k)"
proof (induction k arbitrary: n)
  case 0
  then show ?case by (simp add: strlen_from.simps)
next
  case (Suc k)
  have "strlen_from m s (Suc n) = Some (Suc n + k)"
    using Suc.prems(1) Suc.prems(2) [of "Suc _"] by (intro Suc.IH) simp_all
  with Suc.prems(2) [of 0] show ?case by (simp add: strlen_from.simps [of m s n])
qed

section \<open>Properties\<close>

text \<open>C31: memmove copies correctly whatever the overlap: if neither region runs past the
  end of the address space, the destination holds the bytes the source held before the
  call, and no byte outside the destination changes.\<close>

theorem memmove_correct:
  assumes "unat src + unat n < 2 ^ 32" and "unat dst + unat n < 2 ^ 32"
  shows "bytes_at (memmove m dst src n) dst (unat n) = bytes_at m src (unat n) \<and>
    (\<forall>a. \<not> in_region dst (unat n) a \<longrightarrow> memmove m dst src n a = m a)"
proof
  have "memmove m dst src n (dst + of_nat i) = m (src + of_nat i)" if "i < unat n" for i
    using that unat_lt_32 [of n] in_region_offset [of i "unat n" dst]
    by (simp add: memmove_apply [OF assms])
  then show "bytes_at (memmove m dst src n) dst (unat n) = bytes_at m src (unat n)"
    by (rule bytes_at_eqI)
qed (simp add: memmove_apply [OF assms])

text \<open>Witness: an overlapping move of three bytes up by one, which takes the downward loop.\<close>

theorem memmove_correct_witness:
  "bytes_at (memmove (\<lambda>a. ucast a) 101 100 3) 101 3 = [100, 101, 102]"
proof -
  have "unat (100::uint) + unat (3::uint) < 2 ^ 32" "unat (101::uint) + unat (3::uint) < 2 ^ 32"
    by simp_all
  from memmove_correct [OF this, of "\<lambda>a. ucast a"] show ?thesis
    by (simp add: bytes_at_def upt_rec)
qed

text \<open>C34: A name stored with strncpy compares equal, under strncmp with the same bound, to
  the name it was copied from: the rule that directory entries rely on.\<close>

theorem strncpy_strncmp_roundtrip:
  assumes "0 \<le> sint n" and "disjoint_regions s t (nat (sint n))"
  shows "strncmp (strncpy m s t n) s t n = 0"
proof -
  let ?N = "nat (sint n)"
  have N: "unat n = ?N" using assms(1) by (rule unat_nonneg)
  have "cstr (strncpy m s t n) t ?N = cstr m t ?N"
  proof (rule cstr_cong)
    fix i assume i: "i < ?N"
    show "strncpy m s t n (t + of_nat i) = m (t + of_nat i)"
      using disjoint_regionsD(2) [OF assms(2) i] by (simp add: strncpy_apply [OF assms(2)])
  qed
  then show ?thesis
    by (simp add: strncmp_def N strncmp_loop_eq_0 strncpy_cstr [OF assms(2)])
qed

text \<open>Witness: a seven-byte name buffer at 200 that receives the string at 100.\<close>

definition name_memory :: memory where
  "name_memory a = (if a = 100 then 0x63 else if a = 101 then 0x61 else if a = 102 then 0x74 else 0)"

theorem strncpy_strncmp_roundtrip_witness:
  "strncmp (strncpy name_memory 200 100 7) 200 100 7 = 0"
proof (rule strncpy_strncmp_roundtrip)
  show "disjoint_regions 200 100 (nat (sint (7 :: cint)))"
    by (rule disjoint_regionsI) simp_all
qed simp

text \<open>C35: safestrcpy never leaves the destination unterminated: after the call the string in
  the \<open>n\<close>-byte destination is the source string cut to \<open>n - 1\<close> bytes, a NUL follows it
  inside the destination, and nothing outside the destination is written.\<close>

theorem safestrcpy_terminates:
  assumes "0 < sint n" and "disjoint_regions s t (nat (sint n))"
  shows "cstr (safestrcpy m s t n) s (nat (sint n)) = cstr m t (nat (sint n) - 1) \<and>
    length (cstr (safestrcpy m s t n) s (nat (sint n))) < nat (sint n) \<and>
    (\<forall>a. \<not> in_region s (nat (sint n)) a \<longrightarrow> safestrcpy m s t n a = m a)"
  using safestrcpy_cstr [OF assms] length_cstr_le [of m t "nat (sint n) - 1"] assms(1) by auto

text \<open>Witness: a two-byte destination keeps one byte of the three-byte string.\<close>

theorem safestrcpy_terminates_witness:
  "cstr (safestrcpy name_memory 200 100 2) 200 2 = [0x63]"
proof -
  have d: "disjoint_regions 200 100 (nat (sint (2 :: cint)))"
    by (rule disjoint_regionsI) simp_all
  have "cstr name_memory 100 1 = [0x63]"
    by (simp add: cstr_def bytes_at_def name_memory_def)
  with safestrcpy_terminates [OF _ d, of name_memory, THEN conjunct1] show ?thesis by simp
qed

end
