(* ===== verification/Xv6_Mmu.thy ===== *)
theory Xv6_Mmu
  imports Xv6_Prelude
begin

text \<open>
  The address arithmetic of Xv6-Syscall/src/mmu.h and memlayout.h: page rounding, the
  three-part structure of a virtual address, page table entries, and the kernel's
  linear mapping of physical memory.
\<close>

section \<open>Constants and macros\<close>

definition PGSIZE :: uint where "PGSIZE = 4096"
definition NPDENTRIES :: nat where "NPDENTRIES = 1024"
definition NPTENTRIES :: nat where "NPTENTRIES = 1024"
definition PTXSHIFT :: nat where "PTXSHIFT = 12"
definition PDXSHIFT :: nat where "PDXSHIFT = 22"

definition PDX :: "uint \<Rightarrow> uint" where
  "PDX va = drop_bit PDXSHIFT va AND 0x3FF"

definition PTX :: "uint \<Rightarrow> uint" where
  "PTX va = drop_bit PTXSHIFT va AND 0x3FF"

definition PGADDR :: "uint \<Rightarrow> uint \<Rightarrow> uint \<Rightarrow> uint" where
  "PGADDR d t off = push_bit PDXSHIFT d OR push_bit PTXSHIFT t OR off"

definition PGROUNDUP :: "uint \<Rightarrow> uint" where
  "PGROUNDUP sz = (sz + PGSIZE - 1) AND NOT (PGSIZE - 1)"

definition PGROUNDDOWN :: "uint \<Rightarrow> uint" where
  "PGROUNDDOWN a = a AND NOT (PGSIZE - 1)"

definition PTE_P :: uint where "PTE_P = 0x001"
definition PTE_W :: uint where "PTE_W = 0x002"
definition PTE_U :: uint where "PTE_U = 0x004"
definition PTE_PS :: uint where "PTE_PS = 0x080"

definition PTE_ADDR :: "uint \<Rightarrow> uint" where
  "PTE_ADDR pte = pte AND NOT 0xFFF"

definition PTE_FLAGS :: "uint \<Rightarrow> uint" where
  "PTE_FLAGS pte = pte AND 0xFFF"

definition EXTMEM :: uint where "EXTMEM = 0x100000"
definition PHYSTOP :: uint where "PHYSTOP = 0xE000000"
definition DEVSPACE :: uint where "DEVSPACE = 0xFE000000"
definition KERNBASE :: uint where "KERNBASE = 0x80000000"
definition KERNLINK :: uint where "KERNLINK = KERNBASE + EXTMEM"

definition V2P :: "uint \<Rightarrow> uint" where
  "V2P a = a - KERNBASE"

definition P2V :: "uint \<Rightarrow> uint" where
  "P2V a = a + KERNBASE"

lemmas mmu_consts = PGSIZE_def PTXSHIFT_def PDXSHIFT_def PTE_P_def PTE_W_def PTE_U_def
  EXTMEM_def PHYSTOP_def DEVSPACE_def KERNBASE_def KERNLINK_def NPDENTRIES_def NPTENTRIES_def

section \<open>Page rounding\<close>

lemma PGSIZE_minus_1: "PGSIZE - 1 = mask 12"
  by (simp add: PGSIZE_def mask_eq_exp_minus_1)

lemma and_not_mask: "x AND NOT (mask n) = push_bit n (drop_bit n x)" for x :: uint
  by (rule bit_word_eqI) (auto simp: bit_simps)

lemma unat_PGROUNDDOWN: "unat (PGROUNDDOWN a) = unat a div 4096 * 4096"
proof -
  have "unat (PGROUNDDOWN a) = unat (push_bit 12 (drop_bit 12 a))"
    unfolding PGROUNDDOWN_def PGSIZE_minus_1 and_not_mask ..
  also have "\<dots> = take_bit 32 (push_bit 12 (unat (drop_bit 12 a)))"
    by (simp add: unsigned_push_bit_eq)
  also have "unat (drop_bit 12 a) = unat a div 4096"
    by (simp add: unsigned_drop_bit_eq drop_bit_eq_div unat_div)
  also have "take_bit 32 (push_bit 12 (unat a div 4096)) = unat a div 4096 * 4096"
    using unat_lt_32 [of a] by (simp add: push_bit_eq_mult take_bit_eq_mod)
  finally show ?thesis .
qed

lemma PGROUNDUP_eq: "PGROUNDUP a = PGROUNDDOWN (a + (PGSIZE - 1))"
  by (simp add: PGROUNDUP_def PGROUNDDOWN_def add_diff_eq)

lemma unat_PGROUNDUP:
  assumes "unat a + 4095 < 2 ^ 32"
  shows "unat (PGROUNDUP a) = (unat a + 4095) div 4096 * 4096"
  using assms by (simp add: PGROUNDUP_eq unat_PGROUNDDOWN unat_plus_if' PGSIZE_def)

lemma PGROUNDDOWN_aligned: "unat (PGROUNDDOWN a) mod 4096 = 0"
  by (simp add: unat_PGROUNDDOWN)

lemma mod_PGSIZE: "a mod PGSIZE = 0 \<longleftrightarrow> unat a mod 4096 = 0"
  by (simp add: PGSIZE_def word_unat_eq_iff unat_mod)

lemma P2V_V2P [simp]: "P2V (V2P a) = a" "V2P (P2V a) = a"
  by (simp_all add: P2V_def V2P_def)

section \<open>Parts of a virtual address\<close>

lemma and_3FF: "x AND 0x3FF = take_bit 10 x" for x :: uint
  by (simp add: take_bit_eq_mask mask_eq_exp_minus_1)

lemma and_FFF: "x AND 0xFFF = take_bit 12 x" for x :: uint
  by (simp add: take_bit_eq_mask mask_eq_exp_minus_1)

lemma PDX_PTX_lt: "unat (PDX va) < 1024" "unat (PTX va) < 1024"
proof -
  have "unat (take_bit 10 x) < 2 ^ 10" for x :: uint
    using take_bit_nat_less_exp [of 10 "unat x"] by (simp add: unsigned_take_bit_eq)
  then show "unat (PDX va) < 1024" "unat (PTX va) < 1024"
    by (simp_all add: PDX_def PTX_def and_3FF)
qed

text \<open>C32: The directory index, table index and page offset of a virtual address determine
  it: putting them together with PGADDR gives the address back, and the two indices are
  in range for a 1024-entry table.\<close>

theorem PGADDR_roundtrip:
  "PGADDR (PDX va) (PTX va) (PTE_FLAGS va) = va \<and>
   unat (PDX va) < NPDENTRIES \<and> unat (PTX va) < NPTENTRIES"
proof
  show "PGADDR (PDX va) (PTX va) (PTE_FLAGS va) = va"
  proof (rule bit_word_eqI)
    fix n assume "n < LENGTH(32)"
    then consider "n < 12" | "12 \<le> n" "n < 22" | "22 \<le> n" "n < 32" by fastforce
    then show "bit (PGADDR (PDX va) (PTX va) (PTE_FLAGS va)) n \<longleftrightarrow> bit va n"
      by cases (auto simp: PGADDR_def PDX_def PTX_def PTE_FLAGS_def PDXSHIFT_def PTXSHIFT_def
          and_3FF and_FFF bit_simps)
  qed
qed (use PDX_PTX_lt in \<open>simp add: NPDENTRIES_def NPTENTRIES_def\<close>)

end
