(* ===== verification/Xv6_Kalloc.thy ===== *)
theory Xv6_Kalloc
  imports Xv6_Mmu Xv6_String
begin

text \<open>
  The physical page allocator (Xv6-Syscall/src/kalloc.c).  The free list is kept in the
  free pages themselves: the first word of a free page points to the next one.  The
  state holds the allocator's variables and the memory the pages live in.  The section
  between \<open>acquire(&kmem.lock)\<close> and \<open>release(&kmem.lock)\<close> is one atomic step.

  The linker symbol \<open>end\<close>, the first address after the kernel image, is the parameter
  \<open>kend\<close> of the operations.

  The locale \<open>page_allocator\<close> is the contract: a relation between a state and the
  list of its free pages, how the two operations act on that list, and what clients may
  conclude.
\<close>

section \<open>State and operations\<close>

record kmem =
  use_lock :: bool
  freelist :: uint
  kmemory :: memory

definition kfree_bad :: "uint \<Rightarrow> uint \<Rightarrow> bool" where
  "kfree_bad kend v \<longleftrightarrow> v mod PGSIZE \<noteq> 0 \<or> v < kend \<or> V2P v \<ge> PHYSTOP"

definition kfree :: "uint \<Rightarrow> kmem \<Rightarrow> uint \<Rightarrow> kmem res" where
  "kfree kend s v =
     (if kfree_bad kend v then panic ''kfree''
      else let mem = memset (kmemory s) v 1 PGSIZE in
        Inr (s\<lparr>kmemory := store32 mem v (freelist s), freelist := v\<rparr>))"

definition kalloc :: "kmem \<Rightarrow> uint \<times> kmem" where
  "kalloc s =
     (let r = freelist s in
      if r \<noteq> 0 then (r, s\<lparr>freelist := load32 (kmemory s) r\<rparr>) else (r, s))"

lemma kfree_Inr_lt:
  assumes "kfree kend s v = Inr s'"
  shows "unat v + 4096 \<le> unat KERNBASE + unat PHYSTOP"
proof -
  have ok: "v mod PGSIZE = 0" "V2P v < PHYSTOP"
    using assms by (auto simp: kfree_def kfree_bad_def split: if_splits)
  from ok(2) have v: "unat v < unat KERNBASE + unat PHYSTOP"
    using unat_sub_if' [of v KERNBASE]
    by (auto simp: V2P_def word_less_nat_alt KERNBASE_def PHYSTOP_def split: if_splits)
  moreover have "4096 dvd unat v" using ok(1) by (simp add: mod_PGSIZE mod_eq_0_iff_dvd)
  ultimately show ?thesis
    by (intro aligned_less) (simp_all add: KERNBASE_def PHYSTOP_def)
qed

text \<open>The loop of \<open>freerange\<close> ends because \<open>kfree\<close> panics on addresses past the top
  of physical memory, before the page pointer can wrap around.\<close>

function freerange_loop :: "uint \<Rightarrow> uint \<Rightarrow> uint \<Rightarrow> kmem \<Rightarrow> kmem res" where
  "freerange_loop kend p vend s =
     (if p + PGSIZE \<le> vend
      then bindE (kfree kend s p) (\<lambda>s'. freerange_loop kend (p + PGSIZE) vend s')
      else Inr s)"
  by pat_completeness auto
termination
proof (relation "measure (\<lambda>(kend, p, vend, s). 2 ^ 32 - unat p)")
  fix kend p vend s s'
  assume "kfree kend s p = Inr s'"
  from kfree_Inr_lt [OF this] have "unat (p + PGSIZE) = unat p + 4096"
    by (simp add: unat_plus_if' PGSIZE_def KERNBASE_def PHYSTOP_def)
  then show "((kend, p + PGSIZE, vend, s'), kend, p, vend, s)
      \<in> measure (\<lambda>(kend, p, vend, s). 2 ^ 32 - unat p)"
    using unat_lt_32 [of p] unat_lt_32 [of "p + PGSIZE"] by simp
qed simp

declare freerange_loop.simps [simp del]

definition freerange :: "uint \<Rightarrow> kmem \<Rightarrow> uint \<Rightarrow> uint \<Rightarrow> kmem res" where
  "freerange kend s vstart vend = freerange_loop kend (PGROUNDUP vstart) vend s"

definition kinit1 :: "uint \<Rightarrow> kmem \<Rightarrow> uint \<Rightarrow> uint \<Rightarrow> kmem res" where
  "kinit1 kend s vstart vend = freerange kend (s\<lparr>use_lock := False\<rparr>) vstart vend"

definition kinit2 :: "uint \<Rightarrow> kmem \<Rightarrow> uint \<Rightarrow> uint \<Rightarrow> kmem res" where
  "kinit2 kend s vstart vend =
     bindE (freerange kend s vstart vend) (\<lambda>s. Inr (s\<lparr>use_lock := True\<rparr>))"

section \<open>Contract of a page allocator\<close>

text \<open>Allocate \<open>n\<close> times in a row.\<close>

fun alloc_many :: "('s \<Rightarrow> uint \<times> 's) \<Rightarrow> nat \<Rightarrow> 's \<Rightarrow> uint list \<times> 's" where
  "alloc_many alloc 0 s = ([], s)"
| "alloc_many alloc (Suc n) s =
     (let (p, s') = alloc s; (ps, s'') = alloc_many alloc n s' in (p # ps, s''))"

text \<open>\<open>rel s xs\<close>: in state \<open>s\<close> the free pages are \<open>xs\<close>, the next one first.\<close>

locale page_allocator =
  fixes alloc :: "'s \<Rightarrow> uint \<times> 's"
    and dealloc :: "'s \<Rightarrow> uint \<Rightarrow> 's res"
    and rel :: "'s \<Rightarrow> uint list \<Rightarrow> bool"
    and page :: "uint \<Rightarrow> bool"
  assumes alloc_empty: "rel s [] \<Longrightarrow> alloc s = (0, s)"
    and alloc_page: "rel s (x # xs) \<Longrightarrow> fst (alloc s) = x \<and> rel (snd (alloc s)) xs"
    and dealloc_page: "rel s xs \<Longrightarrow> page v \<Longrightarrow> v \<notin> set xs \<Longrightarrow>
          \<exists>s'. dealloc s v = Inr s' \<and> rel s' (v # xs)"
    and rel_pages: "rel s xs \<Longrightarrow> distinct xs \<and> (\<forall>x \<in> set xs. page x)"
    and page_nonzero: "\<not> page 0"
begin

lemma alloc_many_pages:
  "rel s xs \<Longrightarrow> n \<le> length xs \<Longrightarrow>
     fst (alloc_many alloc n s) = take n xs \<and> rel (snd (alloc_many alloc n s)) (drop n xs)"
proof (induction n arbitrary: s xs)
  case (Suc n)
  then obtain y ys where xs: "xs = y # ys" by (cases xs) auto
  with alloc_page [of s y ys] Suc.prems have a: "fst (alloc s) = y" "rel (snd (alloc s)) ys"
    by auto
  with Suc.IH [OF a(2)] Suc.prems xs show ?case by (auto simp: Let_def split: prod.splits)
qed simp

lemma alloc_many_distinct:
  assumes "rel s xs" "n \<le> length xs"
  shows "distinct (fst (alloc_many alloc n s))" "\<forall>p \<in> set (fst (alloc_many alloc n s)). page p"
  using alloc_many_pages [OF assms] rel_pages [OF assms(1)]
  by (auto dest: in_set_takeD)

lemma alloc_0_iff:
  assumes "rel s xs"
  shows "fst (alloc s) = 0 \<longleftrightarrow> xs = []"
proof (cases xs)
  case Nil
  then show ?thesis using alloc_empty assms by simp
next
  case (Cons y ys)
  then have "fst (alloc s) = y" using alloc_page assms by blast
  moreover have "y \<noteq> 0" using rel_pages [OF assms] page_nonzero Cons by auto
  ultimately show ?thesis using Cons by simp
qed

lemma dealloc_alloc:
  assumes "rel s xs" "page v" "v \<notin> set xs"
  shows "\<exists>s'. dealloc s v = Inr s' \<and> fst (alloc s') = v \<and> rel (snd (alloc s')) xs"
  using dealloc_page [OF assms] alloc_page by blast

end

section \<open>The free list in memory\<close>

text \<open>The pages reached from a pointer by following first words, up to the null pointer.\<close>

fun free_chain :: "memory \<Rightarrow> uint \<Rightarrow> uint list \<Rightarrow> bool" where
  "free_chain mem p [] \<longleftrightarrow> p = 0"
| "free_chain mem p (x # xs) \<longleftrightarrow> p = x \<and> p \<noteq> 0 \<and> free_chain mem (load32 mem p) xs"

definition kpage :: "uint \<Rightarrow> uint \<Rightarrow> bool" where
  "kpage kend v \<longleftrightarrow> \<not> kfree_bad kend v"

definition kmem_rel :: "uint \<Rightarrow> kmem \<Rightarrow> uint list \<Rightarrow> bool" where
  "kmem_rel kend s xs \<longleftrightarrow> free_chain (kmemory s) (freelist s) xs \<and> distinct xs \<and>
     (\<forall>x \<in> set xs. kpage kend x)"

lemma kpage_nonzero: "\<not> kpage kend 0"
  by (simp add: kpage_def kfree_bad_def V2P_def KERNBASE_def PHYSTOP_def)

lemma kpage_aligned: "kpage kend v \<Longrightarrow> 4096 dvd unat v"
  by (simp add: kpage_def kfree_bad_def mod_PGSIZE mod_eq_0_iff_dvd)

text \<open>A word inside a page and a page that starts elsewhere have no byte in common.\<close>

lemma page_top: "4096 dvd unat (u :: uint) \<Longrightarrow> unat u + 4096 \<le> 2 ^ 32"
  using unat_lt_32 [of u] by (intro aligned_less) simp_all

lemma page_regions_disjoint:
  assumes "4096 dvd unat u" "4096 dvd unat v" "u \<noteq> v" "unat i < 4096"
  shows "\<not> in_region v 4096 (u + i)"
proof
  assume r: "in_region v 4096 (u + i)"
  have ui: "unat (u + i) = unat u + unat i"
    using page_top [OF assms(1)] assms(4) by (simp add: unat_plus_if')
  have "unat (u + i) - unat v < 4096 \<and> unat v \<le> unat (u + i)"
    using r unat_sub_if' [of "u + i" v] page_top [OF assms(2)]
    by (auto simp: in_region_def split: if_splits)
  then have "unat u = unat v"
    using ui assms by (intro aligned_eq [of 4096 _ _ "unat i"]) auto
  with assms(3) show False by (simp add: word_unat_eq_iff)
qed

lemma free_chain_cong:
  "(\<And>x. x \<in> set xs \<Longrightarrow> load32 mem' x = load32 mem x) \<Longrightarrow>
     free_chain mem' p xs = free_chain mem p xs"
  by (induction xs arbitrary: p) auto

text \<open>What \<open>kfree\<close> writes: the freed page only.\<close>

definition kfree_mem :: "memory \<Rightarrow> uint \<Rightarrow> uint \<Rightarrow> memory" where
  "kfree_mem mem v next = store32 (memset mem v 1 PGSIZE) v next"

lemma in_region_mono: "in_region v k a \<Longrightarrow> k \<le> n \<Longrightarrow> in_region v n a"
  by (simp add: in_region_def)

interpretation kfree_w: region_writer "\<lambda>mem. kfree_mem mem v next" v 4096 for v "next"
proof
  fix a m assume a: "\<not> in_region v 4096 a"
  then have "\<not> a - v < 4"
    using in_region_mono [of v 4 a 4096] by (auto simp: in_region_def word_less_nat_alt)
  with a show "kfree_mem m v next a = m a"
    by (simp add: kfree_mem_def store32_other memset_apply PGSIZE_def)
qed

lemma load32_other_page:
  assumes "4096 dvd unat u" "4096 dvd unat v" "u \<noteq> v"
  shows "load32 (kfree_mem mem v nxt) u = load32 mem u"
  using page_regions_disjoint [OF assms]
  by (intro kfree_w.load32_frame) (auto simp: word_less_nat_alt)

lemma kalloc_rel:
  assumes "kmem_rel kend s (x # xs)"
  shows "fst (kalloc s) = x \<and> kmem_rel kend (snd (kalloc s)) xs"
  using assms by (auto simp: kmem_rel_def kalloc_def Let_def)

lemma kfree_rel:
  assumes "kmem_rel kend s xs" "kpage kend v" "v \<notin> set xs"
  shows "\<exists>s'. kfree kend s v = Inr s' \<and> kmem_rel kend s' (v # xs)"
proof -
  let ?s = "s\<lparr>kmemory := kfree_mem (kmemory s) v (freelist s), freelist := v\<rparr>"
  have k: "kfree kend s v = Inr ?s"
    using assms(2) by (simp add: kfree_def kpage_def kfree_mem_def Let_def)
  have "free_chain (kfree_mem (kmemory s) v (freelist s)) (freelist s) xs"
  proof (rule free_chain_cong [THEN iffD2])
    fix x assume x: "x \<in> set xs"
    with assms have "x \<noteq> v" "kpage kend x" by (auto simp: kmem_rel_def)
    then show "load32 (kfree_mem (kmemory s) v (freelist s)) x = load32 (kmemory s) x"
      using assms(2) by (intro load32_other_page) (auto dest: kpage_aligned)
  qed (use assms(1) in \<open>simp add: kmem_rel_def\<close>)
  moreover have "load32 (kfree_mem (kmemory s) v (freelist s)) v = freelist s"
    by (simp add: kfree_mem_def)
  moreover have "v \<noteq> 0" using assms(2) kpage_nonzero by auto
  ultimately have "kmem_rel kend ?s (v # xs)"
    using assms by (simp add: kmem_rel_def)
  with k show ?thesis by blast
qed

interpretation kmem_alloc: page_allocator kalloc "kfree kend" "kmem_rel kend" "kpage kend" for kend
  by unfold_locales (use kalloc_rel kfree_rel kpage_nonzero in \<open>auto simp: kmem_rel_def kalloc_def\<close>)

section \<open>Filling the list from a range of memory\<close>

text \<open>The pages from page address \<open>a\<close> on that end at or before \<open>b\<close>, in address order.\<close>

definition pages_between :: "nat \<Rightarrow> nat \<Rightarrow> uint list" where
  "pages_between a b = map (\<lambda>i. of_nat (a + 4096 * i)) [0..<(b - a) div 4096]"

lemma pages_between_stop: "b < a + 4096 \<Longrightarrow> pages_between a b = []"
  by (simp add: pages_between_def)

lemma pages_between_step:
  assumes "a + 4096 \<le> b"
  shows "pages_between a b = of_nat a # pages_between (a + 4096) b"
proof -
  have n: "(b - a) div 4096 = Suc ((b - (a + 4096)) div 4096)"
    using assms le_div_geq [of 4096 "b - a"] by simp
  show ?thesis
    unfolding pages_between_def n
    by (rule nth_equalityI) (auto simp: nth_Cons algebra_simps split: nat.splits simp del: upt_Suc)
qed

lemma kpage_range:
  assumes "4096 dvd unat p" "kend \<le> p" "unat p + 4096 \<le> unat KERNBASE + unat PHYSTOP"
    "KERNBASE \<le> p"
  shows "kpage kend p"
  using assms unat_sub_if' [of p KERNBASE]
  by (auto simp: kpage_def kfree_bad_def mod_PGSIZE V2P_def word_less_nat_alt word_le_nat_alt
      KERNBASE_def PHYSTOP_def not_less mod_eq_0_iff_dvd)

lemma freerange_loop_rel:
  assumes "kmem_rel kend s xs" "4096 dvd unat p" "kend \<le> p" "KERNBASE \<le> p"
    "unat vend \<le> unat KERNBASE + unat PHYSTOP" "p \<le> vend"
    "\<And>x. x \<in> set xs \<Longrightarrow> x < p"
  shows "\<exists>s'. freerange_loop kend p vend s = Inr s' \<and>
     kmem_rel kend s' (rev (pages_between (unat p) (unat vend)) @ xs)"
  using assms
proof (induction "(unat vend - unat p) div 4096" arbitrary: p s xs)
  case 0
  then have lt: "unat vend < unat p + 4096"
    by (simp add: div_eq_0_iff word_le_nat_alt)
  have "unat (p + PGSIZE) = unat p + 4096"
    using page_top [OF 0(3)] 0 lt by (simp add: unat_plus_if' PGSIZE_def KERNBASE_def PHYSTOP_def word_le_nat_alt)
  then have "\<not> p + PGSIZE \<le> vend" using lt by (simp add: word_le_nat_alt)
  with 0 lt show ?case
    by (simp add: freerange_loop.simps [of kend p] pages_between_stop)
next
  case (Suc k)
  then have le: "unat p + 4096 \<le> unat vend"
    by (metis Suc_n_not_le_n div_less le_zero_eq less_diff_conv2 linorder_not_le nat_le_linear
        add.commute word_le_nat_alt zero_less_Suc)
  have up: "unat (p + PGSIZE) = unat p + 4096"
    using le unat_lt_32 [of vend] by (simp add: unat_plus_if' PGSIZE_def)
  have page: "kpage kend p" using Suc.prems le by (intro kpage_range) auto
  have notin: "p \<notin> set xs" using Suc.prems(7) by blast
  from kfree_rel [OF Suc.prems(1) page notin] obtain s1 where
    s1: "kfree kend s p = Inr s1" "kmem_rel kend s1 (p # xs)" by blast
  have "\<exists>s'. freerange_loop kend (p + PGSIZE) vend s1 = Inr s' \<and>
     kmem_rel kend s' (rev (pages_between (unat (p + PGSIZE)) (unat vend)) @ p # xs)"
  proof (rule Suc.hyps(1))
    show "k = (unat vend - unat (p + PGSIZE)) div 4096"
      using Suc.hyps(2) le up le_div_geq [of 4096 "unat vend - unat p"] by simp
    show "x < p + PGSIZE" if "x \<in> set (p # xs)" for x
      using that Suc.prems(7) up by (force simp: word_less_nat_alt)
  qed (use Suc.prems s1 up le in \<open>auto simp: word_le_nat_alt\<close>)
  moreover have "p + PGSIZE \<le> vend" using up le by (simp add: word_le_nat_alt)
  ultimately show ?case
    using s1(1) le up by (auto simp: freerange_loop.simps [of kend p] pages_between_step)
qed

lemma kalloc_memory: "kmemory (snd (kalloc s)) = kmemory s"
  by (simp add: kalloc_def Let_def)

lemma kalloc_many_memory: "kmemory (snd (alloc_many kalloc n s)) = kmemory s"
proof (induction n arbitrary: s)
  case (Suc n)
  from Suc [of "snd (kalloc s)"] show ?case
    using kalloc_memory [of s] by (auto simp: split: prod.splits)
qed simp

section \<open>Properties\<close>

text \<open>C19: As long as the free list lasts, successive calls of kalloc hand out pairwise
  distinct page-aligned pages of the allocatable range, remove exactly these from the
  free list, and leave every byte of memory as it was.\<close>

theorem kalloc_distinct_pages:
  assumes "kmem_rel kend s xs" and "n \<le> length xs"
  shows "distinct (fst (alloc_many kalloc n s)) \<and>
    (\<forall>p \<in> set (fst (alloc_many kalloc n s)). kpage kend p) \<and>
    kmem_rel kend (snd (alloc_many kalloc n s)) (drop n xs) \<and>
    kmemory (snd (alloc_many kalloc n s)) = kmemory s"
  using kmem_alloc.alloc_many_distinct [OF assms] kmem_alloc.alloc_many_pages [OF assms]
    kalloc_many_memory by blast

text \<open>C30: kfree followed by kalloc returns the freed page and restores the free list; kfree
  changes no byte outside the freed page; and kalloc reports failure, the null pointer,
  exactly when the free list is empty.\<close>

theorem kfree_kalloc_roundtrip:
  assumes "kmem_rel kend s xs" and "kpage kend v" and "v \<notin> set xs"
  shows "(\<exists>s'. kfree kend s v = Inr s' \<and> fst (kalloc s') = v \<and>
      kmem_rel kend (snd (kalloc s')) xs \<and>
      (\<forall>a. \<not> in_region v 4096 a \<longrightarrow> kmemory s' a = kmemory s a)) \<and>
    (fst (kalloc s) = 0 \<longleftrightarrow> xs = [])"
proof -
  from kmem_alloc.dealloc_alloc [OF assms] obtain s' where
    s': "kfree kend s v = Inr s'" "fst (kalloc s') = v" "kmem_rel kend (snd (kalloc s')) xs"
    by blast
  have "kmemory s' = kfree_mem (kmemory s) v (freelist s)"
    using s'(1) by (auto simp: kfree_def kfree_mem_def Let_def split: if_splits)
  with s' kmem_alloc.alloc_0_iff [OF assms(1)] show ?thesis
    by (auto simp: kfree_w.frame)
qed

text \<open>C26: Freeing a range at boot terminates without a panic and puts on the free list
  exactly the whole pages of the range, in front of the pages that were there.\<close>

theorem freerange_pages:
  assumes "kmem_rel kend s xs" and "unat vstart + 4095 < 2 ^ 32"
    and "kend \<le> vstart" and "KERNBASE \<le> vstart" and "PGROUNDUP vstart \<le> vend"
    and "unat vend \<le> unat KERNBASE + unat PHYSTOP"
    and "\<forall>x \<in> set xs. x < PGROUNDUP vstart"
  shows "\<exists>s'. freerange kend s vstart vend = Inr s' \<and>
    kmem_rel kend s' (rev (pages_between (unat (PGROUNDUP vstart)) (unat vend)) @ xs)"
proof -
  have up: "vstart \<le> PGROUNDUP vstart"
    using unat_PGROUNDUP [OF assms(2)] by (simp add: word_le_nat_alt)
  have "4096 dvd unat (PGROUNDUP vstart)"
    using unat_PGROUNDUP [OF assms(2)] by simp
  with assms up show ?thesis
    unfolding freerange_def by (intro freerange_loop_rel) auto
qed

text \<open>Witnesses, on an allocator with nothing free and on one that was given two pages.\<close>

definition kmem0 :: kmem where
  "kmem0 = \<lparr>use_lock = False, freelist = 0, kmemory = (\<lambda>_. 0)\<rparr>"

lemma kmem0_rel: "kmem_rel kend kmem0 []"
  by (simp add: kmem_rel_def kmem0_def)

theorem freerange_pages_witness:
  "\<exists>s'. freerange 0x80100010 kmem0 0x80100010 0x80103800 = Inr s' \<and>
     kmem_rel 0x80100010 s' [0x80102000, 0x80101000]"
proof -
  have p: "PGROUNDUP 0x80100010 = 0x80101000"
    by (simp add: PGROUNDUP_def PGSIZE_def)
  have "pages_between 0x80101000 0x80103800 = [0x80101000, 0x80102000]"
    by (simp add: pages_between_def upt_rec)
  then show ?thesis
    using freerange_pages [OF kmem0_rel, of "0x80100010" "0x80100010" "0x80103800"] p
    by (simp add: KERNBASE_def PHYSTOP_def)
qed

theorem kfree_kalloc_roundtrip_witness:
  "\<exists>s'. kfree 0x80100010 kmem0 0x80101000 = Inr s' \<and> fst (kalloc s') = 0x80101000"
proof -
  have "kpage 0x80100010 0x80101000"
    by (simp add: kpage_def kfree_bad_def PGSIZE_def V2P_def KERNBASE_def PHYSTOP_def)
  from kfree_kalloc_roundtrip [OF kmem0_rel this] show ?thesis by auto
qed

lemma kmem_two_pages: "\<exists>s. kmem_rel 0x80100010 s [0x80102000, 0x80101000]"
proof -
  have k: "kpage 0x80100010 0x80101000" "kpage 0x80100010 0x80102000"
    by (simp_all add: kpage_def kfree_bad_def PGSIZE_def V2P_def KERNBASE_def PHYSTOP_def)
  from kfree_rel [OF kmem0_rel k(1)] obtain s where "kmem_rel 0x80100010 s [0x80101000]" by auto
  from kfree_rel [OF this k(2)] show ?thesis by auto
qed

theorem kalloc_distinct_pages_witness:
  "\<exists>s. kmem_rel 0x80100010 s [0x80102000, 0x80101000] \<and>
     distinct (fst (alloc_many kalloc 2 s))"
proof -
  obtain s where s: "kmem_rel 0x80100010 s [0x80102000, 0x80101000]"
    using kmem_two_pages by blast
  have "distinct (fst (alloc_many kalloc 2 s))"
    using kalloc_distinct_pages [OF s, of 2] by simp
  with s show ?thesis by blast
qed

end
