(* ===== verification/Xv6_Spinlock.thy ===== *)
theory Xv6_Spinlock
  imports Xv6_Mmu
begin

text \<open>
  Spin locks (Xv6-Syscall/src/spinlock.c).  The sequential part models every routine as
  the code of one CPU runs it: the per-CPU fields \<open>ncli\<close> and \<open>intena\<close> of \<open>struct cpu\<close>,
  the interrupt flag of the eflags register, and the fields of \<open>struct spinlock\<close>.

  The concurrent part is a step relation on any number of CPUs and locks.  Its steps are
  the atomic actions of the code: entering \<open>acquire\<close>, one \<open>xchg\<close> of the spin loop,
  recording the owner, and the two stores of \<open>release\<close>.  The invariant proved by rule
  induction gives mutual exclusion and that a CPU that holds a spin lock runs with
  interrupts off.
\<close>

section \<open>Per-CPU interrupt nesting\<close>

record cpu =
  eflags_if :: bool
  ncli :: int
  intena :: bool

definition pushcli :: "'a cpu_scheme \<Rightarrow> 'a cpu_scheme" where
  "pushcli u =
     (let eflags = eflags_if u;
          u = u\<lparr>eflags_if := False\<rparr>;
          u = (if ncli u = 0 then u\<lparr>intena := eflags\<rparr> else u)
      in u\<lparr>ncli := ncli u + 1\<rparr>)"

definition popcli :: "'a cpu_scheme \<Rightarrow> 'a cpu_scheme res" where
  "popcli u =
     (if eflags_if u then panic ''popcli - interruptible''
      else let u = u\<lparr>ncli := ncli u - 1\<rparr> in
        if ncli u < 0 then panic ''popcli''
        else Inr (if ncli u = 0 \<and> intena u then u\<lparr>eflags_if := True\<rparr> else u))"

section \<open>Lock operations of one CPU\<close>

record spinlock =
  spin_locked :: uint
  spin_cpu :: "nat option"
  spin_pcs :: "uint list"

definition initlock :: "spinlock \<Rightarrow> spinlock" where
  "initlock lk = lk\<lparr>spin_locked := 0, spin_cpu := None\<rparr>"

definition holding :: "nat \<Rightarrow> 'a cpu_scheme \<Rightarrow> spinlock \<Rightarrow> (bool \<times> 'a cpu_scheme) res" where
  "holding c u lk =
     (let u = pushcli u;
          r = (spin_locked lk \<noteq> 0 \<and> spin_cpu lk = Some c)
      in bindE (popcli u) (\<lambda>u. Inr (r, u)))"

text \<open>x86.h: the locked exchange returns the old value and stores the new one.\<close>

definition xchg :: "uint \<Rightarrow> uint \<Rightarrow> uint \<times> uint" where
  "xchg old newval = (old, newval)"

text \<open>\<open>stk\<close> is the call stack that \<open>getcallerpcs\<close> records for debugging; an attempt on a
  lock that another CPU holds does not get past the spin loop.\<close>

definition acquire :: "nat \<Rightarrow> uint list \<Rightarrow> 'a cpu_scheme \<Rightarrow> spinlock \<Rightarrow> ('a cpu_scheme \<times> spinlock) res" where
  "acquire c stk u lk =
     bindE (holding c (pushcli u) lk) (\<lambda>(h, u).
       if h then panic ''acquire''
       else let (old, new) = xchg (spin_locked lk) 1 in
         if old \<noteq> 0 then Inl (Block ''acquire'')
         else Inr (u, lk\<lparr>spin_locked := new, spin_cpu := Some c, spin_pcs := stk\<rparr>))"

definition release :: "nat \<Rightarrow> 'a cpu_scheme \<Rightarrow> spinlock \<Rightarrow> ('a cpu_scheme \<times> spinlock) res" where
  "release c u lk =
     bindE (holding c u lk) (\<lambda>(h, u).
       if \<not> h then panic ''release''
       else let lk = lk\<lparr>spin_pcs := (spin_pcs lk)[0 := 0], spin_cpu := None\<rparr>;
                lk = lk\<lparr>spin_locked := 0\<rparr>
            in bindE (popcli u) (\<lambda>u. Inr (u, lk)))"

text \<open>The \<open>%ebp\<close> chain, followed for at most the ten entries of \<open>pcs\<close>.\<close>

fun pcs_walk :: "memory \<Rightarrow> uint \<Rightarrow> nat \<Rightarrow> uint list" where
  "pcs_walk m ebp 0 = []"
| "pcs_walk m ebp (Suc k) =
     (if ebp = 0 \<or> ebp < KERNBASE \<or> ebp = 0xffffffff then replicate (Suc k) 0
      else load32 m (ebp + 4) # pcs_walk m (load32 m ebp) k)"

definition getcallerpcs :: "memory \<Rightarrow> uint \<Rightarrow> uint list" where
  "getcallerpcs m v = pcs_walk m (v - 8) 10"

lemma length_getcallerpcs: "length (getcallerpcs m v) = 10"
proof -
  have "length (pcs_walk m ebp k) = k" for m ebp k
    by (induction m ebp k rule: pcs_walk.induct) auto
  then show ?thesis by (simp add: getcallerpcs_def)
qed

section \<open>Nesting\<close>

lemma ncli_pushcli [simp]: "ncli (pushcli u) = ncli u + 1"
  and eflags_pushcli [simp]: "eflags_if (pushcli u) = False"
  by (simp_all add: pushcli_def Let_def)

lemma intena_pushcli: "intena (pushcli u) = (if ncli u = 0 then eflags_if u else intena u)"
  by (simp add: pushcli_def Let_def)

text \<open>A CPU between calls: never fewer pops than pushes, and interrupts are off inside a
  \<open>pushcli\<close> section.\<close>

definition cpu_ok :: "'a cpu_scheme \<Rightarrow> bool" where
  "cpu_ok u \<longleftrightarrow> 0 \<le> ncli u \<and> (0 < ncli u \<longrightarrow> \<not> eflags_if u)"

lemma cpu_ok_pushcli: "cpu_ok u \<Longrightarrow> cpu_ok (pushcli u)"
  by (simp add: cpu_ok_def)

lemma popcli_pushcli:
  assumes "cpu_ok u"
  shows "popcli (pushcli u) = Inr (u\<lparr>intena := intena (pushcli u)\<rparr>)"
  using assms by (cases u) (auto simp: popcli_def pushcli_def cpu_ok_def Let_def)

lemma popcli_ok:
  assumes "cpu_ok u" "0 < ncli u"
  shows "\<exists>u'. popcli u = Inr u' \<and> cpu_ok u' \<and> ncli u' = ncli u - 1"
  using assms by (auto simp: popcli_def cpu_ok_def Let_def)

lemma popcli_Inr:
  assumes "popcli u = Inr u'" "cpu_ok u"
  shows "cpu_ok u' \<and> ncli u' = ncli u - 1"
  using assms by (auto simp: popcli_def cpu_ok_def Let_def split: if_splits)

lemma holding_ok:
  assumes "cpu_ok u"
  shows "\<exists>u'. holding c u lk = Inr (spin_locked lk \<noteq> 0 \<and> spin_cpu lk = Some c, u') \<and>
     cpu_ok u' \<and> ncli u' = ncli u \<and> eflags_if u' = eflags_if u"
  using popcli_pushcli [OF assms] assms
  by (simp add: holding_def Let_def cpu_ok_def)

lemma holding_Inr:
  assumes "holding c u lk = Inr (h, u')" "cpu_ok u"
  shows "(h \<longleftrightarrow> spin_locked lk \<noteq> 0 \<and> spin_cpu lk = Some c) \<and> cpu_ok u' \<and> ncli u' = ncli u \<and>
     eflags_if u' = eflags_if u"
  using holding_ok [OF assms(2), of c lk] assms(1) by auto

text \<open>Run \<open>popcli\<close> \<open>n\<close> times.\<close>

fun popcli_n :: "nat \<Rightarrow> 'a cpu_scheme \<Rightarrow> 'a cpu_scheme res" where
  "popcli_n 0 u = Inr u"
| "popcli_n (Suc n) u = bindE (popcli u) (popcli_n n)"

lemma pushcli_n:
  "cpu_ok u \<Longrightarrow> cpu_ok ((pushcli ^^ n) u) \<and> ncli ((pushcli ^^ n) u) = ncli u + int n"
  by (induction n) (auto simp: cpu_ok_def)

lemma popcli_pushcli_inner:
  assumes "cpu_ok v" "0 < ncli v"
  shows "popcli (pushcli v) = Inr v"
  using popcli_pushcli [OF assms(1)] assms(2) by (simp add: intena_pushcli)

text \<open>C33: pushcli and popcli nest: from any consistent CPU state, \<open>n\<close> calls of pushcli
  and \<open>n\<close> calls of popcli succeed and leave the nesting depth and the interrupt flag as
  they were, and in between, after at least one pushcli, interrupts are off.\<close>

theorem pushcli_popcli_nest:
  assumes "cpu_ok u"
  shows "(\<exists>u'. popcli_n n ((pushcli ^^ n) u) = Inr u' \<and>
      ncli u' = ncli u \<and> eflags_if u' = eflags_if u) \<and>
    (0 < n \<longrightarrow> \<not> eflags_if ((pushcli ^^ n) u))"
proof
  show "\<exists>u'. popcli_n n ((pushcli ^^ n) u) = Inr u' \<and> ncli u' = ncli u \<and> eflags_if u' = eflags_if u"
  proof (induction n)
    case (Suc n)
    show ?case
    proof (cases "n = 0")
      case True
      then show ?thesis using popcli_pushcli [OF assms] by simp
    next
      case False
      then have "popcli (pushcli ((pushcli ^^ n) u)) = Inr ((pushcli ^^ n) u)"
        using pushcli_n [OF assms, of n] assms
        by (intro popcli_pushcli_inner) (auto simp: cpu_ok_def)
      with Suc show ?thesis by simp
    qed
  qed simp
  show "0 < n \<longrightarrow> \<not> eflags_if ((pushcli ^^ n) u)"
    by (cases n) simp_all
qed

theorem pushcli_popcli_nest_witness:
  "\<exists>u'. popcli_n 3 ((pushcli ^^ 3) \<lparr>eflags_if = True, ncli = 0, intena = False\<rparr>) = Inr u' \<and>
     ncli u' = 0 \<and> eflags_if u'"
  using pushcli_popcli_nest [of "\<lparr>eflags_if = True, ncli = 0, intena = False\<rparr>" 3]
  by (simp add: cpu_ok_def)

section \<open>Many CPUs\<close>

text \<open>Where a CPU is in the lock code: running other code, in the spin loop of \<open>acquire\<close>,
  past a successful \<open>xchg\<close> but before \<open>lk->cpu = mycpu()\<close>, or in \<open>release\<close> past
  \<open>lk->cpu = 0\<close> but before the final store.\<close>

datatype pc = Run | Spin nat | Got nat | Rel nat

record smp =
  cpus :: "nat \<Rightarrow> cpu"
  pcs :: "nat \<Rightarrow> pc"
  locks :: "nat \<Rightarrow> spinlock"

definition smp_init :: smp where
  "smp_init = \<lparr>cpus = (\<lambda>_. \<lparr>eflags_if = False, ncli = 0, intena = False\<rparr>),
     pcs = (\<lambda>_. Run), locks = (\<lambda>_. \<lparr>spin_locked = 0, spin_cpu = None, spin_pcs = replicate 10 0\<rparr>)\<rparr>"

text \<open>The steps.  \<open>acq_spin\<close> is a failed exchange: the loop goes round.  \<open>int_on\<close> is
  \<open>sti()\<close> outside any critical section, as in \<open>scheduler\<close>.\<close>

inductive smp_step :: "smp \<Rightarrow> smp \<Rightarrow> bool" where
  int_on: "pcs s c = Run \<Longrightarrow> ncli (cpus s c) = 0 \<Longrightarrow>
     smp_step s (s\<lparr>cpus := (cpus s)(c := (cpus s c)\<lparr>eflags_if := True\<rparr>)\<rparr>)"
| push: "pcs s c = Run \<Longrightarrow>
     holding c (pushcli (cpus s c)) (locks s l) = Inr (False, u) \<Longrightarrow>
     smp_step s (s\<lparr>cpus := (cpus s)(c := u), pcs := (pcs s)(c := Spin l)\<rparr>)"
| acq_spin: "pcs s c = Spin l \<Longrightarrow> xchg (spin_locked (locks s l)) 1 = (old, new) \<Longrightarrow> old \<noteq> 0 \<Longrightarrow>
     smp_step s (s\<lparr>locks := (locks s)(l := (locks s l)\<lparr>spin_locked := new\<rparr>)\<rparr>)"
| acq_got: "pcs s c = Spin l \<Longrightarrow> xchg (spin_locked (locks s l)) 1 = (0, new) \<Longrightarrow>
     smp_step s (s\<lparr>locks := (locks s)(l := (locks s l)\<lparr>spin_locked := new\<rparr>),
       pcs := (pcs s)(c := Got l)\<rparr>)"
| acq_done: "pcs s c = Got l \<Longrightarrow>
     smp_step s (s\<lparr>locks := (locks s)(l := (locks s l)\<lparr>spin_cpu := Some c, spin_pcs := stk\<rparr>),
       pcs := (pcs s)(c := Run)\<rparr>)"
| rel_clear: "pcs s c = Run \<Longrightarrow>
     holding c (cpus s c) (locks s l) = Inr (True, u) \<Longrightarrow>
     smp_step s (s\<lparr>cpus := (cpus s)(c := u),
       locks := (locks s)(l := (locks s l)\<lparr>spin_pcs := (spin_pcs (locks s l))[0 := 0],
         spin_cpu := None\<rparr>), pcs := (pcs s)(c := Rel l)\<rparr>)"
| rel_store: "pcs s c = Rel l \<Longrightarrow> popcli (cpus s c) = Inr u \<Longrightarrow>
     smp_step s (s\<lparr>cpus := (cpus s)(c := u),
       locks := (locks s)(l := (locks s l)\<lparr>spin_locked := 0\<rparr>), pcs := (pcs s)(c := Run)\<rparr>)"

inductive smp_reachable :: "smp \<Rightarrow> bool" where
  start: "smp_reachable smp_init"
| step: "smp_reachable s \<Longrightarrow> smp_step s t \<Longrightarrow> smp_reachable t"

text \<open>CPU \<open>c\<close> is inside the critical section of lock \<open>l\<close>: from its successful exchange
  to the store that frees the lock.\<close>

definition in_cs :: "smp \<Rightarrow> nat \<Rightarrow> nat \<Rightarrow> bool" where
  "in_cs s c l \<longleftrightarrow> pcs s c = Got l \<or> pcs s c = Rel l \<or> spin_cpu (locks s l) = Some c"

text \<open>How many \<open>pushcli\<close> calls of CPU \<open>c\<close> are pending.\<close>

definition depth :: "smp \<Rightarrow> nat \<Rightarrow> nat" where
  "depth s c = card {l. spin_cpu (locks s l) = Some c} + (if pcs s c = Run then 0 else 1)"

definition smp_inv :: "smp \<Rightarrow> bool" where
  "smp_inv s \<longleftrightarrow>
     (\<forall>l c d. in_cs s c l \<longrightarrow> in_cs s d l \<longrightarrow> c = d) \<and>
     (\<forall>l c. in_cs s c l \<longrightarrow> spin_locked (locks s l) \<noteq> 0) \<and>
     (\<forall>l c. pcs s c = Got l \<or> pcs s c = Rel l \<longrightarrow> spin_cpu (locks s l) = None) \<and>
     (\<forall>c. finite {l. spin_cpu (locks s l) = Some c}) \<and>
     (\<forall>c. cpu_ok (cpus s c) \<and> ncli (cpus s c) = int (depth s c))"

text \<open>A lock held through its \<open>cpu\<close> field counts towards the depth of its owner only.\<close>

lemma owned_upd:
  "{l. spin_cpu (((locks s)(k := lk)) l) = Some d} =
     {l. spin_cpu (locks s l) = Some d} - {k} \<union> (if spin_cpu lk = Some d then {k} else {})"
  by auto

lemma depth_take:
  assumes "finite {l. spin_cpu (locks s l) = Some c}" "spin_cpu (locks s k) = None"
    "spin_cpu lk = Some c" "pcs s c \<noteq> Run"
  shows "depth (s\<lparr>locks := (locks s)(k := lk), pcs := (pcs s)(c := Run)\<rparr>) d = depth s d"
proof (cases "d = c")
  case True
  have "{l. spin_cpu (((locks s)(k := lk)) l) = Some c} = insert k {l. spin_cpu (locks s l) = Some c}"
    using assms by auto
  then show ?thesis using assms True by (simp add: depth_def)
next
  case False
  have "{l. spin_cpu (((locks s)(k := lk)) l) = Some d} = {l. spin_cpu (locks s l) = Some d}"
    using assms False by auto
  then show ?thesis using False by (simp add: depth_def)
qed

lemma depth_drop:
  assumes "finite {l. spin_cpu (locks s l) = Some c}" "spin_cpu (locks s k) = Some c"
    "spin_cpu lk = None" "pcs s c = Run" "p \<noteq> Run"
  shows "depth (s\<lparr>cpus := f, locks := (locks s)(k := lk), pcs := (pcs s)(c := p)\<rparr>) d = depth s d"
proof (cases "d = c")
  case True
  have "{l. spin_cpu (locks s l) = Some c} = insert k {l. spin_cpu (((locks s)(k := lk)) l) = Some c}"
    using assms by auto
  moreover have "finite {l. spin_cpu (((locks s)(k := lk)) l) = Some c}"
    using assms(1) by (simp only: owned_upd) simp
  ultimately show ?thesis using assms True by (simp add: depth_def)
next
  case False
  have "{l. spin_cpu (((locks s)(k := lk)) l) = Some d} = {l. spin_cpu (locks s l) = Some d}"
    using assms False by auto
  then show ?thesis using False by (simp add: depth_def)
qed

text \<open>Rewriting the \<open>locked\<close> word of a lock changes no owner.\<close>

lemma owned_same:
  "spin_cpu (if k = l then (locks s l)\<lparr>spin_locked := x\<rparr> else locks s k) = spin_cpu (locks s k)"
  by simp

lemma smp_inv_step:
  assumes "smp_step s t" "smp_inv s"
  shows "smp_inv t"
  using assms
proof (induction rule: smp_step.induct)
  case (int_on s c)
  then show ?case
    by (auto simp: smp_inv_def in_cs_def depth_def cpu_ok_def)
next
  case (push s c l u)
  have "cpu_ok (pushcli (cpus s c))"
    using push by (auto simp: smp_inv_def cpu_ok_def)
  from holding_Inr [OF push(2) this] push
  show ?case
    by (auto simp: smp_inv_def in_cs_def depth_def)
next
  case (acq_spin s c l old new)
  then show ?case
    by (simp add: smp_inv_def in_cs_def depth_def xchg_def owned_same)
next
  case (acq_got s c l new)
  then have "spin_locked (locks s l) = 0" "new = 1" by (simp_all add: xchg_def)
  with acq_got have free: "\<not> in_cs s d l" for d by (auto simp: smp_inv_def)
  then have "spin_cpu (locks s l) = None" by (cases "spin_cpu (locks s l)") (auto simp: in_cs_def)
  with acq_got free \<open>new = 1\<close> show ?case
    by (auto simp: smp_inv_def in_cs_def depth_def owned_same)
next
  case (acq_done s c l stk)
  have N: "spin_cpu (locks s l) = None" and fin: "\<And>d. finite {l. spin_cpu (locks s l) = Some d}"
    using acq_done by (auto simp: smp_inv_def)
  let ?lk = "(locks s l)\<lparr>spin_cpu := Some c, spin_pcs := stk\<rparr>"
  have D: "depth (s\<lparr>locks := (locks s)(l := ?lk), pcs := (pcs s)(c := Run)\<rparr>) d = depth s d" for d
    using acq_done by (intro depth_take fin N) simp_all
  have F: "finite {k. spin_cpu (((locks s)(l := ?lk)) k) = Some d}" for d
    by (simp only: owned_upd) (simp add: fin)
  from acq_done(2) D F show ?case
    unfolding smp_inv_def
    using acq_done(1) N by (auto simp: in_cs_def split: if_splits)
next
  case (rel_clear s c l u)
  have ok: "cpu_ok (cpus s c)" using rel_clear by (simp add: smp_inv_def)
  note h = holding_Inr [OF rel_clear(2) ok]
  have fin: "\<And>d. finite {l. spin_cpu (locks s l) = Some d}"
    using rel_clear by (auto simp: smp_inv_def)
  let ?lk = "(locks s l)\<lparr>spin_pcs := (spin_pcs (locks s l))[0 := 0], spin_cpu := None\<rparr>"
  have D: "depth (s\<lparr>cpus := (cpus s)(c := u), locks := (locks s)(l := ?lk),
      pcs := (pcs s)(c := Rel l)\<rparr>) d = depth s d" for d
    using rel_clear(1) h by (intro depth_drop fin) simp_all
  have F: "finite {k. spin_cpu (((locks s)(l := ?lk)) k) = Some d}" for d
    by (simp only: owned_upd) (simp add: fin)
  from rel_clear(3) D F h show ?case
    unfolding smp_inv_def
    using rel_clear(1) by (auto simp: in_cs_def split: if_splits)
next
  case (rel_store s c l u)
  have ok: "cpu_ok (cpus s c)" using rel_store by (simp add: smp_inv_def)
  have "in_cs s d l \<Longrightarrow> d = c" for d
    using rel_store(1,3) unfolding smp_inv_def in_cs_def by blast
  with popcli_Inr [OF rel_store(2) ok] rel_store(1,3) show ?case
    by (auto simp: smp_inv_def in_cs_def depth_def owned_same split: if_splits)
qed

lemma smp_inv_reachable: "smp_reachable s \<Longrightarrow> smp_inv s"
proof (induction rule: smp_reachable.induct)
  case start
  show ?case by (auto simp: smp_inv_def smp_init_def in_cs_def depth_def cpu_ok_def)
qed (rule smp_inv_step)

lemma smp_reachable_steps: "smp_step\<^sup>*\<^sup>* s t \<Longrightarrow> smp_reachable s \<Longrightarrow> smp_reachable t"
  by (induction rule: rtranclp_induct) (auto intro: smp_reachable.step)

lemma smp_depth:
  assumes "smp_reachable s" "in_cs s c l"
  shows "0 < depth s c"
proof -
  have "finite {k. spin_cpu (locks s k) = Some c}"
    using smp_inv_reachable [OF assms(1)] by (simp add: smp_inv_def)
  moreover have "{k. spin_cpu (locks s k) = Some c} \<noteq> {} \<or> pcs s c \<noteq> Run"
    using assms(2) by (auto simp: in_cs_def)
  ultimately show ?thesis by (auto simp: depth_def card_gt_0_iff)
qed

text \<open>What the sequential routines do when they return is a run of steps.\<close>

definition smp_put :: "smp \<Rightarrow> nat \<Rightarrow> nat \<Rightarrow> cpu \<times> spinlock \<Rightarrow> smp" where
  "smp_put s c l r = s\<lparr>cpus := (cpus s)(c := fst r), locks := (locks s)(l := snd r)\<rparr>"

lemma acquire_run:
  assumes "pcs s c = Run" "acquire c stk (cpus s c) (locks s l) = Inr r"
  shows "smp_step\<^sup>*\<^sup>* s (smp_put s c l r)"
proof -
  obtain u where h: "holding c (pushcli (cpus s c)) (locks s l) = Inr (False, u)"
    and free: "spin_locked (locks s l) = 0"
    and r: "r = (u, (locks s l)\<lparr>spin_locked := 1, spin_cpu := Some c, spin_pcs := stk\<rparr>)"
    using assms(2) by (auto simp: acquire_def xchg_def bindE_eq_Inr split: if_splits)
  let ?s1 = "s\<lparr>cpus := (cpus s)(c := u), pcs := (pcs s)(c := Spin l)\<rparr>"
  let ?s2 = "?s1\<lparr>locks := (locks s)(l := (locks s l)\<lparr>spin_locked := 1\<rparr>),
    pcs := (pcs ?s1)(c := Got l)\<rparr>"
  let ?s3 = "?s2\<lparr>locks := (locks ?s2)(l := (locks ?s2 l)\<lparr>spin_cpu := Some c, spin_pcs := stk\<rparr>),
    pcs := (pcs ?s2)(c := Run)\<rparr>"
  have "smp_step s ?s1" using assms(1) h by (rule smp_step.push)
  moreover have "smp_step ?s1 ?s2"
    using smp_step.acq_got [of ?s1 c l 1] free by (simp add: xchg_def)
  moreover have "smp_step ?s2 ?s3" by (rule smp_step.acq_done) simp
  moreover have "?s3 = smp_put s c l r"
    using assms(1) r by (simp add: smp_put_def fun_upd_idem)
  ultimately show ?thesis by (metis (no_types, lifting) converse_rtranclp_into_rtranclp rtranclp.rtrancl_refl)
qed

lemma release_run:
  assumes "pcs s c = Run" "release c (cpus s c) (locks s l) = Inr r"
  shows "smp_step\<^sup>*\<^sup>* s (smp_put s c l r)"
proof -
  let ?lk = "(locks s l)\<lparr>spin_pcs := (spin_pcs (locks s l))[0 := 0], spin_cpu := None\<rparr>"
  obtain u u' where h: "holding c (cpus s c) (locks s l) = Inr (True, u)"
    and p: "popcli u = Inr u'" and r: "r = (u', ?lk\<lparr>spin_locked := 0\<rparr>)"
    using assms(2) by (auto simp: release_def bindE_eq_Inr Let_def split: if_splits)
  let ?s1 = "s\<lparr>cpus := (cpus s)(c := u), locks := (locks s)(l := ?lk), pcs := (pcs s)(c := Rel l)\<rparr>"
  let ?s2 = "?s1\<lparr>cpus := (cpus ?s1)(c := u'),
    locks := (locks ?s1)(l := (locks ?s1 l)\<lparr>spin_locked := 0\<rparr>), pcs := (pcs ?s1)(c := Run)\<rparr>"
  have "smp_step s ?s1" using assms(1) h by (rule smp_step.rel_clear)
  moreover have "smp_step ?s1 ?s2" by (rule smp_step.rel_store) (simp_all add: p)
  moreover have "?s2 = smp_put s c l r"
    using assms(1) r by (simp add: smp_put_def fun_upd_idem)
  ultimately show ?thesis by (metis (no_types, lifting) converse_rtranclp_into_rtranclp rtranclp.rtrancl_refl)
qed

text \<open>C15: mutual exclusion: in every state the CPUs can reach, at most one CPU is inside the
  critical section of a spin lock, from its successful \<open>xchg\<close> to the store in \<open>release\<close>
  that frees the lock.\<close>

theorem spinlock_mutual_exclusion:
  assumes "smp_reachable s" "in_cs s c l" "in_cs s d l"
  shows "c = d"
  using smp_inv_reachable [OF assms(1)] assms(2,3) by (auto simp: smp_inv_def)

definition smp_held :: smp where
  "smp_held = smp_put smp_init 1 0
     (\<lparr>eflags_if = False, ncli = 1, intena = False\<rparr>,
      \<lparr>spin_locked = 1, spin_cpu = Some 1, spin_pcs = []\<rparr>)"

lemma smp_held_reachable: "smp_reachable smp_held"
proof -
  have "smp_step\<^sup>*\<^sup>* smp_init smp_held"
    unfolding smp_held_def
    by (rule acquire_run [where stk = "[]"])
      (simp_all add: smp_init_def acquire_def holding_def pushcli_def popcli_def xchg_def)
  then show ?thesis by (rule smp_reachable_steps) (rule smp_reachable.start)
qed

lemma smp_held_cs: "in_cs smp_held c 0 \<longleftrightarrow> c = 1"
  by (auto simp: smp_held_def smp_put_def in_cs_def smp_init_def)

theorem spinlock_mutual_exclusion_witness:
  "smp_reachable smp_held \<and> (\<exists>!c. in_cs smp_held c 0)"
  using spinlock_mutual_exclusion [of smp_held 1 0] smp_held_reachable smp_held_cs by blast

text \<open>C23: a CPU inside a critical section runs with interrupts off: its \<open>ncli\<close> counts
  the locks it owns, plus one while it is inside \<open>acquire\<close> or \<open>release\<close>, so an
  interrupt handler never finds its own CPU holding a spin lock; and the owner can always
  release the lock without a panic.\<close>

theorem spinlock_interrupts_off:
  assumes "smp_reachable s" "in_cs s c l"
  shows "\<not> eflags_if (cpus s c) \<and> ncli (cpus s c) = int (depth s c) \<and> 0 < depth s c \<and>
    (pcs s c = Run \<longrightarrow> (\<exists>r. release c (cpus s c) (locks s l) = Inr r))"
proof -
  have inv: "cpu_ok (cpus s c)" "ncli (cpus s c) = int (depth s c)" "spin_locked (locks s l) \<noteq> 0"
    using smp_inv_reachable [OF assms(1)] assms(2) unfolding smp_inv_def by blast+
  moreover have pos: "0 < depth s c" using assms by (rule smp_depth)
  moreover have "\<exists>r. release c (cpus s c) (locks s l) = Inr r" if "pcs s c = Run"
  proof -
    have own: "spin_cpu (locks s l) = Some c" using assms(2) that by (simp add: in_cs_def)
    obtain u where h: "holding c (cpus s c) (locks s l) = Inr (True, u)" "cpu_ok u"
        "ncli u = ncli (cpus s c)"
      using holding_ok [OF inv(1), of c "locks s l"] own inv(3) by auto
    from popcli_ok [of u] h inv(2) pos obtain u' where "popcli u = Inr u'" by auto
    with h show ?thesis by (simp add: release_def)
  qed
  ultimately show ?thesis by (auto simp: cpu_ok_def)
qed

theorem spinlock_interrupts_off_witness:
  "\<not> eflags_if (cpus smp_held 1) \<and> (\<exists>r. release 1 (cpus smp_held 1) (locks smp_held 0) = Inr r)"
  using spinlock_interrupts_off [of smp_held 1 0] smp_held_reachable smp_held_cs
  by (simp add: smp_held_def smp_put_def smp_init_def)

end
