(* ===== verification/Xv6_Ptable.thy ===== *)
theory Xv6_Ptable
  imports Xv6_Spinlock
begin

text \<open>
  The process table and the scheduler (the parts of Xv6-Syscall/src/proc.c that run with
  \<open>ptable.lock\<close> held, and \<open>struct proc\<close> of proc.h).  A process pointer is the index of
  its slot; a sleep channel, which the code gives as the address of some kernel object, is
  a value of the type \<open>chan\<close> that names the object.

  The first part has the operations, one definition per critical section of the code.
  The second part runs them on any number of CPUs: a step relation whose program counters
  say who holds \<open>ptable.lock\<close>, with the scheduler's scan position kept per CPU.  Its
  invariant gives that a process never runs on two CPUs, that pids are unique, and that
  a parent in \<open>wait\<close> never sleeps over a child that is already a zombie.
\<close>

section \<open>Data\<close>

definition NPROC :: nat where "NPROC = 64"
definition NOFILE :: nat where "NOFILE = 16"

datatype procstate = UNUSED | EMBRYO | SLEEPING | RUNNABLE | RUNNING | ZOMBIE

datatype chan = CProc nat | CSleeplock nat | CBuf nat | CLog | CTicks | CInput
  | CPipeRead uint | CPipeWrite uint

record proc =
  sz :: uint
  pgdir :: uint
  kstack :: uint
  state :: procstate
  pid :: int
  parent :: "nat option"
  tf :: uint
  pcontext :: uint
  chan :: "chan option"
  killed :: bool
  ofile :: "nat option list"
  cwd :: "nat option"
  name :: "uchar list"

record ptable =
  procs :: "proc list"
  nextpid :: int
  initproc :: "nat option"

text \<open>The table as the loader leaves it: zero-filled, except \<open>nextpid = 1\<close>.\<close>

definition proc0 :: proc where
  "proc0 = \<lparr>sz = 0, pgdir = 0, kstack = 0, state = UNUSED, pid = 0, parent = None, tf = 0,
     pcontext = 0, chan = None, killed = False, ofile = replicate NOFILE None, cwd = None,
     name = replicate 16 0\<rparr>"

definition ptable0 :: ptable where
  "ptable0 = \<lparr>procs = replicate NPROC proc0, nextpid = 1, initproc = None\<rparr>"

abbreviation proc_at :: "ptable \<Rightarrow> nat \<Rightarrow> proc" where
  "proc_at t i \<equiv> procs t ! i"

definition upd_proc :: "nat \<Rightarrow> (proc \<Rightarrow> proc) \<Rightarrow> ptable \<Rightarrow> ptable" where
  "upd_proc i f t = t\<lparr>procs := (procs t)[i := f (procs t ! i)]\<rparr>"

section \<open>Operations under the table lock\<close>

text \<open>\<open>allocproc\<close>, the part under the lock: the first unused slot becomes an embryo with a
  new pid.\<close>

definition alloc_slot :: "ptable \<Rightarrow> (nat option \<times> ptable) res" where
  "alloc_slot t =
     (case find_index (\<lambda>p. state p = UNUSED) (procs t) of
        None \<Rightarrow> Inr (None, t)
      | Some i \<Rightarrow>
          if nextpid t = 2 ^ 31 - 1 then Inl (Undef ''nextpid++'')
          else Inr (Some i, (upd_proc i (\<lambda>p. p\<lparr>state := EMBRYO, pid := nextpid t\<rparr>) t)
                 \<lparr>nextpid := nextpid t + 1\<rparr>))"

definition wakeup1 :: "chan option \<Rightarrow> ptable \<Rightarrow> ptable" where
  "wakeup1 ch t = t\<lparr>procs := map (\<lambda>p. if state p = SLEEPING \<and> chan p = ch
     then p\<lparr>state := RUNNABLE\<rparr> else p) (procs t)\<rparr>"

definition wakeup :: "chan \<Rightarrow> ptable \<Rightarrow> ptable" where
  "wakeup ch t = wakeup1 (Some ch) t"

definition kill :: "int \<Rightarrow> ptable \<Rightarrow> int \<times> ptable" where
  "kill i t =
     (case find_index (\<lambda>p. pid p = i) (procs t) of
        None \<Rightarrow> (-1, t)
      | Some k \<Rightarrow> (0, upd_proc k (\<lambda>p. let p = p\<lparr>killed := True\<rparr> in
                     if state p = SLEEPING then p\<lparr>state := RUNNABLE\<rparr> else p) t))"

text \<open>\<open>sleep\<close> up to its call of \<open>sched\<close>, and after it.\<close>

definition sleep_enter :: "nat \<Rightarrow> chan \<Rightarrow> ptable \<Rightarrow> ptable" where
  "sleep_enter cur ch t = upd_proc cur (\<lambda>p. p\<lparr>chan := Some ch, state := SLEEPING\<rparr>) t"

definition sleep_leave :: "nat \<Rightarrow> ptable \<Rightarrow> ptable" where
  "sleep_leave cur t = upd_proc cur (\<lambda>p. p\<lparr>chan := None\<rparr>) t"

definition yield_enter :: "nat \<Rightarrow> ptable \<Rightarrow> ptable" where
  "yield_enter cur t = upd_proc cur (\<lambda>p. p\<lparr>state := RUNNABLE\<rparr>) t"

text \<open>The body of the loop of \<open>exit\<close> that passes abandoned children to init.\<close>

definition reparent1 :: "nat \<Rightarrow> nat \<Rightarrow> ptable \<Rightarrow> ptable" where
  "reparent1 cur i t =
     (if parent (proc_at t i) = Some cur then
        let t = upd_proc i (\<lambda>p. p\<lparr>parent := initproc t\<rparr>) t in
        if state (proc_at t i) = ZOMBIE then wakeup1 (map_option CProc (initproc t)) t else t
      else t)"

definition exit_table :: "nat \<Rightarrow> ptable \<Rightarrow> ptable" where
  "exit_table cur t =
     (let t = wakeup1 (map_option CProc (parent (proc_at t cur))) t;
          t = fold (reparent1 cur) [0..<NPROC] t
      in upd_proc cur (\<lambda>p. p\<lparr>state := ZOMBIE\<rparr>) t)"

text \<open>One scan of \<open>wait\<close>: \<open>Inl i\<close> for the first zombie child, otherwise whether the
  process has children at all.\<close>

fun wait_scan :: "nat \<Rightarrow> nat \<Rightarrow> bool \<Rightarrow> proc list \<Rightarrow> nat + bool" where
  "wait_scan cur i havekids [] = Inr havekids"
| "wait_scan cur i havekids (p # ps) =
     (if parent p \<noteq> Some cur then wait_scan cur (Suc i) havekids ps
      else if state p = ZOMBIE then Inl i
      else wait_scan cur (Suc i) True ps)"

definition reap :: "nat \<Rightarrow> ptable \<Rightarrow> ptable" where
  "reap i t = upd_proc i (\<lambda>p. p\<lparr>kstack := 0, pid := 0, parent := None,
     name := (name p)[0 := 0], killed := False, state := UNUSED\<rparr>) t"

text \<open>One turn of the scheduler's loop body on slot \<open>i\<close>: switch to it when it can run.\<close>

definition scheduler_pick :: "nat \<Rightarrow> ptable \<Rightarrow> (nat \<times> ptable) option" where
  "scheduler_pick i t =
     (if state (proc_at t i) \<noteq> RUNNABLE then None
      else Some (i, upd_proc i (\<lambda>p. p\<lparr>state := RUNNING\<rparr>) t))"

section \<open>Effect of the operations on each slot\<close>

named_theorems ptab_simps \<open>what an operation leaves in a slot of the table\<close>

lemma length_upd_proc [simp]: "length (procs (upd_proc i f t)) = length (procs t)"
  and nextpid_upd_proc [simp]: "nextpid (upd_proc i f t) = nextpid t"
  and initproc_upd_proc [simp]: "initproc (upd_proc i f t) = initproc t"
  by (simp_all add: upd_proc_def)

lemma proc_at_upd [ptab_simps]:
  "k < length (procs t) \<Longrightarrow> proc_at (upd_proc i f t) k = (if k = i then f (proc_at t k) else proc_at t k)"
  by (auto simp: upd_proc_def)

lemma length_wakeup1 [simp]: "length (procs (wakeup1 ch t)) = length (procs t)"
  and nextpid_wakeup1 [simp]: "nextpid (wakeup1 ch t) = nextpid t"
  and initproc_wakeup1 [simp]: "initproc (wakeup1 ch t) = initproc t"
  by (simp_all add: wakeup1_def)

lemma proc_at_wakeup1 [ptab_simps]:
  "k < length (procs t) \<Longrightarrow> proc_at (wakeup1 ch t) k =
     (if state (proc_at t k) = SLEEPING \<and> chan (proc_at t k) = ch
      then (proc_at t k)\<lparr>state := RUNNABLE\<rparr> else proc_at t k)"
  by (simp add: wakeup1_def)

lemma reparent1_frame [simp]:
  "length (procs (reparent1 cur i t)) = length (procs t)"
  "nextpid (reparent1 cur i t) = nextpid t"
  "initproc (reparent1 cur i t) = initproc t"
  by (simp_all add: reparent1_def Let_def)

lemma reparent_fold_frame [simp]:
  "length (procs (fold (reparent1 cur) is t)) = length (procs t)"
  "nextpid (fold (reparent1 cur) is t) = nextpid t"
  "initproc (fold (reparent1 cur) is t) = initproc t"
  by (induction "is" arbitrary: t) simp_all

text \<open>The abandoned zombies among the first \<open>n\<close> slots.\<close>

definition zombie_child :: "nat \<Rightarrow> nat \<Rightarrow> ptable \<Rightarrow> bool" where
  "zombie_child cur n t \<longleftrightarrow>
     (\<exists>j < n. parent (proc_at t j) = Some cur \<and> state (proc_at t j) = ZOMBIE)"

lemma zombie_child_Suc:
  "zombie_child cur (Suc n) t \<longleftrightarrow>
     zombie_child cur n t \<or> parent (proc_at t n) = Some cur \<and> state (proc_at t n) = ZOMBIE"
  by (auto simp: zombie_child_def less_Suc_eq)

lemma proc_at_reparent:
  assumes "n \<le> length (procs t)" "k < length (procs t)"
  shows "proc_at (fold (reparent1 cur) [0..<n] t) k = (proc_at t k)\<lparr>
     parent := (if k < n \<and> parent (proc_at t k) = Some cur then initproc t else parent (proc_at t k)),
     state := (if state (proc_at t k) = SLEEPING \<and> chan (proc_at t k) = map_option CProc (initproc t) \<and>
       zombie_child cur n t then RUNNABLE else state (proc_at t k))\<rparr>"
  using assms
proof (induction n arbitrary: k)
  case 0
  then show ?case by (simp add: zombie_child_def)
next
  case (Suc n)
  let ?t = "fold (reparent1 cur) [0..<n] t"
  have n: "proc_at ?t n = (proc_at t n)\<lparr>
     state := (if state (proc_at t n) = SLEEPING \<and> chan (proc_at t n) = map_option CProc (initproc t) \<and>
       zombie_child cur n t then RUNNABLE else state (proc_at t n))\<rparr>"
    using Suc by simp
  have k: "proc_at ?t k = (proc_at t k)\<lparr>
     parent := (if k < n \<and> parent (proc_at t k) = Some cur then initproc t else parent (proc_at t k)),
     state := (if state (proc_at t k) = SLEEPING \<and> chan (proc_at t k) = map_option CProc (initproc t) \<and>
       zombie_child cur n t then RUNNABLE else state (proc_at t k))\<rparr>"
    using Suc by simp
  have "proc_at (reparent1 cur n ?t) k = (proc_at t k)\<lparr>
     parent := (if k < Suc n \<and> parent (proc_at t k) = Some cur then initproc t else parent (proc_at t k)),
     state := (if state (proc_at t k) = SLEEPING \<and> chan (proc_at t k) = map_option CProc (initproc t) \<and>
       zombie_child cur (Suc n) t then RUNNABLE else state (proc_at t k))\<rparr>"
    using Suc.prems n k
    by (cases "k = n"; cases "parent (proc_at t n) = Some cur"; cases "state (proc_at t n) = ZOMBIE")
      (simp_all add: reparent1_def Let_def ptab_simps zombie_child_Suc less_Suc_eq)
  then show ?case by simp
qed

lemma exit_table_frame [simp]:
  "length (procs (exit_table cur t)) = length (procs t)"
  "nextpid (exit_table cur t) = nextpid t"
  "initproc (exit_table cur t) = initproc t"
  by (simp_all add: exit_table_def Let_def)

lemma zombie_child_wakeup1 [simp]:
  "n \<le> length (procs t) \<Longrightarrow> zombie_child cur n (wakeup1 ch t) = zombie_child cur n t"
  by (auto simp: zombie_child_def ptab_simps split: if_splits)

lemma proc_at_exit_table:
  assumes "length (procs t) = NPROC" "k < NPROC"
  shows "proc_at (exit_table cur t) k = (proc_at t k)\<lparr>
     parent := (if parent (proc_at t k) = Some cur then initproc t else parent (proc_at t k)),
     state := (if k = cur then ZOMBIE
       else if state (proc_at t k) = SLEEPING \<and>
         (chan (proc_at t k) = map_option CProc (parent (proc_at t cur)) \<or>
          chan (proc_at t k) = map_option CProc (initproc t) \<and> zombie_child cur NPROC t)
       then RUNNABLE else state (proc_at t k))\<rparr>"
  using assms by (simp add: exit_table_def Let_def ptab_simps proc_at_reparent)

lemma wait_scan_Inl:
  "wait_scan cur i hk ps = Inl z \<Longrightarrow>
     i \<le> z \<and> z < i + length ps \<and> parent (ps ! (z - i)) = Some cur \<and> state (ps ! (z - i)) = ZOMBIE \<and>
     (\<forall>j < z - i. \<not> (parent (ps ! j) = Some cur \<and> state (ps ! j) = ZOMBIE))"
proof (induction cur i hk ps rule: wait_scan.induct)
  case (2 cur i hk p ps)
  show ?case
  proof (cases "parent p = Some cur \<and> state p = ZOMBIE")
    case True
    with 2(3) show ?thesis by simp
  next
    case False
    with 2 have IH: "Suc i \<le> z \<and> z < Suc i + length ps \<and> parent (ps ! (z - Suc i)) = Some cur \<and>
        state (ps ! (z - Suc i)) = ZOMBIE \<and>
        (\<forall>j < z - Suc i. \<not> (parent (ps ! j) = Some cur \<and> state (ps ! j) = ZOMBIE))"
      by (auto split: if_splits)
    then have "z - i = Suc (z - Suc i)" by (metis Suc_diff_Suc Suc_le_eq)
    with IH False show ?thesis by (auto simp: less_Suc_eq_0_disj)
  qed
qed simp

lemma wait_scan_Inr:
  "wait_scan cur i hk ps = Inr b \<Longrightarrow>
     (b \<longleftrightarrow> hk \<or> (\<exists>p \<in> set ps. parent p = Some cur)) \<and>
     (\<forall>p \<in> set ps. parent p = Some cur \<longrightarrow> state p \<noteq> ZOMBIE)"
  by (induction cur i hk ps rule: wait_scan.induct) (auto split: if_splits)

section \<open>The scheduler on many CPUs\<close>

text \<open>Where a CPU is: between two rounds of \<open>scheduler\<close>, at slot \<open>i\<close> of a round with
  \<open>ptable.lock\<close> held, just switched to a process that still has to release the lock, or
  running a process that does not hold it.\<close>

datatype spc = Idle | Scan nat | Switched | InProc

record mach =
  tab :: ptable
  ptlock :: "nat option"
  cproc :: "nat \<Rightarrow> nat option"
  cpc :: "nat \<Rightarrow> spc"

text \<open>The state that \<open>userinit\<close> leaves before the CPUs enter the scheduler.\<close>

definition userinit_table :: "ptable res" where
  "userinit_table = bindE (alloc_slot ptable0) (\<lambda>(i, t).
     case i of None \<Rightarrow> Inl (Undef ''userinit'')
     | Some i \<Rightarrow> Inr (upd_proc i (\<lambda>p. p\<lparr>state := RUNNABLE\<rparr>) (t\<lparr>initproc := Some i\<rparr>)))"

text \<open>A process gives up CPU \<open>c\<close>: \<open>sched\<close> switches to the scheduler, which holds the lock,
  clears \<open>c->proc\<close> and goes on with the next slot.\<close>

definition to_sched :: "nat \<Rightarrow> nat \<Rightarrow> ptable \<Rightarrow> mach \<Rightarrow> mach" where
  "to_sched c p t m = m\<lparr>tab := t, ptlock := Some c, cproc := (cproc m)(c := None),
     cpc := (cpc m)(c := Scan (Suc p))\<rparr>"

definition running :: "mach \<Rightarrow> nat \<Rightarrow> nat \<Rightarrow> bool" where
  "running m c p \<longleftrightarrow> cpc m c = InProc \<and> cproc m c = Some p"

inductive mstep :: "mach \<Rightarrow> mach \<Rightarrow> bool" where
  round: "cpc m c = Idle \<Longrightarrow> ptlock m = None \<Longrightarrow>
     mstep m (m\<lparr>ptlock := Some c, cpc := (cpc m)(c := Scan 0)\<rparr>)"
| skip: "cpc m c = Scan i \<Longrightarrow> i < NPROC \<Longrightarrow> scheduler_pick i (tab m) = None \<Longrightarrow>
     mstep m (m\<lparr>cpc := (cpc m)(c := Scan (Suc i))\<rparr>)"
| pick: "cpc m c = Scan i \<Longrightarrow> i < NPROC \<Longrightarrow> scheduler_pick i (tab m) = Some (p, t) \<Longrightarrow>
     mstep m (m\<lparr>tab := t, cproc := (cproc m)(c := Some p), cpc := (cpc m)(c := Switched)\<rparr>)"
| round_end: "cpc m c = Scan i \<Longrightarrow> NPROC \<le> i \<Longrightarrow>
     mstep m (m\<lparr>ptlock := None, cpc := (cpc m)(c := Idle)\<rparr>)"
| resume: "cpc m c = Switched \<Longrightarrow>
     mstep m (m\<lparr>ptlock := None, cpc := (cpc m)(c := InProc)\<rparr>)"
| resume_sleep: "cpc m c = Switched \<Longrightarrow> cproc m c = Some p \<Longrightarrow>
     mstep m (m\<lparr>tab := sleep_leave p (tab m), ptlock := None, cpc := (cpc m)(c := InProc)\<rparr>)"
| yield: "running m c p \<Longrightarrow> ptlock m = None \<Longrightarrow>
     mstep m (to_sched c p (yield_enter p (tab m)) m)"
| sleep: "running m c p \<Longrightarrow> ptlock m = None \<Longrightarrow> (\<forall>q. ch \<noteq> CProc q) \<Longrightarrow>
     mstep m (to_sched c p (sleep_enter p ch (tab m)) m)"
| wakeup: "ptlock m = None \<Longrightarrow> mstep m (m\<lparr>tab := wakeup ch (tab m)\<rparr>)"
| kill: "running m c p \<Longrightarrow> ptlock m = None \<Longrightarrow> mstep m (m\<lparr>tab := snd (kill n (tab m))\<rparr>)"
| alloc: "running m c p \<Longrightarrow> ptlock m = None \<Longrightarrow> alloc_slot (tab m) = Inr (Some i, t) \<Longrightarrow>
     mstep m (m\<lparr>tab := t\<rparr>)"
| alloc_fail: "running m c p \<Longrightarrow> i < NPROC \<Longrightarrow> state (proc_at (tab m) i) = EMBRYO \<Longrightarrow>
     parent (proc_at (tab m) i) = None \<Longrightarrow>
     mstep m (m\<lparr>tab := upd_proc i (\<lambda>q. q\<lparr>state := UNUSED\<rparr>) (tab m)\<rparr>)"
| fork_parent: "running m c p \<Longrightarrow> i < NPROC \<Longrightarrow> state (proc_at (tab m) i) = EMBRYO \<Longrightarrow>
     parent (proc_at (tab m) i) = None \<Longrightarrow>
     mstep m (m\<lparr>tab := upd_proc i (\<lambda>q. q\<lparr>parent := Some p\<rparr>) (tab m)\<rparr>)"
| fork: "running m c p \<Longrightarrow> ptlock m = None \<Longrightarrow> i < NPROC \<Longrightarrow> state (proc_at (tab m) i) = EMBRYO \<Longrightarrow>
     parent (proc_at (tab m) i) = Some p \<Longrightarrow>
     mstep m (m\<lparr>tab := upd_proc i (\<lambda>q. q\<lparr>state := RUNNABLE\<rparr>) (tab m)\<rparr>)"
| exit: "running m c p \<Longrightarrow> ptlock m = None \<Longrightarrow> initproc (tab m) \<noteq> Some p \<Longrightarrow>
     mstep m (to_sched c p (exit_table p (tab m)) m)"
| wait_reap: "running m c p \<Longrightarrow> ptlock m = None \<Longrightarrow>
     wait_scan p 0 False (procs (tab m)) = Inl z \<Longrightarrow> mstep m (m\<lparr>tab := reap z (tab m)\<rparr>)"
| wait_sleep: "running m c p \<Longrightarrow> ptlock m = None \<Longrightarrow>
     wait_scan p 0 False (procs (tab m)) = Inr True \<Longrightarrow> \<not> killed (proc_at (tab m) p) \<Longrightarrow>
     mstep m (to_sched c p (sleep_enter p (CProc p) (tab m)) m)"

inductive mreachable :: "mach \<Rightarrow> bool" where
  boot: "userinit_table = Inr t \<Longrightarrow>
     mreachable \<lparr>tab = t, ptlock = None, cproc = (\<lambda>_. None), cpc = (\<lambda>_. Idle)\<rparr>"
| step: "mreachable m \<Longrightarrow> mstep m m' \<Longrightarrow> mreachable m'"

section \<open>The invariant\<close>

text \<open>The table alone: pids, parents and sleepers in \<open>wait\<close>.\<close>

definition live :: "proc \<Rightarrow> bool" where
  "live p \<longleftrightarrow> state p \<in> {SLEEPING, RUNNABLE, RUNNING}"

definition used :: "proc \<Rightarrow> bool" where
  "used p \<longleftrightarrow> state p \<noteq> UNUSED"

definition pids_ok :: "ptable \<Rightarrow> bool" where
  "pids_ok t \<longleftrightarrow> 0 < nextpid t \<and>
     (\<forall>i < NPROC. 0 \<le> pid (proc_at t i) \<and> pid (proc_at t i) < nextpid t) \<and>
     (\<forall>i < NPROC. used (proc_at t i) \<longrightarrow> 0 < pid (proc_at t i)) \<and>
     (\<forall>i < NPROC. \<forall>j < NPROC. 0 < pid (proc_at t i) \<longrightarrow> pid (proc_at t i) = pid (proc_at t j) \<longrightarrow> i = j)"

text \<open>Every process but init has a live parent, so every zombie can be reaped.\<close>

definition tree_ok :: "ptable \<Rightarrow> bool" where
  "tree_ok t \<longleftrightarrow> (\<exists>r < NPROC. initproc t = Some r \<and> live (proc_at t r) \<and>
       parent (proc_at t r) = None) \<and>
     (\<forall>i < NPROC. \<forall>q. parent (proc_at t i) = Some q \<longrightarrow>
        q < NPROC \<and> q \<noteq> i \<and> live (proc_at t q) \<and> used (proc_at t i)) \<and>
     (\<forall>i < NPROC. live (proc_at t i) \<or> state (proc_at t i) = ZOMBIE \<longrightarrow> initproc t \<noteq> Some i \<longrightarrow>
        parent (proc_at t i) \<noteq> None)"

definition waits_ok :: "ptable \<Rightarrow> bool" where
  "waits_ok t \<longleftrightarrow>
     (\<forall>i < NPROC. \<forall>q. state (proc_at t i) = SLEEPING \<longrightarrow> chan (proc_at t i) = Some (CProc q) \<longrightarrow> q = i) \<and>
     (\<forall>i < NPROC. \<forall>z < NPROC. state (proc_at t i) = SLEEPING \<longrightarrow> chan (proc_at t i) = Some (CProc i) \<longrightarrow>
        parent (proc_at t z) = Some i \<longrightarrow> state (proc_at t z) \<noteq> ZOMBIE)"

definition tab_inv :: "ptable \<Rightarrow> bool" where
  "tab_inv t \<longleftrightarrow> length (procs t) = NPROC \<and> pids_ok t \<and> tree_ok t \<and> waits_ok t"

text \<open>The clauses as rules.\<close>

lemma pids_okI:
  assumes "0 < nextpid t"
    "\<And>i. i < NPROC \<Longrightarrow> 0 \<le> pid (proc_at t i) \<and> pid (proc_at t i) < nextpid t"
    "\<And>i. i < NPROC \<Longrightarrow> used (proc_at t i) \<Longrightarrow> 0 < pid (proc_at t i)"
    "\<And>i j. i < NPROC \<Longrightarrow> j < NPROC \<Longrightarrow> 0 < pid (proc_at t i) \<Longrightarrow>
       pid (proc_at t i) = pid (proc_at t j) \<Longrightarrow> i = j"
  shows "pids_ok t"
  using assms unfolding pids_ok_def by blast

lemma pids_okD:
  assumes "pids_ok t"
  shows "0 < nextpid t"
    "i < NPROC \<Longrightarrow> 0 \<le> pid (proc_at t i) \<and> pid (proc_at t i) < nextpid t"
    "i < NPROC \<Longrightarrow> used (proc_at t i) \<Longrightarrow> 0 < pid (proc_at t i)"
    "i < NPROC \<Longrightarrow> j < NPROC \<Longrightarrow> 0 < pid (proc_at t i) \<Longrightarrow>
       pid (proc_at t i) = pid (proc_at t j) \<Longrightarrow> i = j"
  using assms unfolding pids_ok_def by blast+

lemma tree_okI:
  assumes "initproc t = Some r" "r < NPROC" "live (proc_at t r)" "parent (proc_at t r) = None"
    "\<And>i q. i < NPROC \<Longrightarrow> parent (proc_at t i) = Some q \<Longrightarrow>
       q < NPROC \<and> q \<noteq> i \<and> live (proc_at t q) \<and> used (proc_at t i)"
    "\<And>i. i < NPROC \<Longrightarrow> live (proc_at t i) \<or> state (proc_at t i) = ZOMBIE \<Longrightarrow> i \<noteq> r \<Longrightarrow>
       parent (proc_at t i) \<noteq> None"
  shows "tree_ok t"
  using assms unfolding tree_ok_def by blast

lemma tree_ok_init:
  assumes "tree_ok t"
  obtains r where "initproc t = Some r" "r < NPROC" "live (proc_at t r)" "parent (proc_at t r) = None"
  using assms unfolding tree_ok_def by blast

lemma tree_okD:
  assumes "tree_ok t" "i < NPROC"
  shows "parent (proc_at t i) = Some q \<Longrightarrow> q < NPROC"
    "parent (proc_at t i) = Some q \<Longrightarrow> live (proc_at t q)"
    "parent (proc_at t i) = Some q \<Longrightarrow> used (proc_at t i)"
    "live (proc_at t i) \<or> state (proc_at t i) = ZOMBIE \<Longrightarrow> initproc t \<noteq> Some i \<Longrightarrow>
       parent (proc_at t i) \<noteq> None"
    "parent (proc_at t i) \<noteq> Some i"
  using assms unfolding tree_ok_def by blast+

lemma waits_okI:
  assumes "\<And>i q. i < NPROC \<Longrightarrow> state (proc_at t i) = SLEEPING \<Longrightarrow> chan (proc_at t i) = Some (CProc q) \<Longrightarrow> q = i"
    "\<And>i z. i < NPROC \<Longrightarrow> z < NPROC \<Longrightarrow> state (proc_at t i) = SLEEPING \<Longrightarrow>
       chan (proc_at t i) = Some (CProc i) \<Longrightarrow> parent (proc_at t z) = Some i \<Longrightarrow> state (proc_at t z) \<noteq> ZOMBIE"
  shows "waits_ok t"
  using assms unfolding waits_ok_def by blast

lemma waits_okD:
  assumes "waits_ok t" "i < NPROC" "state (proc_at t i) = SLEEPING"
  shows "chan (proc_at t i) = Some (CProc q) \<Longrightarrow> q = i"
    "z < NPROC \<Longrightarrow> chan (proc_at t i) = Some (CProc i) \<Longrightarrow> parent (proc_at t z) = Some i \<Longrightarrow>
       state (proc_at t z) \<noteq> ZOMBIE"
  using assms unfolding waits_ok_def by blast+

lemma tab_invD:
  assumes "tab_inv t"
  shows "length (procs t) = NPROC" "pids_ok t" "tree_ok t" "waits_ok t"
  using assms by (simp_all add: tab_inv_def)

text \<open>A step that keeps pids and parents, moves slots between the live states only, and
  puts nobody to sleep in \<open>wait\<close>.\<close>

definition live_change :: "ptable \<Rightarrow> ptable \<Rightarrow> bool" where
  "live_change t t' \<longleftrightarrow> length (procs t') = length (procs t) \<and> nextpid t' = nextpid t \<and>
     initproc t' = initproc t \<and>
     (\<forall>k < length (procs t). pid (proc_at t' k) = pid (proc_at t k) \<and> parent (proc_at t' k) = parent (proc_at t k) \<and>
        (state (proc_at t' k) = state (proc_at t k) \<or> live (proc_at t' k) \<and> live (proc_at t k)) \<and>
        (\<forall>q. state (proc_at t' k) = SLEEPING \<longrightarrow> chan (proc_at t' k) = Some (CProc q) \<longrightarrow>
           state (proc_at t k) = SLEEPING \<and> chan (proc_at t k) = Some (CProc q)))"

lemma live_change_class:
  assumes "live_change t t'" "k < length (procs t)"
  shows "live (proc_at t' k) = live (proc_at t k)" "used (proc_at t' k) = used (proc_at t k)"
    "state (proc_at t' k) = ZOMBIE \<longleftrightarrow> state (proc_at t k) = ZOMBIE"
    "pid (proc_at t' k) = pid (proc_at t k)" "parent (proc_at t' k) = parent (proc_at t k)"
proof -
  have *: "pid (proc_at t' k) = pid (proc_at t k)" "parent (proc_at t' k) = parent (proc_at t k)"
      "state (proc_at t' k) = state (proc_at t k) \<or> live (proc_at t' k) \<and> live (proc_at t k)"
    using assms unfolding live_change_def by blast+
  show "pid (proc_at t' k) = pid (proc_at t k)" "parent (proc_at t' k) = parent (proc_at t k)"
    by (fact *)+
  show "live (proc_at t' k) = live (proc_at t k)" "used (proc_at t' k) = used (proc_at t k)"
      "state (proc_at t' k) = ZOMBIE \<longleftrightarrow> state (proc_at t k) = ZOMBIE"
    using *(3) by (auto simp: live_def used_def)
qed

lemma live_change_waits:
  assumes "live_change t t'" "waits_ok t" "length (procs t) = NPROC"
  shows "waits_ok t'"
proof -
  have sl: "state (proc_at t i) = SLEEPING \<and> chan (proc_at t i) = Some (CProc q)"
    if "i < NPROC" "state (proc_at t' i) = SLEEPING" "chan (proc_at t' i) = Some (CProc q)" for i q
    using assms(1) that unfolding live_change_def assms(3) by blast
  note cls = live_change_class [OF assms(1), unfolded assms(3)]
  show ?thesis
  proof (rule waits_okI)
    fix i q
    assume "i < NPROC" "state (proc_at t' i) = SLEEPING" "chan (proc_at t' i) = Some (CProc q)"
    from sl [OF this] \<open>i < NPROC\<close> show "q = i" using waits_okD(1) [OF assms(2)] by metis
  next
    fix i z
    assume "i < NPROC" "z < NPROC" "state (proc_at t' i) = SLEEPING"
      "chan (proc_at t' i) = Some (CProc i)" "parent (proc_at t' z) = Some i"
    with sl [of i i] show "state (proc_at t' z) \<noteq> ZOMBIE"
      using waits_okD(2) [OF assms(2), of i z] cls [of z] by metis
  qed
qed

lemma live_change_inv:
  assumes "live_change t t'" "tab_inv t"
  shows "tab_inv t'"
proof -
  have len: "length (procs t) = NPROC" using assms(2) by (simp add: tab_inv_def)
  note [simp] = live_change_class [OF assms(1), unfolded len]
  have eqs: "nextpid t' = nextpid t" "initproc t' = initproc t" "length (procs t') = NPROC"
    using assms(1) len by (simp_all add: live_change_def)
  have "pids_ok t'" using assms(2) by (simp add: tab_inv_def pids_ok_def eqs)
  moreover have "tree_ok t'"
  proof -
    have T: "tree_ok t" using assms(2) by (simp add: tab_inv_def)
    obtain r where r: "initproc t = Some r" "r < NPROC" "live (proc_at t r)" "parent (proc_at t r) = None"
      using T by (rule tree_ok_init)
    show ?thesis
      using r tree_okD(1-4) [OF T] tree_okD(5) [OF T] by (intro tree_okI [of _ r]) (auto simp: eqs)
  qed
  moreover have "waits_ok t'"
    using live_change_waits assms len by (simp add: tab_inv_def)
  ultimately show ?thesis by (simp add: tab_inv_def eqs)
qed

lemma live_change_wakeup1: "live_change t (wakeup1 ch t)"
  by (auto simp: live_change_def ptab_simps live_def)

lemma live_change_kill: "live_change t (snd (kill n t))"
  by (auto simp: live_change_def kill_def ptab_simps live_def Let_def split: option.split)

lemma live_change_upd:
  assumes "\<And>p. pid (f p) = pid p" "\<And>p. parent (f p) = parent p"
    "live (proc_at t i)" "live (f (proc_at t i))"
    "\<And>q. state (f (proc_at t i)) = SLEEPING \<Longrightarrow> chan (f (proc_at t i)) \<noteq> Some (CProc q)"
  shows "live_change t (upd_proc i f t)"
  using assms by (auto simp: live_change_def ptab_simps)

text \<open>The steps that change the family tree.\<close>

lemma tab_inv_alloc:
  assumes "alloc_slot t = Inr (Some i, t')" "tab_inv t"
  shows "tab_inv t'"
proof -
  note inv = tab_invD [OF assms(2)]
  from assms(1) obtain fi: "find_index (\<lambda>p. state p = UNUSED) (procs t) = Some i"
    and t': "t' = (upd_proc i (\<lambda>p. p\<lparr>state := EMBRYO, pid := nextpid t\<rparr>) t)\<lparr>nextpid := nextpid t + 1\<rparr>"
    by (auto simp: alloc_slot_def split: option.splits if_splits)
  have i: "i < NPROC" "state (proc_at t i) = UNUSED"
    using find_index_SomeD(1,2) [OF fi] inv(1) by simp_all
  then have ni: "\<not> live (proc_at t i)" by (simp add: live_def)
  have at: "proc_at t' k = (if k = i then (proc_at t k)\<lparr>state := EMBRYO, pid := nextpid t\<rparr> else proc_at t k)"
    if "k < NPROC" for k
    using that inv(1) by (simp add: t' ptab_simps)
  have eqs: "nextpid t' = nextpid t + 1" "initproc t' = initproc t" "length (procs t') = NPROC"
    by (simp_all add: t' inv(1))
  have "pids_ok t'"
  proof (rule pids_okI)
    show "0 < nextpid t'" using pids_okD(1) [OF inv(2)] eqs by simp
    show "0 \<le> pid (proc_at t' k) \<and> pid (proc_at t' k) < nextpid t'" if "k < NPROC" for k
      using that pids_okD(1) [OF inv(2)] pids_okD(2) [OF inv(2), of k]
      by (cases "k = i") (auto simp: at eqs)
    show "0 < pid (proc_at t' k)" if "k < NPROC" "used (proc_at t' k)" for k
      using that pids_okD(1) [OF inv(2)] pids_okD(3) [OF inv(2), of k]
      by (cases "k = i") (auto simp: at)
    show "j = k" if "j < NPROC" "k < NPROC" "0 < pid (proc_at t' j)"
        "pid (proc_at t' j) = pid (proc_at t' k)" for j k
      using that pids_okD(2) [OF inv(2), of j] pids_okD(2) [OF inv(2), of k]
        pids_okD(4) [OF inv(2), of j k]
      by (cases "k = i"; cases "j = i") (simp_all add: at)
  qed
  moreover obtain r where r: "initproc t = Some r" "r < NPROC" "live (proc_at t r)" "parent (proc_at t r) = None"
    using inv(3) by (rule tree_ok_init)
  have "tree_ok t'"
  proof (rule tree_okI [of _ r])
    have "r \<noteq> i" using r ni by auto
    then show "initproc t' = Some r" "r < NPROC" "live (proc_at t' r)"
      "parent (proc_at t' r) = None" using r by (simp_all add: eqs at)
    show "q < NPROC \<and> q \<noteq> k \<and> live (proc_at t' q) \<and> used (proc_at t' k)"
      if "k < NPROC" "parent (proc_at t' k) = Some q" for k q
      using that tree_okD(1-3) [OF inv(3), of k q] tree_okD(5) [OF inv(3), of k] i ni
      by (cases "q = i"; cases "k = i") (auto simp: at used_def)
    show "parent (proc_at t' k) \<noteq> None"
      if "k < NPROC" "live (proc_at t' k) \<or> state (proc_at t' k) = ZOMBIE" "k \<noteq> r" for k
      using that tree_okD(4) [OF inv(3), of k] r
      by (cases "k = i") (auto simp: at live_def)
  qed
  moreover have "waits_ok t'"
  proof (rule waits_okI)
    show "q = k" if "k < NPROC" "state (proc_at t' k) = SLEEPING" "chan (proc_at t' k) = Some (CProc q)" for k q
      using that waits_okD(1) [OF inv(4), of k q] by (cases "k = i") (simp_all add: at)
    show "state (proc_at t' z) \<noteq> ZOMBIE"
      if "k < NPROC" "z < NPROC" "state (proc_at t' k) = SLEEPING" "chan (proc_at t' k) = Some (CProc k)"
        "parent (proc_at t' z) = Some k" for k z
      using that waits_okD(2) [OF inv(4), of k z] by (cases "k = i"; cases "z = i") (simp_all add: at)
  qed
  ultimately show ?thesis by (simp add: tab_inv_def eqs)
qed

text \<open>An embryo is nobody's parent; giving it up before it has a parent, making it the child of
  a live process, and starting it as such a child keep the tree.\<close>

lemma tree_ok_upd:
  assumes "tree_ok t" "length (procs t) = NPROC" "i < NPROC" "\<not> live (proc_at t i)"
    "state (proc_at t i) \<noteq> ZOMBIE \<or> initproc t \<noteq> Some i"
    "parent (f (proc_at t i)) = Some p \<Longrightarrow> p < NPROC \<and> p \<noteq> i \<and> live (proc_at t p) \<and> used (f (proc_at t i))"
    "parent (f (proc_at t i)) = None \<Longrightarrow> \<not> live (f (proc_at t i)) \<and> state (f (proc_at t i)) \<noteq> ZOMBIE"
    "parent (f (proc_at t i)) \<in> {None, Some p}"
  shows "tree_ok (upd_proc i f t)"
proof -
  obtain r where r: "initproc t = Some r" "r < NPROC" "live (proc_at t r)" "parent (proc_at t r) = None"
    using assms(1) by (rule tree_ok_init)
  note at = proc_at_upd [of _ t, unfolded assms(2)]
  show ?thesis
  proof (rule tree_okI [of _ r])
    show "initproc (upd_proc i f t) = Some r" "r < NPROC" "live (proc_at (upd_proc i f t) r)"
      "parent (proc_at (upd_proc i f t) r) = None"
      using r assms(4) by (auto simp: at)
    show "q < NPROC \<and> q \<noteq> k \<and> live (proc_at (upd_proc i f t) q) \<and>
        used (proc_at (upd_proc i f t) k)"
      if "k < NPROC" "parent (proc_at (upd_proc i f t) k) = Some q" for k q
      using that tree_okD(1-3) [OF assms(1), of k q] tree_okD(5) [OF assms(1), of k] assms(3-8)
      by (cases "k = i") (auto simp: at)
    show "parent (proc_at (upd_proc i f t) k) \<noteq> None"
      if "k < NPROC" "live (proc_at (upd_proc i f t) k) \<or> state (proc_at (upd_proc i f t) k) = ZOMBIE"
        "k \<noteq> r" for k
      using that tree_okD(4) [OF assms(1), of k] r assms(7)
      by (cases "k = i") (auto simp: at)
  qed
qed

lemma pids_ok_upd:
  assumes "pids_ok t" "length (procs t) = NPROC" "i < NPROC"
    "used (f (proc_at t i)) \<Longrightarrow> used (proc_at t i)"
    "pid (f (proc_at t i)) = pid (proc_at t i) \<or> pid (f (proc_at t i)) = 0 \<and> \<not> used (f (proc_at t i))"
  shows "pids_ok (upd_proc i f t)"
proof -
  note at = proc_at_upd [of _ t, unfolded assms(2)]
  show ?thesis
  proof (rule pids_okI)
    show "0 < nextpid (upd_proc i f t)" using pids_okD(1) [OF assms(1)] by simp
    show "0 \<le> pid (proc_at (upd_proc i f t) k) \<and> pid (proc_at (upd_proc i f t) k) < nextpid (upd_proc i f t)"
      if "k < NPROC" for k
      using that pids_okD(1) [OF assms(1)] pids_okD(2) [OF assms(1), of k] assms(5)
      by (cases "k = i") (auto simp: at)
    show "0 < pid (proc_at (upd_proc i f t) k)" if "k < NPROC" "used (proc_at (upd_proc i f t) k)" for k
      using that pids_okD(3) [OF assms(1), of k] assms(4,5) by (cases "k = i") (auto simp: at)
    show "j = k" if "j < NPROC" "k < NPROC" "0 < pid (proc_at (upd_proc i f t) j)"
        "pid (proc_at (upd_proc i f t) j) = pid (proc_at (upd_proc i f t) k)" for j k
      using that pids_okD(4) [OF assms(1), of j k] assms(5)
      by (cases "k = i"; cases "j = i") (auto simp: at)
  qed
qed

lemma waits_ok_upd:
  assumes "waits_ok t" "length (procs t) = NPROC" "i < NPROC"
    "state (f (proc_at t i)) \<noteq> SLEEPING" "state (f (proc_at t i)) \<noteq> ZOMBIE"
  shows "waits_ok (upd_proc i f t)"
proof -
  note at = proc_at_upd [of _ t, unfolded assms(2)]
  show ?thesis
  proof (rule waits_okI)
    show "q = k" if "k < NPROC" "state (proc_at (upd_proc i f t) k) = SLEEPING"
        "chan (proc_at (upd_proc i f t) k) = Some (CProc q)" for k q
      using that waits_okD(1) [OF assms(1), of k q] assms(4) by (cases "k = i") (simp_all add: at)
    show "state (proc_at (upd_proc i f t) z) \<noteq> ZOMBIE"
      if "k < NPROC" "z < NPROC" "state (proc_at (upd_proc i f t) k) = SLEEPING"
        "chan (proc_at (upd_proc i f t) k) = Some (CProc k)"
        "parent (proc_at (upd_proc i f t) z) = Some k" for k z
      using that waits_okD(2) [OF assms(1), of k z] assms(4,5)
      by (cases "k = i"; cases "z = i") (simp_all add: at)
  qed
qed

lemma tab_inv_alloc_fail:
  assumes "tab_inv t" "i < NPROC" "state (proc_at t i) = EMBRYO" "parent (proc_at t i) = None"
  shows "tab_inv (upd_proc i (\<lambda>q. q\<lparr>state := UNUSED\<rparr>) t)"
  using tab_invD [OF assms(1)] assms
  by (auto simp: tab_inv_def used_def live_def intro!: pids_ok_upd tree_ok_upd waits_ok_upd)

lemma tab_inv_fork_parent:
  assumes "tab_inv t" "i < NPROC" "state (proc_at t i) = EMBRYO" "p < NPROC" "live (proc_at t p)"
  shows "tab_inv (upd_proc i (\<lambda>q. q\<lparr>parent := Some p\<rparr>) t)"
proof -
  note inv = tab_invD [OF assms(1)]
  have "p \<noteq> i" using assms by (auto simp: live_def)
  with inv assms show ?thesis
    by (auto simp: tab_inv_def used_def live_def intro!: pids_ok_upd tree_ok_upd [where p = p] waits_ok_upd)
qed

lemma tab_inv_fork:
  assumes "tab_inv t" "i < NPROC" "state (proc_at t i) = EMBRYO" "parent (proc_at t i) = Some p"
  shows "tab_inv (upd_proc i (\<lambda>q. q\<lparr>state := RUNNABLE\<rparr>) t)"
proof -
  note inv = tab_invD [OF assms(1)]
  have "p < NPROC" "p \<noteq> i" "live (proc_at t p)"
    using tree_okD(1,2,5) [OF inv(3) assms(2)] assms(4) by auto
  with inv assms show ?thesis
    by (auto simp: tab_inv_def used_def live_def intro!: pids_ok_upd tree_ok_upd [where p = p] waits_ok_upd)
qed

lemma tab_inv_reap:
  assumes "tab_inv t" "wait_scan p 0 False (procs t) = Inl z"
  shows "tab_inv (reap z t)"
proof -
  note inv = tab_invD [OF assms(1)]
  have z: "z < NPROC" "state (proc_at t z) = ZOMBIE" using wait_scan_Inl [OF assms(2)] inv(1) by auto
  obtain r where r: "initproc t = Some r" "r < NPROC" "live (proc_at t r)" "parent (proc_at t r) = None"
    using inv(3) by (rule tree_ok_init)
  then have "r \<noteq> z" using z by (auto simp: live_def)
  with inv z r show ?thesis
    by (auto simp: tab_inv_def reap_def used_def live_def intro!: pids_ok_upd tree_ok_upd waits_ok_upd)
qed

lemma tab_inv_wait_sleep:
  assumes "tab_inv t" "wait_scan p 0 False (procs t) = Inr True" "p < NPROC" "live (proc_at t p)"
  shows "tab_inv (sleep_enter p (CProc p) t)"
proof -
  note inv = tab_invD [OF assms(1)]
  note at = proc_at_upd [of _ t, unfolded inv(1)]
  let ?t = "sleep_enter p (CProc p) t"
  have nz: "state (proc_at t z) \<noteq> ZOMBIE" if "z < NPROC" "parent (proc_at t z) = Some p" for z
    using wait_scan_Inr [OF assms(2)] inv(1) that nth_mem [of z "procs t"] by auto
  obtain r where r: "initproc t = Some r" "r < NPROC" "live (proc_at t r)" "parent (proc_at t r) = None"
    using inv(3) by (rule tree_ok_init)
  have "pids_ok ?t" unfolding sleep_enter_def
    using inv assms(3,4) by (intro pids_ok_upd) (auto simp: used_def live_def)
  moreover have "tree_ok ?t"
  proof (rule tree_okI [of _ r])
    show "initproc ?t = Some r" "r < NPROC" "live (proc_at ?t r)"
      "parent (proc_at ?t r) = None"
      using r by (auto simp: sleep_enter_def at live_def)
    show "q < NPROC \<and> q \<noteq> k \<and> live (proc_at ?t q) \<and> used (proc_at ?t k)"
      if "k < NPROC" "parent (proc_at ?t k) = Some q" for k q
      using that tree_okD(1-3) [OF inv(3), of k q] tree_okD(5) [OF inv(3), of k] assms(4)
      by (cases "k = p") (auto simp: sleep_enter_def at live_def used_def)
    show "parent (proc_at ?t k) \<noteq> None"
      if "k < NPROC" "live (proc_at ?t k) \<or> state (proc_at ?t k) = ZOMBIE" "k \<noteq> r" for k
      using that tree_okD(4) [OF inv(3), of k] r assms(4)
      by (cases "k = p") (auto simp: sleep_enter_def at)
  qed
  moreover have "waits_ok ?t"
  proof (rule waits_okI)
    show "q = k" if "k < NPROC" "state (proc_at ?t k) = SLEEPING" "chan (proc_at ?t k) = Some (CProc q)" for k q
      using that waits_okD(1) [OF inv(4), of k q] by (cases "k = p") (simp_all add: sleep_enter_def at)
    show "state (proc_at ?t z) \<noteq> ZOMBIE"
      if "k < NPROC" "z < NPROC" "state (proc_at ?t k) = SLEEPING" "chan (proc_at ?t k) = Some (CProc k)"
        "parent (proc_at ?t z) = Some k" for k z
      using that waits_okD(2) [OF inv(4), of k z] nz [of z]
      by (cases "k = p"; cases "z = p") (auto simp: sleep_enter_def at)
  qed
  ultimately show ?thesis using inv(1) by (simp add: tab_inv_def sleep_enter_def)
qed

lemma tab_inv_exit:
  assumes "tab_inv t" "p < NPROC" "live (proc_at t p)" "initproc t \<noteq> Some p"
  shows "tab_inv (exit_table p t)"
proof -
  note inv = tab_invD [OF assms(1)]
  note at = proc_at_exit_table [OF inv(1)]
  let ?t = "exit_table p t"
  obtain r where r: "initproc t = Some r" "r < NPROC" "live (proc_at t r)" "parent (proc_at t r) = None"
    using inv(3) by (rule tree_ok_init)
  have lv: "live (proc_at ?t k) \<longleftrightarrow> k \<noteq> p \<and> live (proc_at t k)" if "k < NPROC" for k
    using that by (auto simp: at live_def)
  have us: "used (proc_at ?t k) \<longleftrightarrow> used (proc_at t k)" if "k < NPROC" for k
    using that assms(3) by (auto simp: at used_def live_def)
  have zo: "state (proc_at ?t k) = ZOMBIE \<longleftrightarrow> k = p \<or> state (proc_at t k) = ZOMBIE" if "k < NPROC" for k
    using that by (auto simp: at)
  have pr: "parent (proc_at ?t k) = (if parent (proc_at t k) = Some p then Some r else parent (proc_at t k))"
    if "k < NPROC" for k
    using that r by (simp add: at)
  have pd: "pid (proc_at ?t k) = pid (proc_at t k)" if "k < NPROC" for k
    using that by (simp add: at)
  have "pids_ok ?t"
    using pids_okD [OF inv(2)] by (intro pids_okI) (simp_all add: us pd)
  moreover have "tree_ok ?t"
  proof (rule tree_okI [of _ r])
    show "initproc ?t = Some r" "r < NPROC" "live (proc_at ?t r)"
      "parent (proc_at ?t r) = None"
      using r assms(4) by (auto simp: lv pr)
    show "q < NPROC \<and> q \<noteq> k \<and> live (proc_at ?t q) \<and> used (proc_at ?t k)"
      if "k < NPROC" "parent (proc_at ?t k) = Some q" for k q
      using that tree_okD(1-3,5) [OF inv(3), of k] r assms(4)
      by (auto simp: lv us pr split: if_splits)
    show "parent (proc_at ?t k) \<noteq> None"
      if "k < NPROC" "live (proc_at ?t k) \<or> state (proc_at ?t k) = ZOMBIE" "k \<noteq> r" for k
      using that tree_okD(4) [OF inv(3), of k] r assms(3)
      by (auto simp: lv zo pr)
  qed
  moreover have "waits_ok ?t"
  proof (rule waits_okI)
    fix k q
    assume "k < NPROC" "state (proc_at ?t k) = SLEEPING" "chan (proc_at ?t k) = Some (CProc q)"
    then show "q = k" using waits_okD(1) [OF inv(4), of k q] by (simp add: at split: if_splits)
  next
    fix k z
    assume k: "k < NPROC" "z < NPROC" "state (proc_at ?t k) = SLEEPING"
      "chan (proc_at ?t k) = Some (CProc k)" "parent (proc_at ?t z) = Some k"
    then have s: "k \<noteq> p" "state (proc_at t k) = SLEEPING" "chan (proc_at t k) = Some (CProc k)"
        "parent (proc_at t p) \<noteq> Some k" "k = r \<Longrightarrow> \<not> zombie_child p NPROC t"
      using r by (auto simp: at split: if_splits)
    show "state (proc_at ?t z) \<noteq> ZOMBIE"
    proof
      assume "state (proc_at ?t z) = ZOMBIE"
      then consider "z = p" | "z \<noteq> p" "state (proc_at t z) = ZOMBIE" using zo k by blast
      then show False
      proof cases
        case 1
        with k s tree_okD(5) [OF inv(3), of p] show False by (auto simp: pr split: if_splits)
      next
        case 2
        show False
        proof (cases "parent (proc_at t z) = Some p")
          case True
          with k 2 have "zombie_child p NPROC t" by (auto simp: zombie_child_def)
          with s k True show False by (simp add: pr)
        next
          case False
          with k have "parent (proc_at t z) = Some k" by (simp add: pr)
          with waits_okD(2) [OF inv(4), of k z] k s 2 show False by simp
        qed
      qed
    qed
  qed
  ultimately show ?thesis using inv(1) by (simp add: tab_inv_def)
qed

text \<open>The CPUs: exactly the lock's owner is inside the scan or just switched, and each running
  process is on exactly one CPU.\<close>

definition cpu_inv :: "mach \<Rightarrow> bool" where
  "cpu_inv m \<longleftrightarrow>
     (\<forall>c. ptlock m = Some c \<longleftrightarrow> (\<exists>i. cpc m c = Scan i) \<or> cpc m c = Switched) \<and>
     (\<forall>c. cproc m c = None \<longleftrightarrow> cpc m c = Idle \<or> (\<exists>i. cpc m c = Scan i)) \<and>
     (\<forall>c p. cproc m c = Some p \<longrightarrow> p < NPROC \<and> state (proc_at (tab m) p) = RUNNING) \<and>
     (\<forall>c d p. cproc m c = Some p \<longrightarrow> cproc m d = Some p \<longrightarrow> c = d) \<and>
     (\<forall>p < NPROC. state (proc_at (tab m) p) = RUNNING \<longrightarrow> (\<exists>c. cproc m c = Some p))"

lemma cpu_invD:
  assumes "cpu_inv m"
  shows "ptlock m = Some c \<longleftrightarrow> (\<exists>i. cpc m c = Scan i) \<or> cpc m c = Switched"
    "cproc m c = None \<longleftrightarrow> cpc m c = Idle \<or> (\<exists>i. cpc m c = Scan i)"
    "cproc m c = Some p \<Longrightarrow> p < NPROC"
    "cproc m c = Some p \<Longrightarrow> state (proc_at (tab m) p) = RUNNING"
    "cproc m c = Some p \<Longrightarrow> cproc m d = Some p \<Longrightarrow> c = d"
    "p < NPROC \<Longrightarrow> state (proc_at (tab m) p) = RUNNING \<Longrightarrow> \<exists>c. cproc m c = Some p"
  using assms unfolding cpu_inv_def by blast+

lemma cpu_invI:
  assumes "\<And>c. ptlock m = Some c \<longleftrightarrow> (\<exists>i. cpc m c = Scan i) \<or> cpc m c = Switched"
    "\<And>c. cproc m c = None \<longleftrightarrow> cpc m c = Idle \<or> (\<exists>i. cpc m c = Scan i)"
    "\<And>c p. cproc m c = Some p \<Longrightarrow> p < NPROC \<and> state (proc_at (tab m) p) = RUNNING"
    "\<And>c d p. cproc m c = Some p \<Longrightarrow> cproc m d = Some p \<Longrightarrow> c = d"
    "\<And>p. p < NPROC \<Longrightarrow> state (proc_at (tab m) p) = RUNNING \<Longrightarrow> \<exists>c. cproc m c = Some p"
  shows "cpu_inv m"
  using assms unfolding cpu_inv_def by blast

text \<open>Table steps that start and stop no process.\<close>

lemma cpu_inv_tab:
  assumes "cpu_inv m"
    "\<And>k. k < NPROC \<Longrightarrow> state (proc_at t k) = RUNNING \<longleftrightarrow> state (proc_at (tab m) k) = RUNNING"
  shows "cpu_inv (m\<lparr>tab := t\<rparr>)"
  using cpu_invD [OF assms(1)] assms(2) by (intro cpu_invI) auto

text \<open>A process stops and its CPU goes back to the scan.\<close>

lemma cpu_inv_to_sched:
  assumes "cpu_inv m" "running m c p" "ptlock m = None"
    "\<And>k. k < NPROC \<Longrightarrow> state (proc_at t k) = RUNNING \<longleftrightarrow> k \<noteq> p \<and> state (proc_at (tab m) k) = RUNNING"
  shows "cpu_inv (to_sched c p t m)"
proof -
  note I = cpu_invD [OF assms(1)]
  have c: "cproc m c = Some p" "cpc m c = InProc" using assms(2) by (simp_all add: running_def)
  show ?thesis
  proof (rule cpu_invI)
    fix d
    show "ptlock (to_sched c p t m) = Some d \<longleftrightarrow>
        (\<exists>i. cpc (to_sched c p t m) d = Scan i) \<or> cpc (to_sched c p t m) d = Switched"
      using I(1) [of d] assms(3) by (auto simp: to_sched_def)
    show "cproc (to_sched c p t m) d = None \<longleftrightarrow>
        cpc (to_sched c p t m) d = Idle \<or> (\<exists>i. cpc (to_sched c p t m) d = Scan i)"
      using I(2) [of d] by (auto simp: to_sched_def)
  next
    fix d q
    assume "cproc (to_sched c p t m) d = Some q"
    then have d: "d \<noteq> c" "cproc m d = Some q" by (auto simp: to_sched_def split: if_splits)
    with c I(5) [of d q c] have "q \<noteq> p" by auto
    with d I(3,4) [of d q] assms(4) [of q]
    show "q < NPROC \<and> state (proc_at (tab (to_sched c p t m)) q) = RUNNING" by (simp add: to_sched_def)
  next
    fix d e q
    assume "cproc (to_sched c p t m) d = Some q" "cproc (to_sched c p t m) e = Some q"
    then show "d = e" using I(5) [of d q e] by (auto simp: to_sched_def split: if_splits)
  next
    fix q
    assume q: "q < NPROC" "state (proc_at (tab (to_sched c p t m)) q) = RUNNING"
    then have "q \<noteq> p" "state (proc_at (tab m) q) = RUNNING" using assms(4) by (auto simp: to_sched_def)
    then obtain d where "cproc m d = Some q" using I(6) [of q] q by auto
    with \<open>q \<noteq> p\<close> c show "\<exists>c'. cproc (to_sched c p t m) c' = Some q"
      by (auto simp: to_sched_def intro!: exI [of _ d])
  qed
qed

lemma cpu_inv_pc:
  assumes "cpu_inv m" "\<And>c. l = Some c \<longleftrightarrow> (\<exists>i. pc c = Scan i) \<or> pc c = Switched"
    "\<And>c. cproc m c = None \<longleftrightarrow> pc c = Idle \<or> (\<exists>i. pc c = Scan i)"
  shows "cpu_inv (m\<lparr>ptlock := l, cpc := pc\<rparr>)"
  using cpu_invD [OF assms(1)] assms(2,3) by (intro cpu_invI) auto

lemma cpu_inv_release:
  assumes "cpu_inv m" "(\<exists>i. cpc m c = Scan i) \<or> cpc m c = Switched"
    "pc = (if cproc m c = None then Idle else InProc)"
  shows "cpu_inv (m\<lparr>ptlock := None, cpc := (cpc m)(c := pc)\<rparr>)"
proof -
  note I = cpu_invD [OF assms(1)]
  have l: "ptlock m = Some c" using I(1) [of c] assms(2) by blast
  have "\<not> ((\<exists>i. cpc m d = Scan i) \<or> cpc m d = Switched)" if "d \<noteq> c" for d
    using I(1) [of d] l that by auto
  then show ?thesis
    using assms(3) I(2) by (intro cpu_inv_pc [OF assms(1)]) auto
qed

lemma cpu_inv_pick:
  assumes "cpu_inv m" "cpc m c = Scan i" "i < NPROC"
    "scheduler_pick i (tab m) = Some (p, t)" "length (procs (tab m)) = NPROC"
  shows "cpu_inv (m\<lparr>tab := t, cproc := (cproc m)(c := Some p), cpc := (cpc m)(c := Switched)\<rparr>)"
proof -
  note I = cpu_invD [OF assms(1)]
  have p: "p = i" "state (proc_at (tab m) i) = RUNNABLE"
      "t = upd_proc i (\<lambda>p. p\<lparr>state := RUNNING\<rparr>) (tab m)"
    using assms(4) by (auto simp: scheduler_pick_def split: if_splits)
  have st: "state (proc_at t k) = RUNNING \<longleftrightarrow> k = i \<or> state (proc_at (tab m) k) = RUNNING"
    if "k < NPROC" for k
    using that assms(5) p by (auto simp: ptab_simps)
  have no: "cproc m d \<noteq> Some i" for d using I(4) [of d i] p(2) by auto
  show ?thesis
  proof (rule cpu_invI)
    show "\<exists>d. cproc (m\<lparr>tab := t, cproc := (cproc m)(c := Some p), cpc := (cpc m)(c := Switched)\<rparr>) d = Some q"
      if "q < NPROC"
        "state (proc_at (tab (m\<lparr>tab := t, cproc := (cproc m)(c := Some p), cpc := (cpc m)(c := Switched)\<rparr>)) q) = RUNNING"
      for q
    proof (cases "q = i")
      case False
      with that st obtain d where "cproc m d = Some q" using I(6) [of q] by auto
      moreover have "cproc m c = None" using I(2) [of c] assms(2) by auto
      ultimately show ?thesis by (auto intro!: exI [of _ d])
    qed (auto simp: p)
  qed (use I no st assms(2,3) p(1) in \<open>auto split: if_splits\<close>)
qed

definition minv :: "mach \<Rightarrow> bool" where
  "minv m \<longleftrightarrow> tab_inv (tab m) \<and> cpu_inv m"

lemma running_live:
  assumes "cpu_inv m" "running m c p"
  shows "p < NPROC" "state (proc_at (tab m) p) = RUNNING" "live (proc_at (tab m) p)"
  using cpu_invD(3,4) [OF assms(1), of c p] assms(2) by (auto simp: running_def live_def)

text \<open>What the table steps do to the running processes.\<close>

lemma alloc_slot_running:
  assumes "alloc_slot t = Inr (Some i, t')" "length (procs t) = NPROC" "k < NPROC"
  shows "state (proc_at t' k) = RUNNING \<longleftrightarrow> state (proc_at t k) = RUNNING"
proof -
  from assms(1) obtain fi: "find_index (\<lambda>p. state p = UNUSED) (procs t) = Some i"
    and t': "t' = (upd_proc i (\<lambda>p. p\<lparr>state := EMBRYO, pid := nextpid t\<rparr>) t)\<lparr>nextpid := nextpid t + 1\<rparr>"
    by (auto simp: alloc_slot_def split: option.splits if_splits)
  have "state (proc_at t i) = UNUSED" using find_index_SomeD(2) [OF fi] .
  then show ?thesis using assms(2,3) by (auto simp: t' ptab_simps)
qed

lemma kill_running:
  "k < length (procs t) \<Longrightarrow>
     state (proc_at (snd (kill n t)) k) = RUNNING \<longleftrightarrow> state (proc_at t k) = RUNNING"
  by (auto simp: kill_def ptab_simps Let_def split: option.split)

lemma tab_inv_upd_live:
  assumes "tab_inv t" "live (proc_at t p)" "s \<in> {RUNNABLE, RUNNING}"
  shows "tab_inv (upd_proc p (\<lambda>q. q\<lparr>state := s\<rparr>) t)"
  using assms by (intro live_change_inv [OF live_change_upd]) (auto simp: live_def)

lemma minv_step:
  assumes "mstep m m'" "minv m"
  shows "minv m'"
  using assms
proof (induction rule: mstep.induct)
  case (round m c)
  then have "cpu_inv (m\<lparr>ptlock := Some c, cpc := (cpc m)(c := Scan 0)\<rparr>)"
    using cpu_invD(1,2) [of m] by (intro cpu_inv_pc) (auto simp: minv_def)
  with round show ?case by (simp add: minv_def)
next
  case (skip m c i)
  have "cpu_inv (m\<lparr>ptlock := ptlock m, cpc := (cpc m)(c := Scan (Suc i))\<rparr>)"
    using skip cpu_invD(1,2) [of m] by (intro cpu_inv_pc) (auto simp: minv_def)
  with skip show ?case by (simp add: minv_def)
next
  case (pick m c i p t)
  then have "tab_inv t"
    by (auto simp: minv_def scheduler_pick_def live_def split: if_splits intro!: tab_inv_upd_live)
  with pick show ?case by (simp add: minv_def cpu_inv_pick tab_invD(1))
next
  case (round_end m c i)
  then have "cpu_inv (m\<lparr>ptlock := None, cpc := (cpc m)(c := Idle)\<rparr>)"
    using cpu_invD(2) [of m c] by (intro cpu_inv_release) (auto simp: minv_def)
  with round_end show ?case by (simp add: minv_def)
next
  case (resume m c)
  then have "cpu_inv (m\<lparr>ptlock := None, cpc := (cpc m)(c := InProc)\<rparr>)"
    using cpu_invD(2) [of m c] by (intro cpu_inv_release) (auto simp: minv_def)
  with resume show ?case by (simp add: minv_def)
next
  case (resume_sleep m c p)
  then have I: "cpu_inv m" "tab_inv (tab m)" by (simp_all add: minv_def)
  have p: "p < NPROC" "state (proc_at (tab m) p) = RUNNING"
    using cpu_invD(3,4) [OF I(1), of c p] resume_sleep by simp_all
  have t: "tab_inv (sleep_leave p (tab m))" unfolding sleep_leave_def
    using I p by (intro live_change_inv [OF live_change_upd]) (auto simp: live_def)
  have "cpu_inv (m\<lparr>tab := sleep_leave p (tab m)\<rparr>)"
    using I p by (intro cpu_inv_tab) (auto simp: sleep_leave_def ptab_simps tab_invD(1))
  from cpu_inv_release [OF this, of c InProc] resume_sleep(1,2) t show ?case
    by (simp add: minv_def)
next
  case (yield m c p)
  then have I: "cpu_inv m" "tab_inv (tab m)" by (simp_all add: minv_def)
  with yield have "cpu_inv (to_sched c p (yield_enter p (tab m)) m)"
    by (intro cpu_inv_to_sched) (auto simp: yield_enter_def ptab_simps tab_invD(1))
  with I running_live [OF I(1) yield(1)] show ?case
    by (auto simp: minv_def to_sched_def yield_enter_def intro!: tab_inv_upd_live)
next
  case (sleep m c p ch)
  then have I: "cpu_inv m" "tab_inv (tab m)" by (simp_all add: minv_def)
  with sleep have "cpu_inv (to_sched c p (sleep_enter p ch (tab m)) m)"
    by (intro cpu_inv_to_sched) (auto simp: sleep_enter_def ptab_simps tab_invD(1))
  moreover have "tab_inv (sleep_enter p ch (tab m))" unfolding sleep_enter_def
    using I running_live [OF I(1) sleep(1)] sleep(3)
    by (intro live_change_inv [OF live_change_upd]) (auto simp: live_def)
  ultimately show ?case by (simp add: minv_def to_sched_def)
next
  case (wakeup m ch)
  then show ?case
    by (auto simp: minv_def wakeup_def ptab_simps tab_invD(1) split: if_splits
        intro!: cpu_inv_tab live_change_inv [OF live_change_wakeup1])
next
  case (kill m c p n)
  then show ?case
    by (auto simp: minv_def kill_running tab_invD(1)
        intro!: cpu_inv_tab live_change_inv [OF live_change_kill])
next
  case (alloc m c p i t)
  then show ?case
    using alloc_slot_running [OF alloc(3)] tab_inv_alloc [OF alloc(3)]
    by (auto simp: minv_def tab_invD(1) intro!: cpu_inv_tab)
next
  case (alloc_fail m c p i)
  then show ?case
    by (auto simp: minv_def ptab_simps tab_invD(1) split: if_splits
        intro!: cpu_inv_tab tab_inv_alloc_fail)
next
  case (fork_parent m c p i)
  then show ?case
    using running_live [of m c p]
    by (auto simp: minv_def ptab_simps tab_invD(1) split: if_splits
        intro!: cpu_inv_tab tab_inv_fork_parent)
next
  case (fork m c p i)
  then show ?case
    by (auto simp: minv_def ptab_simps tab_invD(1) split: if_splits
        intro!: cpu_inv_tab tab_inv_fork)
next
  case (exit m c p)
  then have I: "cpu_inv m" "tab_inv (tab m)" by (simp_all add: minv_def)
  with exit have "cpu_inv (to_sched c p (exit_table p (tab m)) m)"
    by (intro cpu_inv_to_sched) (auto simp: proc_at_exit_table tab_invD(1) split: if_splits)
  with I running_live [OF I(1) exit(1)] exit(3) show ?case
    by (auto simp: minv_def to_sched_def intro!: tab_inv_exit)
next
  case (wait_reap m c p z)
  then have "z < NPROC" "state (proc_at (tab m) z) = ZOMBIE"
    using wait_scan_Inl [OF wait_reap(3)] tab_invD(1) [of "tab m"] by (auto simp: minv_def)
  with wait_reap show ?case
    by (auto simp: minv_def reap_def [of z] ptab_simps tab_invD(1) split: if_splits
        intro!: cpu_inv_tab tab_inv_reap [unfolded reap_def])
next
  case (wait_sleep m c p)
  then have I: "cpu_inv m" "tab_inv (tab m)" by (simp_all add: minv_def)
  with wait_sleep have "cpu_inv (to_sched c p (sleep_enter p (CProc p) (tab m)) m)"
    by (intro cpu_inv_to_sched) (auto simp: sleep_enter_def ptab_simps tab_invD(1))
  with I running_live [OF I(1) wait_sleep(1)] wait_sleep(3) show ?case
    by (auto simp: minv_def to_sched_def intro!: tab_inv_wait_sleep)
qed

lemma proc_at_ptable0 [simp]: "k < NPROC \<Longrightarrow> proc_at ptable0 k = proc0"
  by (simp add: ptable0_def)

lemma userinit_table_eq:
  "userinit_table = Inr (upd_proc 0 (\<lambda>p. p\<lparr>state := RUNNABLE, pid := 1\<rparr>)
     (ptable0\<lparr>nextpid := 2, initproc := Some 0\<rparr>))"
proof -
  have "find_index (\<lambda>p. state p = UNUSED) (procs ptable0) = Some 0"
    by (auto simp: find_index_Some ptable0_def proc0_def NPROC_def)
  then show ?thesis
    by (simp add: userinit_table_def alloc_slot_def upd_proc_def)
      (simp add: ptable0_def proc0_def NPROC_def)
qed

lemma minv_boot:
  assumes "userinit_table = Inr t"
  shows "minv \<lparr>tab = t, ptlock = None, cproc = (\<lambda>_. None), cpc = (\<lambda>_. Idle)\<rparr>"
proof -
  have t: "t = upd_proc 0 (\<lambda>p. p\<lparr>state := RUNNABLE, pid := 1\<rparr>) (ptable0\<lparr>nextpid := 2, initproc := Some 0\<rparr>)"
    using assms by (simp add: userinit_table_eq)
  have len: "length (procs ptable0) = NPROC" by (simp add: ptable0_def)
  have at: "proc_at t k = (if k = 0 then proc0\<lparr>state := RUNNABLE, pid := 1\<rparr> else proc0)" if "k < NPROC" for k
    using that proc_at_ptable0 [OF that] by (simp add: t ptab_simps len)
  have eqs: "length (procs t) = NPROC" "nextpid t = 2" "initproc t = Some 0"
    by (simp_all add: t len)
  have "0 < NPROC" by (simp add: NPROC_def)
  then have "pids_ok t" "tree_ok t" "waits_ok t"
    by (auto simp: eqs at used_def live_def proc0_def intro!: pids_okI tree_okI [of _ 0] waits_okI
        split: if_splits)
  moreover have "cpu_inv \<lparr>tab = t, ptlock = None, cproc = (\<lambda>_. None), cpc = (\<lambda>_. Idle)\<rparr>"
    by (auto simp: at proc0_def intro!: cpu_invI split: if_splits)
  ultimately show ?thesis by (simp add: minv_def tab_inv_def eqs)
qed

lemma minv_reachable: "mreachable m \<Longrightarrow> minv m"
  by (induction rule: mreachable.induct) (auto intro: minv_boot minv_step)

section \<open>Properties\<close>

text \<open>A run of the machine used below: CPU 0 picks init and resumes it.\<close>

definition mach_run :: mach where
  "mach_run = \<lparr>tab = upd_proc 0 (\<lambda>p. p\<lparr>pid := 1, state := RUNNING\<rparr>) (ptable0\<lparr>nextpid := 2, initproc := Some 0\<rparr>),
     ptlock = None, cproc = (\<lambda>_. None)(0 := Some 0), cpc = (\<lambda>_. Idle)(0 := InProc)\<rparr>"

lemma mach_run_reachable: "mreachable mach_run"
proof -
  let ?t = "upd_proc 0 (\<lambda>p. p\<lparr>state := RUNNABLE, pid := 1\<rparr>) (ptable0\<lparr>nextpid := 2, initproc := Some 0\<rparr>)"
  let ?m0 = "\<lparr>tab = ?t, ptlock = None, cproc = (\<lambda>_. None), cpc = (\<lambda>_. Idle)\<rparr>"
  let ?m1 = "?m0\<lparr>ptlock := Some 0, cpc := (cpc ?m0)(0 := Scan 0)\<rparr>"
  have N: "0 < NPROC" "length (procs ptable0) = NPROC" by (simp_all add: NPROC_def ptable0_def)
  have pick: "scheduler_pick 0 (tab ?m1) = Some (0, tab mach_run)"
    using N by (simp add: scheduler_pick_def ptab_simps mach_run_def) (simp add: upd_proc_def)
  let ?m2 = "?m1\<lparr>tab := tab mach_run, cproc := (cproc ?m1)(0 := Some 0), cpc := (cpc ?m1)(0 := Switched)\<rparr>"
  have "mreachable ?m0" by (rule mreachable.boot) (rule userinit_table_eq)
  moreover have "mstep ?m0 ?m1" by (rule mstep.round) simp_all
  moreover have "mstep ?m1 ?m2" using N by (intro mstep.pick [where i = 0] pick) simp_all
  moreover have "mstep ?m2 mach_run"
    using mstep.resume [of ?m2 0] by (simp add: mach_run_def)
  ultimately show ?thesis by (blast intro: mreachable.step)
qed

text \<open>C4: no process runs on two CPUs: in every reachable state, the processes in state
  RUNNING are exactly those some CPU has as its current process, and two CPUs never have
  the same one; only the CPU that holds \<open>ptable.lock\<close> is inside the scheduler's scan or a
  context switch.\<close>

theorem scheduler_exclusive:
  assumes "mreachable m"
  shows "(\<forall>c d p. cproc m c = Some p \<longrightarrow> cproc m d = Some p \<longrightarrow> c = d) \<and>
    (\<forall>p < NPROC. state (proc_at (tab m) p) = RUNNING \<longleftrightarrow> (\<exists>c. cproc m c = Some p)) \<and>
    (\<forall>c. ptlock m = Some c \<longleftrightarrow> (\<exists>i. cpc m c = Scan i) \<or> cpc m c = Switched)"
proof -
  have "cpu_inv m" using minv_reachable [OF assms] by (simp add: minv_def)
  then show ?thesis unfolding cpu_inv_def by blast
qed

theorem scheduler_exclusive_witness:
  "state (proc_at (tab mach_run) 0) = RUNNING \<and> (\<exists>!c. cproc mach_run c = Some 0)"
proof -
  have "cproc mach_run 0 = Some 0" by (simp add: mach_run_def)
  moreover have "0 < NPROC" by (simp add: NPROC_def)
  ultimately show ?thesis
    using scheduler_exclusive [OF mach_run_reachable] by blast
qed

text \<open>C24: in every reachable state the pids of the processes that exist are positive, below
  \<open>nextpid\<close> and carried by one slot only, so \<open>kill\<close> of a process's pid succeeds, marks exactly
  that process as killed, makes it runnable when it sleeps, and changes no other slot.\<close>

theorem kill_by_pid:
  assumes "mreachable m" "i < NPROC" "state (proc_at (tab m) i) \<noteq> UNUSED"
  shows "0 < pid (proc_at (tab m) i) \<and> pid (proc_at (tab m) i) < nextpid (tab m) \<and>
    (\<forall>j < NPROC. pid (proc_at (tab m) j) = pid (proc_at (tab m) i) \<longleftrightarrow> j = i) \<and>
    fst (kill (pid (proc_at (tab m) i)) (tab m)) = 0 \<and>
    (\<forall>j < NPROC. proc_at (snd (kill (pid (proc_at (tab m) i)) (tab m))) j =
       (if j \<noteq> i then proc_at (tab m) j
        else (proc_at (tab m) i)\<lparr>killed := True,
          state := (if state (proc_at (tab m) i) = SLEEPING then RUNNABLE else state (proc_at (tab m) i))\<rparr>))"
proof -
  let ?t = "tab m"
  have P: "pids_ok ?t" and len: "length (procs ?t) = NPROC"
    using minv_reachable [OF assms(1)] by (simp_all add: minv_def tab_inv_def)
  have pos: "0 < pid (proc_at ?t i)" "pid (proc_at ?t i) < nextpid ?t"
    using pids_okD(2,3) [OF P] assms(2,3) by (auto simp: used_def)
  have uni: "pid (proc_at ?t j) = pid (proc_at ?t i) \<longleftrightarrow> j = i" if "j < NPROC" for j
    using pids_okD(4) [OF P assms(2) that pos(1)] by metis
  have "find_index (\<lambda>p. pid p = pid (proc_at ?t i)) (procs ?t) = Some i"
    using uni assms(2) len by (auto simp: find_index_Some)
  then have "kill (pid (proc_at ?t i)) ?t = (0, upd_proc i (\<lambda>p. let p = p\<lparr>killed := True\<rparr> in
      if state p = SLEEPING then p\<lparr>state := RUNNABLE\<rparr> else p) ?t)"
    by (simp add: kill_def)
  then have "fst (kill (pid (proc_at ?t i)) ?t) = 0"
    "\<forall>j < NPROC. proc_at (snd (kill (pid (proc_at ?t i)) ?t)) j =
       (if j \<noteq> i then proc_at ?t j
        else (proc_at ?t i)\<lparr>killed := True,
          state := (if state (proc_at ?t i) = SLEEPING then RUNNABLE else state (proc_at ?t i))\<rparr>)"
    using len by (simp_all add: ptab_simps Let_def)
  with pos uni show ?thesis by blast
qed

theorem kill_by_pid_witness:
  "0 < pid (proc_at (tab mach_run) 0) \<and> fst (kill (pid (proc_at (tab mach_run) 0)) (tab mach_run)) = 0"
proof -
  have "state (proc_at (tab mach_run) 0) \<noteq> UNUSED" "0 < NPROC"
    by (simp_all add: mach_run_def upd_proc_def ptable0_def NPROC_def)
  then show ?thesis using kill_by_pid [OF mach_run_reachable, of 0] by blast
qed

text \<open>C8: no exit is missed: in every reachable state a process asleep in \<open>wait\<close> has no
  zombie child, and every zombie has a parent that is alive and can reap it; the parent is
  init when the original parent has exited.\<close>

theorem wait_misses_no_exit:
  assumes "mreachable m" "z < NPROC" "state (proc_at (tab m) z) = ZOMBIE"
  shows "\<exists>p < NPROC. parent (proc_at (tab m) z) = Some p \<and> live (proc_at (tab m) p) \<and>
    \<not> (state (proc_at (tab m) p) = SLEEPING \<and> chan (proc_at (tab m) p) = Some (CProc p))"
proof -
  have T: "tree_ok (tab m)" and W: "waits_ok (tab m)"
    using minv_reachable [OF assms(1)] by (simp_all add: minv_def tab_inv_def)
  obtain r where "initproc (tab m) = Some r" "live (proc_at (tab m) r)" using T by (rule tree_ok_init)
  then have "initproc (tab m) \<noteq> Some z" using assms(3) by (auto simp: live_def)
  then obtain p where p: "parent (proc_at (tab m) z) = Some p"
    using tree_okD(4) [OF T assms(2)] assms(3) by blast
  with tree_okD(1,2) [OF T assms(2) p] waits_okD(2) [OF W, of p z] assms(2,3) show ?thesis by blast
qed

text \<open>A longer run: init forks a child, which CPU 1 runs until it exits.\<close>

definition fork_tab :: ptable where
  "fork_tab = upd_proc 1 (\<lambda>q. q\<lparr>state := RUNNABLE\<rparr>) (upd_proc 1 (\<lambda>q. q\<lparr>parent := Some 0\<rparr>)
     ((upd_proc 1 (\<lambda>p. p\<lparr>state := EMBRYO, pid := 2\<rparr>) (tab mach_run))\<lparr>nextpid := 3\<rparr>))"

definition mach_child :: mach where
  "mach_child = \<lparr>tab = upd_proc 1 (\<lambda>p. p\<lparr>state := RUNNING\<rparr>) fork_tab, ptlock = None,
     cproc = (\<lambda>_. None)(0 := Some 0, 1 := Some 1), cpc = (\<lambda>_. Idle)(0 := InProc, 1 := InProc)\<rparr>"

lemma small_NPROC: "0 < NPROC" "Suc 0 < NPROC" "length (procs ptable0) = NPROC"
  by (simp_all add: NPROC_def ptable0_def)

lemma alloc_mach_run:
  "alloc_slot (tab mach_run) =
     Inr (Some 1, (upd_proc 1 (\<lambda>p. p\<lparr>state := EMBRYO, pid := 2\<rparr>) (tab mach_run))\<lparr>nextpid := 3\<rparr>)"
proof -
  have "find_index (\<lambda>p. state p = UNUSED) (procs (tab mach_run)) = Some 1"
    using small_NPROC by (simp add: find_index_Some mach_run_def ptab_simps) (simp add: proc0_def)
  then show ?thesis by (simp add: alloc_slot_def mach_run_def)
qed

lemma mach_child_reachable: "mreachable mach_child"
proof -
  have N: "Suc 0 < length (procs (tab mach_run))" "0 < length (procs (tab mach_run))"
    using small_NPROC by (simp_all add: mach_run_def)
  let ?m1 = "mach_run\<lparr>tab := (upd_proc 1 (\<lambda>p. p\<lparr>state := EMBRYO, pid := 2\<rparr>) (tab mach_run))\<lparr>nextpid := 3\<rparr>\<rparr>"
  let ?m1p = "?m1\<lparr>tab := upd_proc 1 (\<lambda>q. q\<lparr>parent := Some 0\<rparr>) (tab ?m1)\<rparr>"
  let ?m2 = "?m1\<lparr>tab := fork_tab\<rparr>"
  let ?m3 = "?m2\<lparr>ptlock := Some 1, cpc := (cpc ?m2)(1 := Scan 0)\<rparr>"
  let ?m4 = "?m3\<lparr>cpc := (cpc ?m3)(1 := Scan (Suc 0))\<rparr>"
  let ?m5 = "?m4\<lparr>tab := tab mach_child, cproc := (cproc ?m4)(1 := Some 1), cpc := (cpc ?m4)(1 := Switched)\<rparr>"
  have r: "running mach_run 0 0" "ptlock mach_run = None" by (simp_all add: running_def mach_run_def)
  have s1: "mstep mach_run ?m1" by (rule mstep.alloc [OF r alloc_mach_run])
  have s1p: "mstep ?m1 ?m1p"
    using mstep.fork_parent [of ?m1 0 0 1] r N small_NPROC
    by (simp add: running_def ptab_simps) (simp add: mach_run_def ptab_simps proc0_def)
  have s2: "mstep ?m1p ?m2"
    unfolding fork_tab_def
    using mstep.fork [of ?m1p 0 0 1] r N small_NPROC by (simp add: running_def ptab_simps)
  have s3: "mstep ?m2 ?m3" by (rule mstep.round) (simp_all add: mach_run_def)
  have s4: "mstep ?m3 ?m4"
    using mstep.skip [of ?m3 1 0] small_NPROC N
    by (simp add: scheduler_pick_def fork_tab_def ptab_simps) (simp add: mach_run_def ptab_simps)
  have s5: "mstep ?m4 ?m5"
    using small_NPROC N
    by (intro mstep.pick [where i = 1])
      (simp_all add: scheduler_pick_def fork_tab_def ptab_simps mach_child_def)
  have s6: "mstep ?m5 mach_child"
    using mstep.resume [of ?m5 1] by (simp add: mach_child_def mach_run_def)
  note mreachable.step [OF mreachable.step [OF mreachable.step [OF mreachable.step [OF mach_run_reachable s1] s1p] s2] s3]
  from mreachable.step [OF mreachable.step [OF mreachable.step [OF this s4] s5] s6] show ?thesis .
qed

definition mach_zombie :: mach where
  "mach_zombie = to_sched 1 1 (exit_table 1 (tab mach_child)) mach_child"

lemma mach_zombie_reachable: "mreachable mach_zombie"
proof -
  have "mstep mach_child mach_zombie"
    unfolding mach_zombie_def
    by (rule mstep.exit) (simp_all add: running_def mach_child_def fork_tab_def mach_run_def)
  then show ?thesis using mach_child_reachable by (blast intro: mreachable.step)
qed

lemma mach_zombie_state: "state (proc_at (tab mach_zombie) 1) = ZOMBIE"
  using small_NPROC
  by (simp add: mach_zombie_def to_sched_def proc_at_exit_table mach_child_def fork_tab_def mach_run_def)

theorem wait_misses_no_exit_witness:
  "\<exists>p < NPROC. parent (proc_at (tab mach_zombie) 1) = Some p \<and> live (proc_at (tab mach_zombie) p)"
  using wait_misses_no_exit [OF mach_zombie_reachable, of 1] small_NPROC mach_zombie_state by auto

text \<open>C25: \<open>exit\<close> leaves no orphans and wakes the right sleepers only: after \<open>exit\<close> of process
  \<open>p\<close> the process is a zombie and its children belong to init; of the other processes exactly
  those become runnable that slept on \<open>p\<close>'s parent, or on init when init inherited a zombie,
  which is how these two sleep in \<open>wait\<close>; every other field of every slot, the slots that
  slept on anything else, the pid counter and \<open>initproc\<close> are as before.\<close>

theorem exit_reparents:
  assumes "mreachable m" "running m c p" "initproc (tab m) = Some r" "p \<noteq> r" "k < NPROC"
  shows "proc_at (exit_table p (tab m)) k = (proc_at (tab m) k)\<lparr>
      parent := (if parent (proc_at (tab m) k) = Some p then Some r else parent (proc_at (tab m) k)),
      state := (if k = p then ZOMBIE
        else if state (proc_at (tab m) k) = SLEEPING \<and>
          (\<exists>q. chan (proc_at (tab m) k) = Some (CProc q) \<and>
            (parent (proc_at (tab m) p) = Some q \<or>
             q = r \<and> (\<exists>j < NPROC. parent (proc_at (tab m) j) = Some p \<and> state (proc_at (tab m) j) = ZOMBIE)))
        then RUNNABLE else state (proc_at (tab m) k))\<rparr> \<and>
    nextpid (exit_table p (tab m)) = nextpid (tab m) \<and>
    initproc (exit_table p (tab m)) = initproc (tab m)"
proof -
  have I: "cpu_inv m" "tree_ok (tab m)" and len: "length (procs (tab m)) = NPROC"
    using minv_reachable [OF assms(1)] by (simp_all add: minv_def tab_inv_def)
  have p: "p < NPROC" "live (proc_at (tab m) p)" using running_live [OF I(1) assms(2)] by blast+
  with tree_okD(4) [OF I(2) p(1)] assms(3,4) obtain q where "parent (proc_at (tab m) p) = Some q" by auto
  with assms(3-5) show ?thesis
    by (auto simp: proc_at_exit_table [OF len] zombie_child_def)
qed

text \<open>The same run, with init asleep in \<open>wait\<close> while its child runs.\<close>

definition mach_waits :: mach where
  "mach_waits = to_sched 0 0 (sleep_enter 0 (CProc 0) (tab mach_child)) mach_child"

lemma mach_waits_reachable: "mreachable mach_waits"
proof -
  have at: "proc_at (tab mach_child) 1 = proc0\<lparr>state := RUNNING, pid := 2, parent := Some 0\<rparr>"
      "proc_at (tab mach_child) 0 = proc0\<lparr>state := RUNNING, pid := 1\<rparr>"
      "length (procs (tab mach_child)) = NPROC"
    using small_NPROC by (simp_all add: mach_child_def fork_tab_def mach_run_def ptab_simps)
  have "wait_scan 0 0 False (procs (tab mach_child)) = Inr True"
  proof (cases "wait_scan 0 0 False (procs (tab mach_child))")
    case (Inl z)
    then have z: "z < NPROC" "state (proc_at (tab mach_child) z) = ZOMBIE"
      using wait_scan_Inl [OF Inl] at(3) by auto
    then show ?thesis using small_NPROC
      by (simp add: mach_child_def fork_tab_def mach_run_def ptab_simps proc0_def split: if_splits)
  next
    case (Inr b)
    with wait_scan_Inr [OF this] at small_NPROC nth_mem [of 1 "procs (tab mach_child)"] show ?thesis by force
  qed
  then have "mstep mach_child mach_waits"
    unfolding mach_waits_def
    by (rule mstep.wait_sleep [rotated 2]) (simp_all add: running_def at, simp_all add: mach_child_def proc0_def)
  then show ?thesis using mach_child_reachable by (blast intro: mreachable.step)
qed

theorem exit_reparents_witness:
  "state (proc_at (exit_table 1 (tab mach_waits)) 1) = ZOMBIE \<and>
   state (proc_at (exit_table 1 (tab mach_waits)) 0) = RUNNABLE"
  using exit_reparents [OF mach_waits_reachable, of 1 1 0 0] exit_reparents [OF mach_waits_reachable, of 1 1 0 1]
    small_NPROC
  by (simp add: running_def mach_waits_def to_sched_def sleep_enter_def mach_child_def fork_tab_def
      mach_run_def ptab_simps)

end
