(* ===== verification/Xv6_Sched.thy ===== *)
theory Xv6_Sched
  imports Xv6_Ptable
begin

text \<open>
  Giving up the CPU (the rest of the scheduling code of Xv6-Syscall/src/proc.c) and sleep
  locks (sleeplock.c).  The first part runs \<open>mycpu\<close>, \<open>myproc\<close>, \<open>sched\<close>, \<open>yield\<close> and
  \<open>sleep\<close> with the per-CPU interrupt state and the spin locks of \<open>Xv6_Spinlock\<close>, so that
  every check of \<open>sched\<close> is made on the state the code would have.  The second part is one
  round of the scheduler, the third the step relation of the sleep locks.
\<close>

section \<open>Entering the scheduler\<close>

record pcpu = cpu +
  apicid :: uchar
  cpu_proc :: "nat option"

text \<open>The spin locks the code of this file sees; number 0 is \<open>ptable.lock\<close>.\<close>

record kst =
  ktab :: ptable
  kcpus :: "pcpu list"
  klocks :: "nat \<Rightarrow> spinlock"

abbreviation PTLOCK :: nat where "PTLOCK \<equiv> 0"

text \<open>\<open>mycpu\<close> on the CPU whose interrupt flag is \<open>ie\<close> and whose local APIC reads \<open>lapicid\<close>.\<close>

definition mycpu :: "uchar \<Rightarrow> bool \<Rightarrow> pcpu list \<Rightarrow> nat res" where
  "mycpu lapicid ie cs =
     (if ie then panic ''mycpu called with interrupts enabled''
      else case find_index (\<lambda>u. apicid u = lapicid) cs of
        Some i \<Rightarrow> Inr i
      | None \<Rightarrow> panic ''unknown apicid'')"

text \<open>In the definitions below \<open>h\<close> is the CPU that runs the code.\<close>

abbreviation cpu_at :: "kst \<Rightarrow> nat \<Rightarrow> pcpu" where
  "cpu_at s h \<equiv> kcpus s ! h"

definition put_cpu :: "nat \<Rightarrow> pcpu \<Rightarrow> kst \<Rightarrow> kst" where
  "put_cpu h u s = s\<lparr>kcpus := (kcpus s)[h := u]\<rparr>"

definition myproc :: "uchar \<Rightarrow> nat \<Rightarrow> kst \<Rightarrow> (nat option \<times> kst) res" where
  "myproc lapicid h s =
     (let s = put_cpu h (pushcli (cpu_at s h)) s in
      bindE (mycpu lapicid (eflags_if (cpu_at s h)) (kcpus s)) (\<lambda>c.
        let p = cpu_proc (cpu_at s c) in
        bindE (popcli (cpu_at s h)) (\<lambda>u. Inr (p, put_cpu h u s))))"

definition acquire_k :: "uint list \<Rightarrow> nat \<Rightarrow> nat \<Rightarrow> kst \<Rightarrow> kst res" where
  "acquire_k stk h l s =
     bindE (acquire h stk (cpu_at s h) (klocks s l)) (\<lambda>(u, lk).
       Inr ((put_cpu h u s)\<lparr>klocks := (klocks s)(l := lk)\<rparr>))"

definition release_k :: "nat \<Rightarrow> nat \<Rightarrow> kst \<Rightarrow> kst res" where
  "release_k h l s =
     bindE (release h (cpu_at s h) (klocks s l)) (\<lambda>(u, lk).
       Inr ((put_cpu h u s)\<lparr>klocks := (klocks s)(l := lk)\<rparr>))"

text \<open>\<open>sched\<close> up to the call of \<open>swtch\<close>; the result carries the saved \<open>intena\<close>.\<close>

definition sched :: "uchar \<Rightarrow> nat \<Rightarrow> kst \<Rightarrow> (bool \<times> kst) res" where
  "sched lapicid h s =
     bindE (myproc lapicid h s) (\<lambda>(p, s).
     bindE (holding h (cpu_at s h) (klocks s PTLOCK)) (\<lambda>(held, u).
       let s = put_cpu h u s in
       if \<not> held then panic ''sched ptable.lock''
       else bindE (mycpu lapicid (eflags_if (cpu_at s h)) (kcpus s)) (\<lambda>c.
         if ncli (cpu_at s c) \<noteq> 1 then panic ''sched locks''
         else case p of None \<Rightarrow> Inl (Undef ''p->state'')
         | Some p \<Rightarrow>
             if state (proc_at (ktab s) p) = RUNNING then panic ''sched running''
             else if eflags_if (cpu_at s h) then panic ''sched interruptible''
             else bindE (mycpu lapicid (eflags_if (cpu_at s h)) (kcpus s)) (\<lambda>c.
               Inr (intena (cpu_at s c), s)))))"

text \<open>\<open>sched\<close> after \<open>swtch\<close> returns, on the CPU the process is then on.\<close>

definition sched_return :: "uchar \<Rightarrow> nat \<Rightarrow> bool \<Rightarrow> kst \<Rightarrow> kst res" where
  "sched_return lapicid h ie s =
     bindE (mycpu lapicid (eflags_if (cpu_at s h)) (kcpus s)) (\<lambda>c.
       Inr (put_cpu c ((cpu_at s c)\<lparr>intena := ie\<rparr>) s))"

text \<open>\<open>yield\<close> and \<open>sleep\<close> up to the switch.  The lock argument of \<open>sleep\<close> is the number of
  a spin lock, or \<open>None\<close> for a null pointer.\<close>

definition yield :: "uchar \<Rightarrow> nat \<Rightarrow> uint list \<Rightarrow> kst \<Rightarrow> (bool \<times> kst) res" where
  "yield lapicid h stk s =
     bindE (acquire_k stk h PTLOCK s) (\<lambda>s.
     bindE (myproc lapicid h s) (\<lambda>(p, s).
       case p of None \<Rightarrow> Inl (Undef ''myproc()->state'')
       | Some p \<Rightarrow> sched lapicid h (s\<lparr>ktab := yield_enter p (ktab s)\<rparr>)))"

text \<open>\<open>sleep\<close> between its checks and its call of \<open>sched\<close>, statement by statement.\<close>

definition sleep_steps :: "nat \<Rightarrow> uint list \<Rightarrow> chan \<Rightarrow> nat \<Rightarrow> nat \<Rightarrow> (kst \<Rightarrow> kst res) list" where
  "sleep_steps h stk ch p l =
     (if l \<noteq> PTLOCK then [acquire_k stk h PTLOCK, release_k h l] else []) @
     [\<lambda>s. Inr (s\<lparr>ktab := upd_proc p (\<lambda>q. q\<lparr>chan := Some ch\<rparr>) (ktab s)\<rparr>),
      \<lambda>s. Inr (s\<lparr>ktab := upd_proc p (\<lambda>q. q\<lparr>state := SLEEPING\<rparr>) (ktab s)\<rparr>)]"

definition sleep :: "uchar \<Rightarrow> nat \<Rightarrow> uint list \<Rightarrow> chan \<Rightarrow> nat option \<Rightarrow> kst \<Rightarrow> (bool \<times> kst) res" where
  "sleep lapicid h stk ch lk s =
     bindE (myproc lapicid h s) (\<lambda>(p, s).
       case p of None \<Rightarrow> panic ''sleep''
       | Some p \<Rightarrow>
         (case lk of None \<Rightarrow> panic ''sleep without lk''
          | Some l \<Rightarrow> bindE (foldE (\<lambda>f. f) (sleep_steps h stk ch p l) s) (sched lapicid h)))"

text \<open>The tail of \<open>sleep\<close>, once the process has been switched back in.\<close>

definition sleep_tail :: "nat \<Rightarrow> uint list \<Rightarrow> nat \<Rightarrow> nat \<Rightarrow> kst \<Rightarrow> kst res" where
  "sleep_tail h stk p l s =
     (let s = s\<lparr>ktab := sleep_leave p (ktab s)\<rparr> in
      if l \<noteq> PTLOCK then bindE (release_k h PTLOCK s) (acquire_k stk h l) else Inr s)"

section \<open>What they do on a consistent CPU\<close>

text \<open>The CPU that runs the code is the one its APIC id names, and its nesting count is in order.\<close>

definition cpu_here :: "uchar \<Rightarrow> nat \<Rightarrow> kst \<Rightarrow> bool" where
  "cpu_here lapicid h s \<longleftrightarrow> h < length (kcpus s) \<and>
     find_index (\<lambda>u. apicid u = lapicid) (kcpus s) = Some h \<and> cpu_ok (cpu_at s h)"

lemma upd_proc_upd: "upd_proc i f (upd_proc i g t) = upd_proc i (\<lambda>p. f (g p)) t"
  by (cases "i < length (procs t)") (simp_all add: upd_proc_def not_less list_update_beyond)

lemma find_index_map: "find_index P (map f xs) = find_index (\<lambda>x. P (f x)) xs"
  by (induction xs) auto

lemma find_apicid_upd:
  assumes "apicid u = apicid (cs ! h)"
  shows "find_index (\<lambda>u. apicid u = a) (cs[h := u]) = find_index (\<lambda>u. apicid u = a) cs"
proof -
  have "map apicid (cs[h := u]) = map apicid cs"
    using assms by (simp add: map_update list_update_same_conv)
      (metis length_map list_update_beyond list_update_id linorder_not_le nth_map)
  then show ?thesis using find_index_map [of "\<lambda>x. x = a" apicid] by metis
qed

lemma cpu_fields [simp]:
  "apicid (pushcli u) = apicid u" "cpu_proc (pushcli u) = cpu_proc u"
  by (simp_all add: pushcli_def Let_def)

lemma put_cpu_simps [simp]:
  "ktab (put_cpu h u s) = ktab s" "klocks (put_cpu h u s) = klocks s"
  "length (kcpus (put_cpu h u s)) = length (kcpus s)"
  "h < length (kcpus s) \<Longrightarrow> cpu_at (put_cpu h u s) h = u"
  "put_cpu h (cpu_at s h) s = s" "put_cpu h v (put_cpu h u s) = put_cpu h v s"
  by (simp_all add: put_cpu_def)

lemma cpu_here_put:
  "cpu_here a h s \<Longrightarrow> apicid u = apicid (cpu_at s h) \<Longrightarrow> cpu_ok u \<Longrightarrow> cpu_here a h (put_cpu h u s)"
  by (simp add: cpu_here_def find_apicid_upd) (simp add: put_cpu_def find_apicid_upd)

lemma mycpu_here:
  assumes "cpu_here a h s"
  shows "mycpu a False (kcpus s) = Inr h"
  using assms by (simp add: mycpu_def cpu_here_def)

lemma myproc_here:
  assumes "cpu_here a h s"
  shows "myproc a h s = Inr (cpu_proc (cpu_at s h),
    put_cpu h ((cpu_at s h)\<lparr>intena := intena (pushcli (cpu_at s h))\<rparr>) s)"
proof -
  have h: "h < length (kcpus s)" "cpu_ok (cpu_at s h)" using assms by (simp_all add: cpu_here_def)
  have "cpu_here a h (put_cpu h (pushcli (cpu_at s h)) s)"
    using assms h by (intro cpu_here_put) (simp_all add: cpu_ok_pushcli)
  from mycpu_here [OF this] h popcli_pushcli [OF h(2)] show ?thesis
    by (simp add: myproc_def Let_def)
qed

lemma intena_inner: "0 < ncli u \<Longrightarrow> u\<lparr>intena := intena (pushcli u)\<rparr> = u"
  by (simp add: intena_pushcli)

lemma myproc_inner:
  "cpu_here a h s \<Longrightarrow> 0 < ncli (cpu_at s h) \<Longrightarrow> myproc a h s = Inr (cpu_proc (cpu_at s h), s)"
  by (simp add: myproc_here intena_inner)

lemma holding_inner:
  assumes "cpu_ok u" "0 < ncli u"
  shows "holding h u lk = Inr (spin_locked lk \<noteq> 0 \<and> spin_cpu lk = Some h, u)"
  using popcli_pushcli_inner [OF assms] by (simp add: holding_def Let_def)

lemma acquire_free:
  assumes "cpu_ok u" "spin_locked lk = 0"
  shows "acquire h stk u lk = Inr (pushcli u, lk\<lparr>spin_locked := 1, spin_cpu := Some h, spin_pcs := stk\<rparr>)"
proof -
  have "0 < ncli (pushcli u)" "cpu_ok (pushcli u)" using assms by (auto simp: cpu_ok_def)
  then show ?thesis using assms by (simp add: acquire_def holding_inner xchg_def)
qed

text \<open>Every check of \<open>sched\<close>, in the order the code makes them.\<close>

lemma sched_here:
  assumes "cpu_here a h s" "0 < ncli (cpu_at s h)"
  shows "sched a h s =
    (if \<not> (spin_locked (klocks s PTLOCK) \<noteq> 0 \<and> spin_cpu (klocks s PTLOCK) = Some h)
     then panic ''sched ptable.lock''
     else if ncli (cpu_at s h) \<noteq> 1 then panic ''sched locks''
     else case cpu_proc (cpu_at s h) of None \<Rightarrow> Inl (Undef ''p->state'')
       | Some p \<Rightarrow> if state (proc_at (ktab s) p) = RUNNING then panic ''sched running''
           else Inr (intena (cpu_at s h), s))"
proof -
  have "\<not> eflags_if (cpu_at s h)" "cpu_ok (cpu_at s h)" "h < length (kcpus s)"
    using assms by (auto simp: cpu_here_def cpu_ok_def)
  with assms show ?thesis
    by (simp add: sched_def myproc_inner holding_inner mycpu_here Let_def split: option.split)
qed

text \<open>A spin lock held by CPU \<open>h\<close>.\<close>

definition holds :: "nat \<Rightarrow> kst \<Rightarrow> nat \<Rightarrow> bool" where
  "holds h s l \<longleftrightarrow> spin_locked (klocks s l) \<noteq> 0 \<and> spin_cpu (klocks s l) = Some h"

text \<open>The states between the statements of \<open>sleep\<close>.\<close>

lemma sleep_states:
  fixes stk :: "uint list"
  assumes "cpu_here a h s" "l \<noteq> PTLOCK" "holds h s l" "spin_locked (klocks s PTLOCK) = 0" "0 < ncli (cpu_at s h)"
  defines "pl \<equiv> (klocks s)(PTLOCK := (klocks s PTLOCK)\<lparr>spin_locked := 1, spin_cpu := Some h, spin_pcs := stk\<rparr>)"
  defines "s1 \<equiv> (put_cpu h (pushcli (cpu_at s h)) s)\<lparr>klocks := pl\<rparr>"
  defines "s2 \<equiv> s\<lparr>klocks := pl(l := (klocks s l)\<lparr>spin_pcs := (spin_pcs (klocks s l))[0 := 0],
    spin_cpu := None, spin_locked := 0\<rparr>)\<rparr>"
  shows "acquire_k stk h PTLOCK s = Inr s1" "release_k h l s1 = Inr s2" "holds h s1 l" "holds h s1 PTLOCK" "holds h s2 PTLOCK"
proof -
  let ?u = "cpu_at s h"
  have h: "h < length (kcpus s)" "cpu_ok ?u" using assms(1) by (simp_all add: cpu_here_def)
  have pu: "0 < ncli (pushcli ?u)" "cpu_ok (pushcli ?u)" using h assms(5) by (auto simp: cpu_ok_def)
  show "acquire_k stk h PTLOCK s = Inr s1"
    using assms(2-5) h by (simp add: acquire_k_def acquire_free s1_def pl_def)
  show "release_k h l s1 = Inr s2"
    using assms(2-5) h pu popcli_pushcli_inner [OF h(2) assms(5)]
    by (simp add: release_k_def release_def holding_inner put_cpu_def Let_def fun_upd_twist holds_def
        s1_def s2_def pl_def)
  show "holds h s1 l" "holds h s1 PTLOCK" "holds h s2 PTLOCK"
    using assms(2,3) by (simp_all add: holds_def s1_def s2_def pl_def)
qed

lemma sleep_steps_gapless:
  assumes "cpu_here a h s" "l \<noteq> PTLOCK" "holds h s l" "spin_locked (klocks s PTLOCK) = 0" "0 < ncli (cpu_at s h)"
    "k \<le> length (sleep_steps h stk ch p l)"
  shows "\<exists>t. foldE (\<lambda>f. f) (take k (sleep_steps h stk ch p l)) s = Inr t \<and>
    (holds h t l \<or> holds h t PTLOCK) \<and> (ktab t \<noteq> ktab s \<longrightarrow> holds h t PTLOCK)"
proof -
  note S = sleep_states [OF assms(1-5), of stk]
  have "k = 0 \<or> k = 1 \<or> k = 2 \<or> k = 3 \<or> k = 4"
    using assms(2,6) by (auto simp: sleep_steps_def)
  then show ?thesis
    using assms(2,3) S by (elim disjE) (simp_all add: sleep_steps_def numeral_eq_Suc, simp_all add: holds_def)
qed

text \<open>C21: \<open>sleep\<close> hands over its lock without a gap.  Called with the lock \<open>lk\<close> held and
  \<open>ptable.lock\<close> free, every one of its statements succeeds, and after every one of them the CPU
  still holds \<open>lk\<close> or already holds \<open>ptable.lock\<close>, the latter whenever the table has changed; so a
  \<open>wakeup\<close>, which needs both, cannot run in between.  With \<open>lk\<close> as the only spin lock it
  ends in \<open>swtch\<close> with \<open>ptable.lock\<close> held, \<open>lk\<close> free, the process marked SLEEPING on the
  channel, and the interrupt state of the CPU as it was; with a further spin lock held it panics.\<close>

theorem sleep_hands_over:
  assumes "cpu_here a h s" "cpu_proc (cpu_at s h) = Some p" "p < length (procs (ktab s))"
    "l \<noteq> PTLOCK" "spin_locked (klocks s l) \<noteq> 0" "spin_cpu (klocks s l) = Some h"
    "spin_locked (klocks s PTLOCK) = 0" "0 < ncli (cpu_at s h)"
  shows "(\<forall>k \<le> length (sleep_steps h stk ch p l).
      \<exists>t. foldE (\<lambda>f. f) (take k (sleep_steps h stk ch p l)) s = Inr t \<and>
        (holds h t l \<or> holds h t PTLOCK) \<and> (ktab t \<noteq> ktab s \<longrightarrow> holds h t PTLOCK)) \<and>
    sleep a h stk ch (Some l) s =
    (if ncli (cpu_at s h) = 1
     then Inr (intena (cpu_at s h), s\<lparr>ktab := sleep_enter p ch (ktab s),
       klocks := (klocks s)(
         PTLOCK := (klocks s PTLOCK)\<lparr>spin_locked := 1, spin_cpu := Some h, spin_pcs := stk\<rparr>,
         l := (klocks s l)\<lparr>spin_pcs := (spin_pcs (klocks s l))[0 := 0], spin_cpu := None,
                spin_locked := 0\<rparr>)\<rparr>)
     else panic ''sched locks'')"
proof
  have H: "holds h s l" using assms(5,6) by (simp add: holds_def)
  show "\<forall>k \<le> length (sleep_steps h stk ch p l).
      \<exists>t. foldE (\<lambda>f. f) (take k (sleep_steps h stk ch p l)) s = Inr t \<and>
        (holds h t l \<or> holds h t PTLOCK) \<and> (ktab t \<noteq> ktab s \<longrightarrow> holds h t PTLOCK)"
    using sleep_steps_gapless [OF assms(1,4) H assms(7,8)] by blast
  note S = sleep_states [OF assms(1,4) H assms(7,8), of stk]
  let ?K = "(klocks s)(
    PTLOCK := (klocks s PTLOCK)\<lparr>spin_locked := 1, spin_cpu := Some h, spin_pcs := stk\<rparr>,
    l := (klocks s l)\<lparr>spin_pcs := (spin_pcs (klocks s l))[0 := 0], spin_cpu := None, spin_locked := 0\<rparr>)"
  let ?s2 = "s\<lparr>klocks := ?K\<rparr>"
  have e: "foldE (\<lambda>f. f) (sleep_steps h stk ch p l) s = Inr (?s2\<lparr>ktab := sleep_enter p ch (ktab s)\<rparr>)"
    using S(1,2) assms(4) by (simp add: sleep_steps_def sleep_enter_def upd_proc_upd)
  have "cpu_here a h (?s2\<lparr>ktab := sleep_enter p ch (ktab s)\<rparr>)"
    using assms(1) by (simp add: cpu_here_def)
  from sched_here [OF this] assms(2-4,8) e myproc_inner [OF assms(1,8)]
  show "sleep a h stk ch (Some l) s =
    (if ncli (cpu_at s h) = 1
     then Inr (intena (cpu_at s h), s\<lparr>ktab := sleep_enter p ch (ktab s), klocks := ?K\<rparr>)
     else panic ''sched locks'')"
    by (simp add: sleep_def sleep_enter_def proc_at_upd)
qed

definition sleepy :: kst where
  "sleepy = \<lparr>ktab = tab mach_run,
     kcpus = [\<lparr>eflags_if = False, ncli = 1, intena = True, apicid = 0, cpu_proc = Some 0\<rparr>],
     klocks = (\<lambda>_. \<lparr>spin_locked = 0, spin_cpu = None, spin_pcs = replicate 10 0\<rparr>)
       (3 := \<lparr>spin_locked = 1, spin_cpu = Some 0, spin_pcs = replicate 10 7\<rparr>)\<rparr>"

theorem sleep_hands_over_witness:
  "(\<exists>t. foldE (\<lambda>f. f) (take 2 (sleep_steps 0 [] CLog 0 3)) sleepy = Inr t \<and> (holds 0 t 3 \<or> holds 0 t PTLOCK)) \<and>
   (\<exists>s'. sleep 0 0 [] CLog (Some 3) sleepy = Inr (True, s') \<and> ktab s' = sleep_enter 0 CLog (tab mach_run))"
proof -
  have "0 < length (procs (ktab sleepy))" using small_NPROC by (simp add: sleepy_def mach_run_def)
  then have H: "cpu_here 0 0 sleepy \<and> cpu_proc (cpu_at sleepy 0) = Some 0 \<and> 0 < length (procs (ktab sleepy)) \<and>
      (3::nat) \<noteq> PTLOCK \<and> spin_locked (klocks sleepy 3) \<noteq> 0 \<and> spin_cpu (klocks sleepy 3) = Some 0 \<and>
      spin_locked (klocks sleepy PTLOCK) = 0 \<and> 0 < ncli (cpu_at sleepy 0)"
    by (simp add: sleepy_def cpu_here_def cpu_ok_def)
  note W = sleep_hands_over [of 0 0 sleepy 0 3 "[]" CLog]
  have "2 \<le> length (sleep_steps 0 [] CLog 0 3)" by (simp add: sleep_steps_def)
  with W H have "\<exists>t. foldE (\<lambda>f. f) (take 2 (sleep_steps 0 [] CLog 0 3)) sleepy = Inr t \<and>
      (holds 0 t 3 \<or> holds 0 t PTLOCK)" by blast
  moreover have "\<exists>s'. sleep 0 0 [] CLog (Some 3) sleepy = Inr (True, s') \<and> ktab s' = sleep_enter 0 CLog (tab mach_run)"
    using W H by (simp add: sleepy_def)
  ultimately show ?thesis by blast
qed

section \<open>One round of the scheduler\<close>

text \<open>The body of \<open>scheduler\<close>'s endless loop on one CPU.  \<open>beh q t\<close> is what happens to the
  table between the switch to process \<open>q\<close> and the switch back, by \<open>q\<close> and by the other CPUs.\<close>

function scheduler_round :: "(nat \<Rightarrow> ptable \<Rightarrow> ptable) \<Rightarrow> nat \<Rightarrow> ptable \<Rightarrow> nat list \<times> ptable" where
  "scheduler_round beh i t =
     (if i < NPROC then
        (case scheduler_pick i t of
           None \<Rightarrow> scheduler_round beh (Suc i) t
         | Some (p, t) \<Rightarrow>
             let (ps, t) = scheduler_round beh (Suc i) (beh p t) in (p # ps, t))
      else ([], t))"
  by auto
termination by (relation "measure (\<lambda>(beh, i, t). NPROC - i)") auto

declare scheduler_round.simps [simp del]

lemma scheduler_round_unfold:
  "\<not> i < NPROC \<Longrightarrow> scheduler_round beh i t = ([], t)"
  "i < NPROC \<Longrightarrow> state (proc_at t i) \<noteq> RUNNABLE \<Longrightarrow>
     scheduler_round beh i t = scheduler_round beh (Suc i) t"
  "i < NPROC \<Longrightarrow> state (proc_at t i) = RUNNABLE \<Longrightarrow>
     fst (scheduler_round beh i t) =
       i # fst (scheduler_round beh (Suc i) (beh i (upd_proc i (\<lambda>p. p\<lparr>state := RUNNING\<rparr>) t)))"
  by (subst scheduler_round.simps; simp add: scheduler_pick_def Let_def split: prod.split)+

lemma scheduler_round_cases:
  fixes i :: nat and t :: ptable
  obtains "\<not> i < NPROC" | "i < NPROC" "state (proc_at t i) \<noteq> RUNNABLE"
    | "i < NPROC" "state (proc_at t i) = RUNNABLE"
  by blast

lemma distinct_count_list: "distinct xs \<Longrightarrow> count_list xs x = (if x \<in> set xs then 1 else 0)"
  by (induction xs) auto

text \<open>A round visits the slots in increasing order.\<close>

lemma scheduler_round_sorted:
  "sorted_wrt (<) (fst (scheduler_round beh i t)) \<and>
     (\<forall>q \<in> set (fst (scheduler_round beh i t)). i \<le> q \<and> q < NPROC)"
proof (induction "NPROC - i" arbitrary: i t rule: less_induct)
  case less
  show ?case
  proof (rule scheduler_round_cases [where i = i and t = t])
    assume "\<not> i < NPROC"
    then show ?thesis by (simp add: scheduler_round_unfold)
  next
    assume i: "i < NPROC" "state (proc_at t i) \<noteq> RUNNABLE"
    then have "sorted_wrt (<) (fst (scheduler_round beh (Suc i) t)) \<and>
        (\<forall>q \<in> set (fst (scheduler_round beh (Suc i) t)). Suc i \<le> q \<and> q < NPROC)"
      by (intro less) simp
    then show ?thesis unfolding scheduler_round_unfold(2) [OF i] by (metis Suc_leD)
  next
    assume i: "i < NPROC" "state (proc_at t i) = RUNNABLE"
    let ?t = "beh i (upd_proc i (\<lambda>p. p\<lparr>state := RUNNING\<rparr>) t)"
    have "sorted_wrt (<) (fst (scheduler_round beh (Suc i) ?t)) \<and>
        (\<forall>q \<in> set (fst (scheduler_round beh (Suc i) ?t)). Suc i \<le> q \<and> q < NPROC)"
      using i by (intro less) simp
    with i(1) show ?thesis unfolding scheduler_round_unfold(3) [OF i]
      by (metis Suc_leD Suc_le_eq le_refl list.set_intros(1) set_ConsD sorted_wrt.simps(2))
  qed
qed

text \<open>The rest of the machine leaves process \<open>p\<close> runnable.\<close>

definition keeps_runnable :: "nat \<Rightarrow> (nat \<Rightarrow> ptable \<Rightarrow> ptable) \<Rightarrow> bool" where
  "keeps_runnable p beh \<longleftrightarrow>
     (\<forall>q u. q \<noteq> p \<and> length (procs u) = NPROC \<and> state (proc_at u p) = RUNNABLE \<longrightarrow>
        length (procs (beh q u)) = NPROC \<and> state (proc_at (beh q u) p) = RUNNABLE)"

lemma scheduler_round_picks:
  assumes "keeps_runnable p beh" "i \<le> p" "p < NPROC" "length (procs t) = NPROC"
    "state (proc_at t p) = RUNNABLE"
  shows "p \<in> set (fst (scheduler_round beh i t))"
  using assms(2-)
proof (induction "NPROC - i" arbitrary: i t rule: less_induct)
  case less
  show ?case
  proof (cases "i = p")
    case True
    then show ?thesis using less.prems by (simp add: scheduler_round_unfold)
  next
    case False
    then have i: "i < NPROC" "Suc i \<le> p" using less.prems by simp_all
    show ?thesis
    proof (cases "state (proc_at t i) = RUNNABLE")
      case True
      let ?u = "upd_proc i (\<lambda>p. p\<lparr>state := RUNNING\<rparr>) t"
      have "length (procs ?u) = NPROC" "state (proc_at ?u p) = RUNNABLE"
        using less.prems False by (simp_all add: proc_at_upd)
      then have "length (procs (beh i ?u)) = NPROC \<and> state (proc_at (beh i ?u) p) = RUNNABLE"
        using assms(1) False unfolding keeps_runnable_def by blast
      then have "p \<in> set (fst (scheduler_round beh (Suc i) (beh i ?u)))"
        using less.prems i by (intro less.hyps) simp_all
      with True i show ?thesis by (simp add: scheduler_round_unfold)
    next
      case False
      with less.prems i show ?thesis
        using less.hyps [of "Suc i" t] by (simp add: scheduler_round_unfold)
    qed
  qed
qed

text \<open>C20: the scheduler is fair: in one round a CPU runs every process at most once, in the
  order of the table, and a process that is runnable and that the rest of the machine
  leaves runnable is run in that round.\<close>

theorem scheduler_round_fair:
  assumes "p < NPROC" "length (procs t) = NPROC" "state (proc_at t p) = RUNNABLE"
    "keeps_runnable p beh"
  shows "count_list (fst (scheduler_round beh 0 t)) p = 1 \<and>
    sorted_wrt (<) (fst (scheduler_round beh 0 t))"
proof -
  have "p \<in> set (fst (scheduler_round beh 0 t))"
    using assms by (intro scheduler_round_picks) simp_all
  moreover have s: "sorted_wrt (<) (fst (scheduler_round beh 0 t))"
    using scheduler_round_sorted by blast
  then have "distinct (fst (scheduler_round beh 0 t))" by (simp add: strict_sorted_iff)
  ultimately have "count_list (fst (scheduler_round beh 0 t)) p = 1" by (simp add: distinct_count_list)
  with s show ?thesis by simp
qed

theorem scheduler_round_fair_witness:
  "count_list (fst (scheduler_round (\<lambda>q t. yield_enter q t) 0 (tab mach_child\<lparr>procs := replicate NPROC (proc0\<lparr>state := RUNNABLE\<rparr>)\<rparr>))) 5 = 1"
proof -
  have "keeps_runnable 5 (\<lambda>q t. yield_enter q t)"
    by (auto simp: keeps_runnable_def yield_enter_def NPROC_def proc_at_upd)
  then show ?thesis
    using scheduler_round_fair [of 5 "tab mach_child\<lparr>procs := replicate NPROC (proc0\<lparr>state := RUNNABLE\<rparr>)\<rparr>"
        "\<lambda>q t. yield_enter q t"]
    by (simp add: NPROC_def)
qed

section \<open>Sleep locks\<close>

record sleeplock =
  sl_locked :: bool
  sl_pid :: int

definition initsleeplock :: "sleeplock \<Rightarrow> sleeplock" where
  "initsleeplock lk = lk\<lparr>sl_locked := False, sl_pid := 0\<rparr>"

text \<open>As one process runs them under the lock's spin lock; \<open>me\<close> is the pid of the current
  process.  \<open>acquiresleep\<close> on a lock that is taken sleeps.\<close>

definition acquiresleep :: "int \<Rightarrow> sleeplock \<Rightarrow> sleeplock res" where
  "acquiresleep me lk = (if sl_locked lk then Inl (Block ''sleeplock'')
     else Inr (lk\<lparr>sl_locked := True, sl_pid := me\<rparr>))"

definition releasesleep :: "nat \<Rightarrow> sleeplock \<Rightarrow> ptable \<Rightarrow> sleeplock \<times> ptable" where
  "releasesleep i lk t = (lk\<lparr>sl_locked := False, sl_pid := 0\<rparr>, wakeup (CSleeplock i) t)"

definition holdingsleep :: "int \<Rightarrow> sleeplock \<Rightarrow> bool" where
  "holdingsleep me lk \<longleftrightarrow> sl_locked lk \<and> sl_pid lk = me"

text \<open>The same code with its critical sections apart, for any number of processes on one sleep
  lock.  \<open>Want\<close>: in \<open>acquire(&lk->lk)\<close> of \<open>acquiresleep\<close> or of the tail of \<open>sleep\<close>;
  \<open>Check\<close>: at the test of the loop; \<open>Prep\<close>: in \<open>sleep\<close>, before \<open>ptable.lock\<close> is taken;
  \<open>Both\<close>: both locks held; \<open>Pt\<close>: the spin lock of the sleep lock released; \<open>Asleep\<close>;
  \<open>Woken\<close>: made runnable; \<open>Crit\<close>: owner of the sleep lock; \<open>RelWant\<close>: in \<open>acquire\<close> of
  \<open>releasesleep\<close>; \<open>RelSet\<close>: the fields cleared, before \<open>wakeup\<close>; \<open>RelDone\<close>: after it.\<close>

datatype slpc = Out | Want | Check | Prep | Both | Pt | Asleep | Woken | Crit
  | RelWant | RelSet | RelDone

record slst =
  slk :: sleeplock
  sl_spin :: "nat option"
  sl_pt :: "nat option"
  slpcs :: "nat \<Rightarrow> slpc"

text \<open>The flag says that the step is a choice of the environment: a process starts to use the
  lock, or \<open>kill\<close> wakes a sleeper.\<close>

text \<open>What the \<open>wakeup\<close> of \<open>releasesleep\<close> does to a process on the lock, read off its slot of the
  table, which \<open>acquiresleep\<close> has put to sleep on the lock.\<close>

definition sl_woken :: "sleeplock \<Rightarrow> slpc \<Rightarrow> slpc" where
  "sl_woken lk pc =
     (if pc = Asleep \<and>
         state (proc_at (snd (releasesleep 0 lk (sleep_enter 0 (CSleeplock 0) ptable0))) 0) = RUNNABLE
      then Woken else pc)"

lemma sl_woken [simp]: "sl_woken lk pc = (if pc = Asleep then Woken else pc)"
  using small_NPROC by (simp add: sl_woken_def releasesleep_def wakeup_def sleep_enter_def ptab_simps)

inductive sl_step :: "bool \<Rightarrow> slst \<Rightarrow> slst \<Rightarrow> bool" where
  enter: "slpcs s p = Out \<Longrightarrow> sl_step True s (s\<lparr>slpcs := (slpcs s)(p := Want)\<rparr>)"
| kill: "slpcs s p = Asleep \<Longrightarrow> sl_pt s = None \<Longrightarrow>
     sl_step True s (s\<lparr>slpcs := (slpcs s)(p := Woken)\<rparr>)"
| spin: "slpcs s p = Want \<Longrightarrow> sl_spin s = None \<Longrightarrow>
     sl_step False s (s\<lparr>sl_spin := Some p, slpcs := (slpcs s)(p := Check)\<rparr>)"
| busy: "slpcs s p = Check \<Longrightarrow> sl_locked (slk s) \<Longrightarrow>
     sl_step False s (s\<lparr>slpcs := (slpcs s)(p := Prep)\<rparr>)"
| take: "slpcs s p = Check \<Longrightarrow> acquiresleep (int p) (slk s) = Inr lk \<Longrightarrow>
     sl_step False s (s\<lparr>slk := lk, sl_spin := None, slpcs := (slpcs s)(p := Crit)\<rparr>)"
| pt: "slpcs s p = Prep \<Longrightarrow> sl_pt s = None \<Longrightarrow>
     sl_step False s (s\<lparr>sl_pt := Some p, slpcs := (slpcs s)(p := Both)\<rparr>)"
| unspin: "slpcs s p = Both \<Longrightarrow>
     sl_step False s (s\<lparr>sl_spin := None, slpcs := (slpcs s)(p := Pt)\<rparr>)"
| doze: "slpcs s p = Pt \<Longrightarrow>
     sl_step False s (s\<lparr>sl_pt := None, slpcs := (slpcs s)(p := Asleep)\<rparr>)"
| resume: "slpcs s p = Woken \<Longrightarrow> sl_pt s = None \<Longrightarrow>
     sl_step False s (s\<lparr>slpcs := (slpcs s)(p := Want)\<rparr>)"
| leave: "slpcs s p = Crit \<Longrightarrow> sl_step False s (s\<lparr>slpcs := (slpcs s)(p := RelWant)\<rparr>)"
| rel: "slpcs s p = RelWant \<Longrightarrow> sl_spin s = None \<Longrightarrow>
     sl_step False s (s\<lparr>slk := fst (releasesleep 0 (slk s) ptable0), sl_spin := Some p,
       slpcs := (slpcs s)(p := RelSet)\<rparr>)"
| wake: "slpcs s p = RelSet \<Longrightarrow> sl_pt s = None \<Longrightarrow>
     sl_step False s (s\<lparr>slpcs := (\<lambda>q. sl_woken (slk s) (slpcs s q))(p := RelDone)\<rparr>)"
| rel_done: "slpcs s p = RelDone \<Longrightarrow>
     sl_step False s (s\<lparr>sl_spin := None, slpcs := (slpcs s)(p := Out)\<rparr>)"

inductive sl_reachable :: "slst \<Rightarrow> bool" where
  init: "sl_reachable \<lparr>slk = \<lparr>sl_locked = False, sl_pid = 0\<rparr>, sl_spin = None, sl_pt = None,
     slpcs = (\<lambda>_. Out)\<rparr>"
| step: "sl_reachable s \<Longrightarrow> sl_step e s t \<Longrightarrow> sl_reachable t"

text \<open>Which places hold the spin lock, hold \<open>ptable.lock\<close>, own the sleep lock, have seen it
  taken with the spin lock held since, and are on the way to sleep or asleep.\<close>

fun hspin :: "slpc \<Rightarrow> bool" where
  "hspin Check = True" | "hspin Prep = True" | "hspin Both = True" | "hspin RelSet = True"
| "hspin RelDone = True" | "hspin _ = False"

fun hpt :: "slpc \<Rightarrow> bool" where
  "hpt Both = True" | "hpt Pt = True" | "hpt _ = False"

fun owns :: "slpc \<Rightarrow> bool" where
  "owns Crit = True" | "owns RelWant = True" | "owns _ = False"

fun sees :: "slpc \<Rightarrow> bool" where
  "sees Prep = True" | "sees Both = True" | "sees _ = False"

fun dozing :: "slpc \<Rightarrow> bool" where
  "dozing Pt = True" | "dozing Asleep = True" | "dozing _ = False"

text \<open>A release is under way and its \<open>wakeup\<close> is still to come.\<close>

definition signal :: "slst \<Rightarrow> bool" where
  "signal s \<longleftrightarrow> (\<exists>r. sl_spin s = Some r \<and> slpcs s r = RelSet)"

definition sl_inv :: "slst \<Rightarrow> bool" where
  "sl_inv s \<longleftrightarrow>
     (\<forall>p. hspin (slpcs s p) \<longleftrightarrow> sl_spin s = Some p) \<and>
     (\<forall>p. hpt (slpcs s p) \<longleftrightarrow> sl_pt s = Some p) \<and>
     (\<forall>p. owns (slpcs s p) \<longleftrightarrow> sl_locked (slk s) \<and> sl_pid (slk s) = int p) \<and>
     (sl_locked (slk s) \<longrightarrow> 0 \<le> sl_pid (slk s)) \<and>
     (\<forall>p. sees (slpcs s p) \<longrightarrow> sl_locked (slk s)) \<and>
     (\<forall>p. dozing (slpcs s p) \<longrightarrow> sl_locked (slk s) \<or> signal s)"

lemma sl_invD:
  assumes "sl_inv s"
  shows "hspin (slpcs s p) \<longleftrightarrow> sl_spin s = Some p" "hpt (slpcs s p) \<longleftrightarrow> sl_pt s = Some p"
    "owns (slpcs s p) \<longleftrightarrow> sl_locked (slk s) \<and> sl_pid (slk s) = int p"
    "sl_locked (slk s) \<Longrightarrow> 0 \<le> sl_pid (slk s)"
    "sees (slpcs s p) \<Longrightarrow> sl_locked (slk s)"
    "dozing (slpcs s p) \<Longrightarrow> sl_locked (slk s) \<or> signal s"
  using assms unfolding sl_inv_def by blast+

lemma sl_invI:
  assumes "\<And>p. hspin (slpcs s p) \<longleftrightarrow> sl_spin s = Some p" "\<And>p. hpt (slpcs s p) \<longleftrightarrow> sl_pt s = Some p"
    "\<And>p. owns (slpcs s p) \<longleftrightarrow> sl_locked (slk s) \<and> sl_pid (slk s) = int p"
    "sl_locked (slk s) \<Longrightarrow> 0 \<le> sl_pid (slk s)"
    "\<And>p. sees (slpcs s p) \<Longrightarrow> sl_locked (slk s)"
    "\<And>p. dozing (slpcs s p) \<Longrightarrow> sl_locked (slk s) \<or> signal s"
  shows "sl_inv s"
  using assms unfolding sl_inv_def by blast

text \<open>One process moves: what its old and new place in the code must agree on.\<close>

lemma sl_inv_move:
  assumes "sl_inv s" and t: "t = s\<lparr>slk := lk, sl_spin := sp, sl_pt := pl, slpcs := (slpcs s)(p := pc)\<rparr>"
    and spin: "hspin pc \<longleftrightarrow> sp = Some p" "\<And>q. q \<noteq> p \<Longrightarrow> sp = Some q \<longleftrightarrow> sl_spin s = Some q"
    and pt: "hpt pc \<longleftrightarrow> pl = Some p" "\<And>q. q \<noteq> p \<Longrightarrow> pl = Some q \<longleftrightarrow> sl_pt s = Some q"
    and own: "owns pc \<longleftrightarrow> sl_locked lk \<and> sl_pid lk = int p" "sl_locked lk \<Longrightarrow> 0 \<le> sl_pid lk"
      "\<And>q. q \<noteq> p \<Longrightarrow> (sl_locked lk \<and> sl_pid lk = int q) \<longleftrightarrow> (sl_locked (slk s) \<and> sl_pid (slk s) = int q)"
    and rel: "sl_locked (slk s) \<and> \<not> sl_locked lk \<Longrightarrow> sl_spin s = None \<and> pc = RelSet"
    and wait: "sees pc \<Longrightarrow> sl_locked lk" "dozing pc \<Longrightarrow> sl_locked lk \<or> dozing (slpcs s p)"
      "slpcs s p \<noteq> RelSet"
  shows "sl_inv t"
proof -
  note I = sl_invD [OF assms(1)]
  have sig: "sl_locked lk \<or> signal t" if "sl_locked (slk s) \<or> signal s"
  proof (cases "sl_locked (slk s)")
    case True
    show ?thesis
    proof (cases "sl_locked lk")
      case False
      with True rel have "pc = RelSet" by blast
      with spin(1) show ?thesis by (auto simp: signal_def t)
    qed simp
  next
    case False
    with that obtain r where r: "sl_spin s = Some r" "slpcs s r = RelSet" by (auto simp: signal_def)
    with wait(3) have "r \<noteq> p" by auto
    with r spin(2) [of r] have "signal t" by (auto simp: signal_def t)
    then show ?thesis ..
  qed
  show ?thesis
  proof (rule sl_invI, goal_cases)
    case (1 q) show ?case using I(1) [of q] spin by (cases "q = p") (simp_all add: t)
  next
    case (2 q) show ?case using I(2) [of q] pt by (cases "q = p") (simp_all add: t)
  next
    case (3 q) show ?case using I(3) [of q] own by (cases "q = p") (simp_all add: t)
  next
    case 4 then show ?case using own(2) by (simp add: t)
  next
    case (5 q)
    show ?case
    proof (cases "q = p")
      case False
      then have "sees (slpcs s q)" using 5 by (simp add: t)
      then have "hspin (slpcs s q)" "sl_locked (slk s)" using I(5) [of q] by (cases "slpcs s q"; simp)+
      then show ?thesis using I(1) [of q] rel by (auto simp: t)
    qed (use 5 wait(1) in \<open>simp add: t\<close>)
  next
    case (6 q)
    then show ?case using I(6) [of q] I(6) [of p] wait(2) sig by (cases "q = p") (auto simp: t)
  qed
qed

lemma sl_inv_wake:
  assumes "sl_inv s" "slpcs s p = RelSet" "sl_pt s = None"
  shows "sl_inv (s\<lparr>slpcs := (\<lambda>q. sl_woken (slk s) (slpcs s q))(p := RelDone)\<rparr>)"
    (is "sl_inv ?t")
proof -
  note I = sl_invD [OF assms(1)]
  have pc: "slpcs ?t q = (if q = p then RelDone else if slpcs s q = Asleep then Woken else slpcs s q)" for q
    by simp
  show ?thesis
  proof (rule sl_invI, goal_cases)
    case (6 q)
    then have "hpt (slpcs s q)" unfolding pc by (cases "slpcs s q") (auto split: if_splits)
    with I(2) [of q] assms(3) show ?case by simp
  next
    case (5 q)
    then show ?case using I(5) [of q] unfolding pc by (auto split: if_splits)
  next
    case (1 q) show ?case using I(1) [of q] I(1) [of p] assms(2) unfolding pc by auto
  next
    case (2 q) show ?case using I(2) [of q] I(2) [of p] assms(2) unfolding pc by auto
  next
    case (3 q) show ?case using I(3) [of q] I(3) [of p] assms(2) unfolding pc by auto
  qed (use I(4) in simp)
qed

lemma sl_inv_step:
  assumes "sl_step e s t" "sl_inv s"
  shows "sl_inv t"
  using assms
proof (induction rule: sl_step.induct)
  case (enter s p)
  with sl_invD(1-3,5,6) [OF enter(2), of p] sl_invD(4) [OF enter(2)] show ?case
    by - (rule sl_inv_move [where s = s and p = p and pc = Want and lk = "slk s" and sp = "sl_spin s" and pl = "sl_pt s"], auto simp: acquiresleep_def releasesleep_def split: if_splits)
next
  case (kill s p)
  with sl_invD(1-3,5,6) [OF kill(3), of p] sl_invD(4) [OF kill(3)] show ?case
    by - (rule sl_inv_move [where s = s and p = p and pc = Woken and lk = "slk s" and sp = "sl_spin s" and pl = "sl_pt s"], auto simp: acquiresleep_def releasesleep_def split: if_splits)
next
  case (spin s p)
  with sl_invD(1-3,5,6) [OF spin(3), of p] sl_invD(4) [OF spin(3)] show ?case
    by - (rule sl_inv_move [where s = s and p = p and pc = Check and lk = "slk s" and sp = "Some p" and pl = "sl_pt s"], auto simp: acquiresleep_def releasesleep_def split: if_splits)
next
  case (busy s p)
  with sl_invD(1-3,5,6) [OF busy(3), of p] sl_invD(4) [OF busy(3)] show ?case
    by - (rule sl_inv_move [where s = s and p = p and pc = Prep and lk = "slk s" and sp = "sl_spin s" and pl = "sl_pt s"], auto simp: acquiresleep_def releasesleep_def split: if_splits)
next
  case (take s p lk)
  with sl_invD(1-3,5,6) [OF take(3), of p] sl_invD(4) [OF take(3)] show ?case
    by - (rule sl_inv_move [where s = s and p = p and pc = Crit and lk = lk and sp = "None" and pl = "sl_pt s"], auto simp: acquiresleep_def releasesleep_def split: if_splits)
next
  case (pt s p)
  with sl_invD(1-3,5,6) [OF pt(3), of p] sl_invD(4) [OF pt(3)] show ?case
    by - (rule sl_inv_move [where s = s and p = p and pc = Both and lk = "slk s" and sp = "sl_spin s" and pl = "Some p"], auto simp: acquiresleep_def releasesleep_def split: if_splits)
next
  case (unspin s p)
  with sl_invD(1-3,5,6) [OF unspin(2), of p] sl_invD(4) [OF unspin(2)] show ?case
    by - (rule sl_inv_move [where s = s and p = p and pc = Pt and lk = "slk s" and sp = "None" and pl = "sl_pt s"], auto simp: acquiresleep_def releasesleep_def split: if_splits)
next
  case (doze s p)
  with sl_invD(1-3,5,6) [OF doze(2), of p] sl_invD(4) [OF doze(2)] show ?case
    by - (rule sl_inv_move [where s = s and p = p and pc = Asleep and lk = "slk s" and sp = "sl_spin s" and pl = "None"], auto simp: acquiresleep_def releasesleep_def split: if_splits)
next
  case (resume s p)
  with sl_invD(1-3,5,6) [OF resume(3), of p] sl_invD(4) [OF resume(3)] show ?case
    by - (rule sl_inv_move [where s = s and p = p and pc = Want and lk = "slk s" and sp = "sl_spin s" and pl = "sl_pt s"], auto simp: acquiresleep_def releasesleep_def split: if_splits)
next
  case (leave s p)
  with sl_invD(1-3,5,6) [OF leave(2), of p] sl_invD(4) [OF leave(2)] show ?case
    by - (rule sl_inv_move [where s = s and p = p and pc = RelWant and lk = "slk s" and sp = "sl_spin s" and pl = "sl_pt s"], auto simp: acquiresleep_def releasesleep_def split: if_splits)
next
  case (rel s p)
  with sl_invD(1-3,5,6) [OF rel(3), of p] sl_invD(4) [OF rel(3)] show ?case
    by - (rule sl_inv_move [where s = s and p = p and pc = RelSet and lk = "fst (releasesleep 0 (slk s) ptable0)" and sp = "Some p" and pl = "sl_pt s"], auto simp: acquiresleep_def releasesleep_def split: if_splits)
next
  case (rel_done s p)
  with sl_invD(1-3,5,6) [OF rel_done(2), of p] sl_invD(4) [OF rel_done(2)] show ?case
    by - (rule sl_inv_move [where s = s and p = p and pc = Out and lk = "slk s" and sp = "None" and pl = "sl_pt s"], auto simp: acquiresleep_def releasesleep_def split: if_splits)
next
  case (wake s p)
  then show ?case by (intro sl_inv_wake)
qed

lemma sl_inv_reachable: "sl_reachable s \<Longrightarrow> sl_inv s"
proof (induction rule: sl_reachable.induct)
  case init
  show ?case by (rule sl_invI) simp_all
qed (rule sl_inv_step)

text \<open>C16: sleep locks exclude each other and lose no wakeup: in every reachable state at most
  one process owns the sleep lock, it is the one whose pid the lock records, and a process
  is asleep on the lock only while another owns it or is about to call \<open>wakeup\<close>.\<close>

theorem sleeplock_safe:
  assumes "sl_reachable s"
  shows "(\<forall>p q. slpcs s p = Crit \<and> slpcs s q = Crit \<longrightarrow> p = q) \<and>
    (\<forall>p. slpcs s p = Crit \<longrightarrow> holdingsleep (int p) (slk s)) \<and>
    (\<forall>p. slpcs s p = Asleep \<longrightarrow> (\<exists>q. owns (slpcs s q)) \<or> (\<exists>r. slpcs s r = RelSet))"
proof -
  note I = sl_invD [OF sl_inv_reachable [OF assms]]
  have c: "sl_locked (slk s) \<and> sl_pid (slk s) = int p" if "slpcs s p = Crit" for p
    using I(3) [of p] that by simp
  have "(\<exists>q. owns (slpcs s q)) \<or> (\<exists>r. slpcs s r = RelSet)" if "slpcs s p = Asleep" for p
  proof (cases "sl_locked (slk s)")
    case True
    then have "owns (slpcs s (nat (sl_pid (slk s))))" using I(3) I(4) by simp
    then show ?thesis by blast
  next
    case False
    with I(6) [of p] that show ?thesis by (auto simp: signal_def)
  qed
  moreover have "p = q" if "slpcs s p = Crit" "slpcs s q = Crit" for p q
    using c [OF that(1)] c [OF that(2)] by simp
  moreover have "holdingsleep (int p) (slk s)" if "slpcs s p = Crit" for p
    using c [OF that] by (simp add: holdingsleep_def)
  ultimately show ?thesis by blast
qed

text \<open>A state in which process 1 owns the lock.\<close>

definition sl_held :: slst where
  "sl_held = \<lparr>slk = \<lparr>sl_locked = True, sl_pid = 1\<rparr>, sl_spin = None, sl_pt = None,
     slpcs = (\<lambda>_. Out)(1 := Crit)\<rparr>"

lemma sl_held_reachable: "sl_reachable sl_held"
proof -
  let ?s0 = "\<lparr>slk = \<lparr>sl_locked = False, sl_pid = 0\<rparr>, sl_spin = None, sl_pt = None, slpcs = (\<lambda>_. Out)\<rparr>"
  let ?s1 = "?s0\<lparr>slpcs := (slpcs ?s0)(1 := Want)\<rparr>"
  let ?s2 = "?s1\<lparr>sl_spin := Some 1, slpcs := (slpcs ?s1)(1 := Check)\<rparr>"
  have s1: "sl_step True ?s0 ?s1" by (rule sl_step.enter) simp
  have s2: "sl_step False ?s1 ?s2" by (rule sl_step.spin) simp_all
  have s3: "sl_step False ?s2 sl_held"
    using sl_step.take [of ?s2 1 "\<lparr>sl_locked = True, sl_pid = 1\<rparr>"]
    by (simp add: acquiresleep_def sl_held_def)
  show ?thesis
    by (rule sl_reachable.step [OF sl_reachable.step [OF sl_reachable.step [OF sl_reachable.init s1] s2] s3])
qed

theorem sleeplock_safe_witness:
  "slpcs sl_held 1 = Crit \<and> holdingsleep 1 (slk sl_held)"
proof -
  have "slpcs sl_held 1 = Crit" by (simp add: sl_held_def)
  then show ?thesis using sleeplock_safe [OF sl_held_reachable] by (metis of_nat_1)
qed

text \<open>C22: sleep locks do not deadlock: as long as some process is inside \<open>acquiresleep\<close>,
  \<open>releasesleep\<close> or the critical section, some process can take a step of its own.\<close>

theorem sleeplock_progress:
  assumes "sl_reachable s" "slpcs s p \<noteq> Out"
  shows "\<exists>t. sl_step False s t"
proof -
  note I = sl_invD [OF sl_inv_reachable [OF assms(1)]]
  have ptl: "\<exists>t. sl_step False s t" if "sl_pt s = Some r" for r
  proof -
    from I(2) [of r] that have "slpcs s r = Both \<or> slpcs s r = Pt" by (cases "slpcs s r") simp_all
    then show ?thesis by (auto intro: sl_step.unspin sl_step.doze)
  qed
  have spl: "\<exists>t. sl_step False s t" if "sl_spin s = Some r" for r
  proof (cases "sl_pt s")
    case None
    from I(1) [of r] that have "hspin (slpcs s r)" by simp
    moreover have "\<exists>t. sl_step False s t" if "slpcs s r = Check"
    proof (cases "acquiresleep (int r) (slk s)")
      case (Inl e)
      then show ?thesis using sl_step.busy [OF that] by (auto simp: acquiresleep_def split: if_splits)
    next
      case (Inr lk)
      then show ?thesis using sl_step.take [OF that Inr] by blast
    qed
    ultimately show ?thesis
      by (cases "slpcs s r") (auto intro: sl_step.pt sl_step.unspin sl_step.wake sl_step.rel_done None)
  qed (rule ptl)
  show ?thesis
  proof (cases "sl_pt s = None \<and> sl_spin s = None")
    case True
    have own: "\<exists>t. sl_step False s t" if "owns (slpcs s q)" for q
      using that True by (cases "slpcs s q") (auto intro: sl_step.leave sl_step.rel)
    have "\<exists>q. owns (slpcs s q)" if "slpcs s p = Asleep"
    proof -
      have "sl_locked (slk s)" using I(6) [of p] that True by (simp add: signal_def)
      then have "owns (slpcs s (nat (sl_pid (slk s))))" using I(3) I(4) by simp
      then show ?thesis by blast
    qed
    moreover have "\<not> hspin (slpcs s p)" "\<not> hpt (slpcs s p)" using I(1,2) [of p] True by simp_all
    ultimately show ?thesis
      using assms(2) own own [of p] True
      by (cases "slpcs s p") (auto intro: sl_step.spin sl_step.resume)
  qed (use ptl spl in auto)
qed

theorem sleeplock_progress_witness: "\<exists>t. sl_step False sl_held t"
  by (rule sleeplock_progress [OF sl_held_reachable, of 1]) (simp add: sl_held_def)

section \<open>A pid that names no process\<close>

text \<open>C36: \<open>kill\<close> does not check that the slot it finds is in use: with pid 0, which a free slot
  carries, it reports success and marks the free slot as killed, and the next process
  created in that slot is born killed.\<close>

theorem kill_zero_hits_free_slot:
  "\<exists>t t'. kill 0 (tab mach_run) = (0, t) \<and> alloc_slot t = Inr (Some 1, t') \<and>
     killed (proc_at t' 1) \<and> state (proc_at (tab mach_run) 1) = UNUSED"
proof -
  have L: "length (procs (tab mach_run)) = NPROC" by (simp add: mach_run_def small_NPROC)
  have at: "k < NPROC \<Longrightarrow> proc_at (tab mach_run) k = (if k = 0 then proc0\<lparr>pid := 1, state := RUNNING\<rparr> else proc0)" for k
    by (simp add: mach_run_def ptab_simps small_NPROC)
  let ?t = "upd_proc 1 (\<lambda>p. let p = p\<lparr>killed := True\<rparr> in if state p = SLEEPING then p\<lparr>state := RUNNABLE\<rparr> else p) (tab mach_run)"
  have "find_index (\<lambda>p. pid p = 0) (procs (tab mach_run)) = Some 1"
    using small_NPROC by (auto simp: find_index_Some L at proc0_def)
  then have k: "kill 0 (tab mach_run) = (0, ?t)" by (simp add: kill_def)
  have "find_index (\<lambda>p. state p = UNUSED) (procs ?t) = Some 1"
    using small_NPROC by (auto simp: find_index_Some L at ptab_simps proc0_def)
  then have "alloc_slot ?t = Inr (Some 1, (upd_proc 1 (\<lambda>p. p\<lparr>state := EMBRYO, pid := 2\<rparr>) ?t)\<lparr>nextpid := 3\<rparr>)"
    by (simp add: alloc_slot_def) (simp add: mach_run_def)
  with k show ?thesis
    using small_NPROC by (simp add: L at ptab_simps Let_def) (simp add: proc0_def)
qed

end
