(* ===== verification/Xv6_Vm.thy ===== *)
theory Xv6_Vm
  imports Xv6_Kalloc "HOL-Library.Sublist"
begin

text \<open>
  Page tables (Xv6-Syscall/src/vm.c).  Page directories and page tables are pages of the
  memory of the page allocator; the operations read and write their 32-bit entries with
  \<open>load32\<close> and \<open>store32\<close> and take their pages from \<open>kalloc\<close>.  Failure is the return
  value the code gives (a null pointer, -1 or 0), \<open>panic\<close> an error value.

  The loops of \<open>mappages\<close> and \<open>deallocuvm\<close> advance a 32-bit page address; they carry a
  bound on the number of turns, computed from their arguments, and the bound is shown to
  be enough (for \<open>deallocuvm\<close>: whenever the old size is at most \<open>KERNBASE\<close>, which every
  caller keeps).

  \<open>lookup\<close> reads a page table the way the hardware does.  The lemmas show that a page table
  refines a function from page addresses to entries: \<open>walkpgdir\<close> leaves that function
  alone even when it allocates a table, and \<open>mappages\<close> of one page is an update at one page.

  The linker symbols \<open>end\<close> and \<open>data\<close> are the parameters \<open>kend\<close> and \<open>kdata\<close>.
\<close>

section \<open>Operations\<close>

definition set_mem :: "memory \<Rightarrow> kmem \<Rightarrow> kmem" where
  "set_mem m s = s\<lparr>kmemory := m\<rparr>"

text \<open>The address of the entry for \<open>va\<close>, or 0.\<close>

definition walkpgdir :: "kmem \<Rightarrow> uint \<Rightarrow> uint \<Rightarrow> bool \<Rightarrow> uint \<times> kmem" where
  "walkpgdir s pgdir va alloc =
     (let pde = pgdir + 4 * PDX va in
      if load32 (kmemory s) pde AND PTE_P \<noteq> 0 then
        (P2V (PTE_ADDR (load32 (kmemory s) pde)) + 4 * PTX va, s)
      else if \<not> alloc then (0, s)
      else let (pgtab, s) = kalloc s in
        if pgtab = 0 then (0, s)
        else let m = memset (kmemory s) pgtab 0 PGSIZE;
                 m = store32 m pde (V2P pgtab OR PTE_P OR PTE_W OR PTE_U)
             in (pgtab + 4 * PTX va, set_mem m s))"

fun mappages_loop :: "nat \<Rightarrow> kmem \<Rightarrow> uint \<Rightarrow> uint \<Rightarrow> uint \<Rightarrow> uint \<Rightarrow> uint \<Rightarrow> (int \<times> kmem) res" where
  "mappages_loop 0 s pgdir a lst pa perm = Inl (Block ''mappages'')"
| "mappages_loop (Suc k) s pgdir a lst pa perm =
     (let (pte, s) = walkpgdir s pgdir a True in
      if pte = 0 then Inr (-1, s)
      else if load32 (kmemory s) pte AND PTE_P \<noteq> 0 then panic ''remap''
      else let s = set_mem (store32 (kmemory s) pte (pa OR perm OR PTE_P)) s in
        if a = lst then Inr (0, s)
        else mappages_loop k s pgdir (a + PGSIZE) lst (pa + PGSIZE) perm)"

definition mappages :: "kmem \<Rightarrow> uint \<Rightarrow> uint \<Rightarrow> uint \<Rightarrow> uint \<Rightarrow> uint \<Rightarrow> (int \<times> kmem) res" where
  "mappages s pgdir va n pa perm =
     (let a = PGROUNDDOWN va; lst = PGROUNDDOWN (va + n - 1) in
      mappages_loop (Suc (unat ((lst - a) div PGSIZE))) s pgdir a lst pa perm)"

fun deallocuvm_loop :: "nat \<Rightarrow> uint \<Rightarrow> kmem \<Rightarrow> uint \<Rightarrow> uint \<Rightarrow> uint \<Rightarrow> kmem res" where
  "deallocuvm_loop 0 kend s pgdir a oldsz = Inl (Block ''deallocuvm'')"
| "deallocuvm_loop (Suc k) kend s pgdir a oldsz =
     (if \<not> a < oldsz then Inr s
      else let (pte, s) = walkpgdir s pgdir a False in
        if pte = 0 then
          deallocuvm_loop k kend s pgdir (PGADDR (PDX a + 1) 0 0 - PGSIZE + PGSIZE) oldsz
        else if load32 (kmemory s) pte AND PTE_P \<noteq> 0 then
          (let pa = PTE_ADDR (load32 (kmemory s) pte) in
           if pa = 0 then panic ''kfree''
           else bindE (kfree kend s (P2V pa)) (\<lambda>s.
             deallocuvm_loop k kend (set_mem (store32 (kmemory s) pte 0) s) pgdir (a + PGSIZE) oldsz))
        else deallocuvm_loop k kend s pgdir (a + PGSIZE) oldsz)"

definition deallocuvm :: "uint \<Rightarrow> kmem \<Rightarrow> uint \<Rightarrow> uint \<Rightarrow> uint \<Rightarrow> (uint \<times> kmem) res" where
  "deallocuvm kend s pgdir oldsz newsz =
     (if newsz \<ge> oldsz then Inr (oldsz, s)
      else bindE (deallocuvm_loop (Suc (Suc (unat oldsz div 4096))) kend s pgdir (PGROUNDUP newsz) oldsz)
        (\<lambda>s. Inr (newsz, s)))"

text \<open>The pass over the directory in \<open>freevm\<close>.\<close>

fun free_tables :: "uint \<Rightarrow> uint \<Rightarrow> nat list \<Rightarrow> kmem \<Rightarrow> kmem res" where
  "free_tables kend pgdir [] s = Inr s"
| "free_tables kend pgdir (i # is) s =
     (let pde = load32 (kmemory s) (pgdir + 4 * of_nat i) in
      if pde AND PTE_P \<noteq> 0
      then bindE (kfree kend s (P2V (PTE_ADDR pde))) (free_tables kend pgdir is)
      else free_tables kend pgdir is s)"

definition freevm :: "uint \<Rightarrow> kmem \<Rightarrow> uint \<Rightarrow> kmem res" where
  "freevm kend s pgdir =
     (if pgdir = 0 then panic ''freevm: no pgdir''
      else bindE (deallocuvm kend s pgdir KERNBASE 0) (\<lambda>(_, s).
           bindE (free_tables kend pgdir [0..<NPDENTRIES] s) (\<lambda>s. kfree kend s pgdir)))"

record kmap_entry =
  kvirt :: uint
  phys_start :: uint
  phys_end :: uint
  kperm :: uint

definition kmap :: "uint \<Rightarrow> kmap_entry list" where
  "kmap kdata =
    [\<lparr>kvirt = KERNBASE, phys_start = 0, phys_end = EXTMEM, kperm = PTE_W\<rparr>,
     \<lparr>kvirt = KERNLINK, phys_start = V2P KERNLINK, phys_end = V2P kdata, kperm = 0\<rparr>,
     \<lparr>kvirt = kdata, phys_start = V2P kdata, phys_end = PHYSTOP, kperm = PTE_W\<rparr>,
     \<lparr>kvirt = DEVSPACE, phys_start = DEVSPACE, phys_end = 0, kperm = PTE_W\<rparr>]"

fun setupkvm_loop :: "uint \<Rightarrow> uint \<Rightarrow> kmap_entry list \<Rightarrow> kmem \<Rightarrow> (uint \<times> kmem) res" where
  "setupkvm_loop kend pgdir [] s = Inr (pgdir, s)"
| "setupkvm_loop kend pgdir (k # ks) s =
     bindE (mappages s pgdir (kvirt k) (phys_end k - phys_start k) (phys_start k) (kperm k)) (\<lambda>(r, s).
       if r < 0 then bindE (freevm kend s pgdir) (\<lambda>s. Inr (0, s))
       else setupkvm_loop kend pgdir ks s)"

definition setupkvm :: "uint \<Rightarrow> uint \<Rightarrow> kmem \<Rightarrow> (uint \<times> kmem) res" where
  "setupkvm kend kdata s =
     (let (pgdir, s) = kalloc s in
      if pgdir = 0 then Inr (0, s)
      else let s = set_mem (memset (kmemory s) pgdir 0 PGSIZE) s in
        if P2V PHYSTOP > DEVSPACE then panic ''PHYSTOP too high''
        else setupkvm_loop kend pgdir (kmap kdata) s)"

text \<open>\<open>init\<close> is the address of the init code in the kernel image.\<close>

definition inituvm :: "kmem \<Rightarrow> uint \<Rightarrow> uint \<Rightarrow> uint \<Rightarrow> kmem res" where
  "inituvm s pgdir init sz =
     (if sz \<ge> PGSIZE then panic ''inituvm: more than a page''
      else let (mem, s) = kalloc s;
               s = set_mem (memset (kmemory s) mem 0 PGSIZE) s
           in bindE (mappages s pgdir 0 PGSIZE (V2P mem) (PTE_W OR PTE_U)) (\<lambda>(_, s).
                Inr (set_mem (memmove (kmemory s) mem init sz) s)))"

lemma page_step_less:
  assumes "a < n" "n < KERNBASE"
  shows "unat n - unat (a + PGSIZE) < unat n - unat a"
proof -
  have "unat (a + PGSIZE) = unat a + 4096"
    using assms by (simp add: unat_plus_if' word_less_nat_alt PGSIZE_def KERNBASE_def)
  with assms show ?thesis by (simp add: word_less_nat_alt)
qed

text \<open>The test of \<open>newsz\<close> against \<open>KERNBASE\<close> is the one \<open>allocuvm\<close> makes first; repeated in the loop
  it bounds the page address.\<close>

function allocuvm_loop :: "uint \<Rightarrow> kmem \<Rightarrow> uint \<Rightarrow> uint \<Rightarrow> uint \<Rightarrow> uint \<Rightarrow> (uint \<times> kmem) res" where
  "allocuvm_loop kend s pgdir a oldsz newsz =
     (if newsz < KERNBASE \<and> a < newsz then
        (let (mem, s) = kalloc s in
         if mem = 0 then bindE (deallocuvm kend s pgdir newsz oldsz) (\<lambda>(_, s). Inr (0, s))
         else let s = set_mem (memset (kmemory s) mem 0 PGSIZE) s in
           bindE (mappages s pgdir a PGSIZE (V2P mem) (PTE_W OR PTE_U)) (\<lambda>(r, s).
             if r < 0 then
               bindE (deallocuvm kend s pgdir newsz oldsz) (\<lambda>(_, s).
               bindE (kfree kend s mem) (\<lambda>s. Inr (0, s)))
             else allocuvm_loop kend s pgdir (a + PGSIZE) oldsz newsz))
      else Inr (newsz, s))"
  by pat_completeness auto

termination
  by (relation "measure (\<lambda>(kend, s, pgdir, a, oldsz, newsz). unat newsz - unat a)")
    (auto simp: page_step_less)

definition allocuvm :: "uint \<Rightarrow> kmem \<Rightarrow> uint \<Rightarrow> uint \<Rightarrow> uint \<Rightarrow> (uint \<times> kmem) res" where
  "allocuvm kend s pgdir oldsz newsz =
     (if newsz \<ge> KERNBASE then Inr (0, s)
      else if newsz < oldsz then Inr (oldsz, s)
      else allocuvm_loop kend s pgdir (PGROUNDUP oldsz) oldsz newsz)"

definition clearpteu :: "kmem \<Rightarrow> uint \<Rightarrow> uint \<Rightarrow> kmem res" where
  "clearpteu s pgdir uva =
     (let (pte, s) = walkpgdir s pgdir uva False in
      if pte = 0 then panic ''clearpteu''
      else Inr (set_mem (store32 (kmemory s) pte (load32 (kmemory s) pte AND NOT PTE_U)) s))"

text \<open>The copying loop of \<open>copyuvm\<close>; \<open>None\<close> is the jump to \<open>bad\<close>.  The page address \<open>i\<close> cannot
  wrap: the loop ends or panics before \<open>KERNBASE\<close>, and \<open>copyuvm\<close> is only called with a
  size below it; a larger size is given as not returning.\<close>

function copyuvm_loop :: "uint \<Rightarrow> kmem \<Rightarrow> uint \<Rightarrow> uint \<Rightarrow> uint \<Rightarrow> uint \<Rightarrow> (bool \<times> kmem) res" where
  "copyuvm_loop kend s pgdir d i sz =
     (if \<not> i < sz then Inr (True, s)
      else if sz \<ge> KERNBASE then Inl (Block ''copyuvm'')
      else let (pte, s) = walkpgdir s pgdir i False in
        if pte = 0 then panic ''copyuvm: pte should exist''
        else let e = load32 (kmemory s) pte in
          if e AND PTE_P = 0 then panic ''copyuvm: page not present''
          else let pa = PTE_ADDR e; flags = PTE_FLAGS e; (mem, s) = kalloc s in
            if mem = 0 then Inr (False, s)
            else let s = set_mem (memmove (kmemory s) mem (P2V pa) PGSIZE) s in
              bindE (mappages s d i PGSIZE (V2P mem) flags) (\<lambda>(r, s).
                if r < 0 then bindE (kfree kend s mem) (\<lambda>s. Inr (False, s))
                else copyuvm_loop kend s pgdir d (i + PGSIZE) sz))"
  by pat_completeness auto
termination
  by (relation "measure (\<lambda>(kend, s, pgdir, d, i, sz). unat sz - unat i)")
    (auto simp: page_step_less not_le)

definition copyuvm :: "uint \<Rightarrow> uint \<Rightarrow> kmem \<Rightarrow> uint \<Rightarrow> uint \<Rightarrow> (uint \<times> kmem) res" where
  "copyuvm kend kdata s pgdir sz =
     bindE (setupkvm kend kdata s) (\<lambda>(d, s).
       if d = 0 then Inr (0, s)
       else bindE (copyuvm_loop kend s pgdir d 0 sz) (\<lambda>(ok, s).
         if ok then Inr (d, s) else bindE (freevm kend s d) (\<lambda>s. Inr (0, s))))"

text \<open>The code reads \<open>*pte\<close> without a test for a null \<open>pte\<close>.\<close>

definition uva2ka :: "kmem \<Rightarrow> uint \<Rightarrow> uint \<Rightarrow> uint res" where
  "uva2ka s pgdir uva =
     (let (pte, s) = walkpgdir s pgdir uva False in
      if pte = 0 then Inl (Undef ''uva2ka: *pte'')
      else let e = load32 (kmemory s) pte in
        if e AND PTE_P = 0 then Inr 0
        else if e AND PTE_U = 0 then Inr 0
        else Inr (P2V (PTE_ADDR e)))"

lemma copyout_chunk_pos: "PGSIZE - (va - PGROUNDDOWN va) \<noteq> 0" "unat (va - PGROUNDDOWN va) < 4096"
proof -
  have "unat (va - PGROUNDDOWN va) = unat va - unat (PGROUNDDOWN va)"
    by (intro unat_sub) (simp add: word_le_nat_alt unat_PGROUNDDOWN)
  then have u: "unat (va - PGROUNDDOWN va) = unat va mod 4096"
    by (simp add: unat_PGROUNDDOWN minus_div_mult_eq_mod)
  then show "unat (va - PGROUNDDOWN va) < 4096" by simp
  with u show "PGSIZE - (va - PGROUNDDOWN va) \<noteq> 0"
    by (auto simp: PGSIZE_def)
qed

text \<open>\<open>buf\<close> is a kernel address.  Each turn consumes at least one byte.\<close>

function copyout :: "kmem \<Rightarrow> uint \<Rightarrow> uint \<Rightarrow> uint \<Rightarrow> uint \<Rightarrow> (int \<times> kmem) res" where
  "copyout s pgdir va buf len =
     (if \<not> len > 0 then Inr (0, s)
      else let va0 = PGROUNDDOWN va in
        bindE (uva2ka s pgdir va0) (\<lambda>pa0.
          if pa0 = 0 then Inr (-1, s)
          else let n = PGSIZE - (va - va0);
                   n = (if n > len then len else n);
                   s = set_mem (memmove (kmemory s) (pa0 + (va - va0)) buf n) s
               in copyout s pgdir (va0 + PGSIZE) (buf + n) (len - n)))"
  by pat_completeness auto

termination
proof (relation "measure (\<lambda>(s, pgdir, va, buf, len). unat len)")
  fix s pgdir va buf len va0 pa0 and n n' :: uint and s'
  assume "\<not> \<not> 0 < len" "va0 = PGROUNDDOWN va" "n = PGSIZE - (va - va0)"
    "n' = (if len < n then len else n)"
  moreover from this copyout_chunk_pos(1) [of va] have "0 < n'" "n' \<le> len"
    by (auto simp: word_gt_0 not_less)
  ultimately show "((s', pgdir, va0 + PGSIZE, buf + n', len - n'), s, pgdir, va, buf, len)
      \<in> measure (\<lambda>(s, pgdir, va, buf, len). unat len)"
    by (simp add: unat_sub word_less_nat_alt)
qed simp

section \<open>Entries of page tables in memory\<close>

text \<open>The four-byte slots of pages.  Two slots have a byte in common only when they are the same.\<close>

lemma unat_slot:
  assumes "4096 dvd unat p" "unat (i :: uint) < 1024" "unat (x :: uint) < 4"
  shows "unat (p + 4 * i + x) = unat p + 4 * unat i + unat x"
proof -
  have "unat (4 * i) = 4 * unat i" using assms(2) by (simp add: unat_word_ariths)
  moreover have "unat p + 4096 \<le> 2 ^ 32" using page_top [OF assms(1)] .
  ultimately show ?thesis using assms(2,3) by (simp add: unat_word_ariths)
qed

lemma slot_distinct:
  assumes "4096 dvd unat p" "4096 dvd unat q" "unat (i :: uint) < 1024" "unat (j :: uint) < 1024"
    "p \<noteq> q \<or> i \<noteq> j" "x < 4" "y < 4"
  shows "p + 4 * i + x \<noteq> q + 4 * j + y"
proof
  assume eq: "p + 4 * i + x = q + 4 * j + y"
  have x: "unat x < 4" "unat y < 4" using assms(6,7) by (simp_all add: word_less_nat_alt)
  have u: "unat p + (4 * unat i + unat x) = unat q + (4 * unat j + unat y)"
    using arg_cong [OF eq, of unat] unat_slot [OF assms(1,3) x(1)] unat_slot [OF assms(2,4) x(2)] by simp
  then have "unat p = unat q"
    using assms(1-4) x by (intro aligned_eq [of 4096 _ _ "4 * unat i + unat x"]) auto
  with u x have "unat i = unat j" by linarith
  with \<open>unat p = unat q\<close> assms(5) show False by (simp add: word_unat_eq_iff)
qed

lemma load32_store32_slot:
  assumes "4096 dvd unat p" "4096 dvd unat q" "unat i < 1024" "unat j < 1024"
  shows "load32 (store32 m (p + 4 * i) v) (q + 4 * j) =
    (if p = q \<and> i = j then v else load32 m (q + 4 * j))"
proof (cases "p = q \<and> i = j")
  case False
  have "load32 (store32 m (p + 4 * i) v) (q + 4 * j) = load32 m (q + 4 * j)"
    using slot_distinct [OF assms] False by (intro load32_store32_other) auto
  with False show ?thesis by auto
qed simp

lemma in_region_slot:
  assumes "4096 dvd unat q" "unat j < 1024" "x < 4"
  shows "in_region q 4096 (q + 4 * j + x)"
proof -
  have "unat x < 4" using assms(3) by (simp add: word_less_nat_alt)
  moreover have "unat (4 * j) = 4 * unat j" using assms(2) by (simp add: unat_word_ariths)
  ultimately have "unat (4 * j + x) < 4096" using assms(2) by (simp add: unat_word_ariths)
  then show ?thesis by (simp add: in_region_def add_ac)
qed

lemma unat_PGSIZE [simp]: "unat PGSIZE = 4096"
  by (simp add: PGSIZE_def)

lemma load32_memset_slot:
  assumes "4096 dvd unat p" "4096 dvd unat q" "unat j < 1024"
  shows "load32 (memset m p 0 PGSIZE) (q + 4 * j) = (if p = q then 0 else load32 m (q + 4 * j))"
proof -
  have x: "(1 :: uint) < 4" "(2 :: uint) < 4" "(3 :: uint) < 4" "(0 :: uint) < 4" by simp_all
  show ?thesis
  proof (cases "p = q")
    case True
    have "memset m q 0 PGSIZE (q + 4 * j + x) = 0" if "x < 4" for x
      using in_region_slot [OF assms(2,3) that] by (simp add: memset_apply)
    from this [OF x(4)] this [OF x(1)] this [OF x(2)] this [OF x(3)] True show ?thesis
      by (simp add: load32_def)
  next
    case False
    have "memset m p 0 PGSIZE (q + 4 * j + x) = m (q + 4 * j + x)" if "x < 4" for x
    proof -
      have "unat x < 4" using that by (simp add: word_less_nat_alt)
      moreover have "unat (4 * j) = 4 * unat j" using assms(3) by (simp add: unat_word_ariths)
      ultimately have "unat (4 * j + x) < 4096" using assms(3) by (simp add: unat_word_ariths)
      then show ?thesis
        using page_regions_disjoint [OF assms(2,1), of "4 * j + x"] False
        by (simp add: memset_apply add.assoc)
    qed
    from this [OF x(4)] this [OF x(1)] this [OF x(2)] this [OF x(3)] False show ?thesis
      by (simp add: load32_def)
  qed
qed

text \<open>The address and the flags of an entry made from a page address and flag bits.\<close>

lemma aligned_bits: "4096 dvd unat (a :: uint) \<Longrightarrow> n < 12 \<Longrightarrow> \<not> bit a n"
proof -
  assume "4096 dvd unat a" and n: "n < 12"
  then obtain k where "unat a = push_bit 12 k" by (auto simp: push_bit_eq_mult elim!: dvdE)
  then have "\<not> bit (unat a) n" using n by (simp add: bit_push_bit_iff)
  then show "\<not> bit a n" by (simp add: bit_unsigned_iff)
qed

lemma PTE_ADDR_or:
  assumes "4096 dvd unat a" "f AND NOT 0xFFF = 0"
  shows "PTE_ADDR (a OR f) = a"
proof (rule bit_word_eqI)
  fix n assume n: "n < LENGTH(32)"
  have m: "(0xFFF :: uint) = mask 12" by (simp add: mask_eq_exp_minus_1)
  have "bit (f AND NOT 0xFFF) n = False" using assms(2) by simp
  then show "bit (PTE_ADDR (a OR f)) n = bit a n"
    using aligned_bits [OF assms(1), of n] n
    by (auto simp: PTE_ADDR_def m bit_simps)
qed

lemma aligned_V2P: "4096 dvd unat v \<Longrightarrow> 4096 dvd unat (V2P v)"
  unfolding V2P_def unat_sub_if' by (auto simp: KERNBASE_def)

section \<open>A page table as a function from pages to entries\<close>

definition present :: "memory \<Rightarrow> uint \<Rightarrow> uint \<Rightarrow> bool" where
  "present m pgd d \<longleftrightarrow> load32 m (pgd + 4 * d) AND PTE_P \<noteq> 0"

definition table :: "memory \<Rightarrow> uint \<Rightarrow> uint \<Rightarrow> uint" where
  "table m pgd d = P2V (PTE_ADDR (load32 m (pgd + 4 * d)))"

text \<open>The walk of the hardware: the entry for \<open>va\<close>, 0 when there is no table for it.\<close>

definition lookup :: "memory \<Rightarrow> uint \<Rightarrow> uint \<Rightarrow> uint" where
  "lookup m pgd va = (if present m pgd (PDX va) then load32 m (table m pgd (PDX va) + 4 * PTX va) else 0)"

text \<open>A directory and its tables are pages of their own, none of them on the free list \<open>xs\<close>.\<close>

definition pt_ok :: "uint \<Rightarrow> kmem \<Rightarrow> uint \<Rightarrow> uint list \<Rightarrow> bool" where
  "pt_ok kend s pgd xs \<longleftrightarrow> kmem_rel kend s xs \<and> kpage kend pgd \<and> pgd \<notin> set xs \<and>
     (\<forall>d. unat d < 1024 \<longrightarrow> present (kmemory s) pgd d \<longrightarrow>
        kpage kend (table (kmemory s) pgd d) \<and> table (kmemory s) pgd d \<notin> set xs \<and>
        table (kmemory s) pgd d \<noteq> pgd) \<and>
     (\<forall>d e. unat d < 1024 \<longrightarrow> unat e < 1024 \<longrightarrow> present (kmemory s) pgd d \<longrightarrow> present (kmemory s) pgd e \<longrightarrow>
        table (kmemory s) pgd d = table (kmemory s) pgd e \<longrightarrow> d = e)"

lemma pt_okD:
  assumes "pt_ok kend s pgd xs"
  shows "kmem_rel kend s xs" "kpage kend pgd" "pgd \<notin> set xs"
    "unat d < 1024 \<Longrightarrow> present (kmemory s) pgd d \<Longrightarrow> kpage kend (table (kmemory s) pgd d)"
    "unat d < 1024 \<Longrightarrow> present (kmemory s) pgd d \<Longrightarrow> table (kmemory s) pgd d \<notin> set xs"
    "unat d < 1024 \<Longrightarrow> present (kmemory s) pgd d \<Longrightarrow> table (kmemory s) pgd d \<noteq> pgd"
    "unat d < 1024 \<Longrightarrow> unat e < 1024 \<Longrightarrow> present (kmemory s) pgd d \<Longrightarrow> present (kmemory s) pgd e \<Longrightarrow>
        table (kmemory s) pgd d = table (kmemory s) pgd e \<Longrightarrow> d = e"
  using assms unfolding pt_ok_def by blast+

lemma pt_okI:
  assumes "kmem_rel kend s xs" "kpage kend pgd" "pgd \<notin> set xs"
    "\<And>d. unat d < 1024 \<Longrightarrow> present (kmemory s) pgd d \<Longrightarrow>
        kpage kend (table (kmemory s) pgd d) \<and> table (kmemory s) pgd d \<notin> set xs \<and>
        table (kmemory s) pgd d \<noteq> pgd"
    "\<And>d e. unat d < 1024 \<Longrightarrow> unat e < 1024 \<Longrightarrow> present (kmemory s) pgd d \<Longrightarrow> present (kmemory s) pgd e \<Longrightarrow>
        table (kmemory s) pgd d = table (kmemory s) pgd e \<Longrightarrow> d = e"
  shows "pt_ok kend s pgd xs"
  using assms unfolding pt_ok_def by blast

lemma kmemory_set_mem [simp]: "kmemory (set_mem m s) = m"
  by (simp add: set_mem_def)

lemma kmem_rel_mem:
  assumes "kmem_rel kend s xs" "\<And>x. x \<in> set xs \<Longrightarrow> load32 m x = load32 (kmemory s) x"
  shows "kmem_rel kend (set_mem m s) xs"
  using assms free_chain_cong [of xs m "kmemory s"] by (simp add: kmem_rel_def set_mem_def)

lemma kmem_rel_aligned: "kmem_rel kend s xs \<Longrightarrow> x \<in> set xs \<Longrightarrow> 4096 dvd unat x"
  by (auto simp: kmem_rel_def intro: kpage_aligned)

lemma kmem_rel_slot:
  assumes "kmem_rel kend s xs" "4096 dvd unat p" "p \<notin> set xs" "unat i < 1024"
  shows "kmem_rel kend (set_mem (store32 (kmemory s) (p + 4 * i) v) s) xs"
proof (rule kmem_rel_mem [OF assms(1)])
  fix x assume x: "x \<in> set xs"
  with assms(3) have "p \<noteq> x" by auto
  with load32_store32_slot [OF assms(2) kmem_rel_aligned [OF assms(1) x] assms(4), of 0]
  show "load32 (store32 (kmemory s) (p + 4 * i) v) x = load32 (kmemory s) x" by simp
qed

lemma kmem_rel_zero:
  assumes "kmem_rel kend s xs" "4096 dvd unat p" "p \<notin> set xs"
  shows "kmem_rel kend (set_mem (memset (kmemory s) p 0 PGSIZE) s) xs"
proof (rule kmem_rel_mem [OF assms(1)])
  fix x assume x: "x \<in> set xs"
  with assms(3) have "p \<noteq> x" by auto
  with load32_memset_slot [OF assms(2) kmem_rel_aligned [OF assms(1) x], of 0]
  show "load32 (memset (kmemory s) p 0 PGSIZE) x = load32 (kmemory s) x" by simp
qed

text \<open>Taking a fresh page \<open>x\<close> as the table of an absent directory entry changes no lookup.\<close>

lemma new_table:
  assumes ok: "pt_ok kend s pgd (x # xs)" and a: "kalloc s = (x, s1)"
    and d: "unat d < 1024" "\<not> present (kmemory s) pgd d"
    and m: "m = store32 (memset (kmemory s1) x 0 PGSIZE) (pgd + 4 * d) (V2P x OR PTE_P OR PTE_W OR PTE_U)"
  shows "pt_ok kend (set_mem m s1) pgd xs" "present m pgd d" "table m pgd d = x"
    "unat k < 1024 \<Longrightarrow> present m pgd k \<longleftrightarrow> k = d \<or> present (kmemory s) pgd k"
    "unat k < 1024 \<Longrightarrow> table m pgd k = (if k = d then x else table (kmemory s) pgd k)"
    "lookup m pgd va = lookup (kmemory s) pgd va"
proof -
  note I = pt_okD [OF ok]
  have s1: "kmemory s1 = kmemory s" using a by (auto simp: kalloc_def Let_def split: if_splits)
  have r1: "kmem_rel kend s1 xs" using kalloc_rel [OF I(1)] a by simp
  have xk: "kpage kend x" "x \<notin> set xs" and xp: "x \<noteq> pgd" using I(1,3) by (auto simp: kmem_rel_def)
  have al: "4096 dvd unat x" "4096 dvd unat pgd" using xk I(2) kpage_aligned by blast+
  let ?e = "V2P x OR PTE_P OR PTE_W OR PTE_U"
  have e: "PTE_ADDR ?e = V2P x"
    using PTE_ADDR_or [OF aligned_V2P [OF al(1)], of "PTE_P OR PTE_W OR PTE_U"]
    by (simp add: PTE_P_def PTE_W_def PTE_U_def)
  have eP: "?e AND PTE_P \<noteq> 0"
  proof
    assume "?e AND PTE_P = 0"
    then have "bit (?e AND PTE_P) 0 = bit (0 :: uint) 0" by simp
    then show False by (simp add: bit_simps PTE_P_def)
  qed
  have pde: "load32 m (pgd + 4 * k) = (if k = d then ?e else load32 (kmemory s) (pgd + 4 * k))"
    if "unat k < 1024" for k
    using that d(1) al xp
    by (auto simp: m load32_store32_slot load32_memset_slot s1)
  have pr: "present m pgd k \<longleftrightarrow> k = d \<or> present (kmemory s) pgd k" if "unat k < 1024" for k
    using pde [OF that] eP by (simp add: present_def)
  have tb: "table m pgd k = (if k = d then x else table (kmemory s) pgd k)" if "unat k < 1024" for k
    using pde [OF that] e by (simp add: table_def)
  show "present m pgd d" "table m pgd d = x" using pr tb d by simp_all
  show "unat k < 1024 \<Longrightarrow> present m pgd k \<longleftrightarrow> k = d \<or> present (kmemory s) pgd k"
    "unat k < 1024 \<Longrightarrow> table m pgd k = (if k = d then x else table (kmemory s) pgd k)"
    by (rule pr, assumption) (rule tb, assumption)
  have "kmem_rel kend (set_mem (memset (kmemory s1) x 0 PGSIZE) s1) xs"
    using r1 al(1) xk(2) by (rule kmem_rel_zero)
  from kmem_rel_slot [OF this al(2) _ d(1), of ?e] I(3)
  have rel: "kmem_rel kend (set_mem m s1) xs" by (simp add: m set_mem_def)
  show "pt_ok kend (set_mem m s1) pgd xs"
  proof (rule pt_okI)
    show "kpage kend (table (kmemory (set_mem m s1)) pgd k) \<and> table (kmemory (set_mem m s1)) pgd k \<notin> set xs \<and>
        table (kmemory (set_mem m s1)) pgd k \<noteq> pgd"
      if "unat k < 1024" "present (kmemory (set_mem m s1)) pgd k" for k
      using that I(4-6) [of k] xk xp by (auto simp: pr tb)
    show "k = l" if "unat k < 1024" "unat l < 1024" "present (kmemory (set_mem m s1)) pgd k"
        "present (kmemory (set_mem m s1)) pgd l"
        "table (kmemory (set_mem m s1)) pgd k = table (kmemory (set_mem m s1)) pgd l" for k l
      using that I(5) [of k] I(5) [of l] I(7) [of k l]
      by (cases "k = d"; cases "l = d") (simp_all add: pr tb)
  qed (use rel I(2,3) in auto)
  show "lookup m pgd va = lookup (kmemory s) pgd va"
  proof (cases "PDX va = d")
    case True
    have "load32 m (x + 4 * PTX va) = 0"
      using al xp d(1) PDX_PTX_lt(2) [of va] by (simp add: m load32_store32_slot load32_memset_slot)
    with True d pr tb PDX_PTX_lt(1) [of va] show ?thesis by (simp add: lookup_def)
  next
    case False
    have "load32 m (table (kmemory s) pgd (PDX va) + 4 * PTX va) =
        load32 (kmemory s) (table (kmemory s) pgd (PDX va) + 4 * PTX va)"
      if p: "present (kmemory s) pgd (PDX va)"
    proof -
      let ?t = "table (kmemory s) pgd (PDX va)"
      have "4096 dvd unat ?t" "?t \<noteq> x" "?t \<noteq> pgd"
        using I(4-6) [OF PDX_PTX_lt(1) p] kpage_aligned by auto
      then show ?thesis
        using al d(1) PDX_PTX_lt(2) [of va] by (simp add: m load32_store32_slot load32_memset_slot s1)
    qed
    with False pr tb PDX_PTX_lt(1) [of va] show ?thesis by (simp add: lookup_def)
  qed
qed

section \<open>Walking and mapping\<close>

lemma same_page: "PDX a = PDX b \<and> PTX a = PTX b \<longleftrightarrow> PGROUNDDOWN a = PGROUNDDOWN b"
proof
  have "PGADDR (PDX a) (PTX a) 0 = PGROUNDDOWN a" for a
    unfolding PGROUNDDOWN_def PGSIZE_minus_1
    by (rule bit_word_eqI) (auto simp: PGADDR_def PDX_def PTX_def PDXSHIFT_def PTXSHIFT_def and_3FF bit_simps)
  then show "PDX a = PDX b \<and> PTX a = PTX b \<Longrightarrow> PGROUNDDOWN a = PGROUNDDOWN b" by metis
  have "PDX (PGROUNDDOWN a) = PDX a" "PTX (PGROUNDDOWN a) = PTX a" for a
    unfolding PGROUNDDOWN_def PGSIZE_minus_1
    by (rule bit_word_eqI; auto simp: PDX_def PTX_def PDXSHIFT_def PTXSHIFT_def and_3FF bit_simps)+
  then show "PGROUNDDOWN a = PGROUNDDOWN b \<Longrightarrow> PDX a = PDX b \<and> PTX a = PTX b" by metis
qed

lemma walkpgdir_present:
  "present (kmemory s) pgd (PDX va) \<Longrightarrow>
     walkpgdir s pgd va alloc = (table (kmemory s) pgd (PDX va) + 4 * PTX va, s)"
  by (simp add: walkpgdir_def present_def table_def)

lemma walkpgdir_absent:
  "\<not> present (kmemory s) pgd (PDX va) \<Longrightarrow> walkpgdir s pgd va False = (0, s)"
  by (simp add: walkpgdir_def present_def)

lemma kpage_slot_nonzero:
  assumes "kpage kend t" "unat i < 1024"
  shows "t + 4 * i \<noteq> 0"
proof -
  have "t \<noteq> 0" using assms(1) kpage_nonzero by auto
  moreover have "unat (t + 4 * i) = unat t + 4 * unat i"
    using unat_slot [OF kpage_aligned [OF assms(1)] assms(2), of 0] by simp
  ultimately show ?thesis by (metis add_is_0 unat_0 unat_eq_zero)
qed

text \<open>The directory entry \<open>d\<close> is there afterwards; when it was not there before, its table is the
  first page of the free list.\<close>

definition new_dir :: "memory \<Rightarrow> memory \<Rightarrow> uint \<Rightarrow> uint \<Rightarrow> uint list \<Rightarrow> uint list \<Rightarrow> bool" where
  "new_dir m m' pgd d xs xs' \<longleftrightarrow>
     (\<forall>k. unat k < 1024 \<longrightarrow> (present m' pgd k \<longleftrightarrow> present m pgd k \<or> k = d) \<and>
        (present m pgd k \<longrightarrow> table m' pgd k = table m pgd k)) \<and>
     (if present m pgd d then xs' = xs else xs = table m' pgd d # xs')"

text \<open>\<open>walkpgdir\<close> with allocation: either there is no table and no free page, or it gives the slot
  of the entry and the page table is the same function as before.\<close>

lemma walkpgdir_alloc:
  assumes ok: "pt_ok kend s pgd xs"
  obtains "walkpgdir s pgd va True = (0, s)" "xs = []" "\<not> present (kmemory s) pgd (PDX va)"
  | s' xs' where "walkpgdir s pgd va True = (table (kmemory s') pgd (PDX va) + 4 * PTX va, s')"
      "pt_ok kend s' pgd xs'" "present (kmemory s') pgd (PDX va)" "suffix xs' xs"
      "\<And>va'. lookup (kmemory s') pgd va' = lookup (kmemory s) pgd va'"
      "\<And>k. unat k < 1024 \<Longrightarrow> present (kmemory s') pgd k \<Longrightarrow>
         present (kmemory s) pgd k \<and> table (kmemory s') pgd k = table (kmemory s) pgd k \<or>
         table (kmemory s') pgd k \<in> set xs - set xs'"
      "new_dir (kmemory s) (kmemory s') pgd (PDX va) xs xs'"
proof (cases "present (kmemory s) pgd (PDX va)")
  case True
  with ok walkpgdir_present [OF True, of True] show ?thesis by (intro that(2)) (auto simp: new_dir_def)
next
  case absent: False
  show ?thesis
  proof (cases xs)
    case Nil
    then have "kalloc s = (0, s)" using pt_okD(1) [OF ok] by (simp add: kmem_rel_def kalloc_def)
    with absent have "walkpgdir s pgd va True = (0, s)" by (simp add: walkpgdir_def present_def)
    with Nil absent show ?thesis by (intro that(1))
  next
    case (Cons x xs')
    have "fst (kalloc s) = x" using kalloc_rel pt_okD(1) [OF ok] Cons by blast
    then obtain s1 where a: "kalloc s = (x, s1)" by (metis prod.collapse)
    have x: "x \<noteq> 0" using pt_okD(1) [OF ok] Cons by (auto simp: kmem_rel_def)
    let ?m = "store32 (memset (kmemory s1) x 0 PGSIZE) (pgd + 4 * PDX va) (V2P x OR PTE_P OR PTE_W OR PTE_U)"
    note n = new_table [OF ok [unfolded Cons] a PDX_PTX_lt(1) absent refl]
    have "walkpgdir s pgd va True = (table ?m pgd (PDX va) + 4 * PTX va, set_mem ?m s1)"
      using absent a x n(3) by (simp add: walkpgdir_def present_def)
    moreover have "present (kmemory s) pgd k \<and> table ?m pgd k = table (kmemory s) pgd k \<or>
        table ?m pgd k \<in> set xs - set xs'" if "unat k < 1024" "present ?m pgd k" for k
      using that n(4,5) [OF that(1)] Cons pt_okD(1) [OF ok] by (auto simp: kmem_rel_def)
    moreover have "new_dir (kmemory s) ?m pgd (PDX va) xs xs'"
      using absent n(3-5) Cons by (auto simp: new_dir_def)
    ultimately show ?thesis using n(1,2,6) Cons by (intro that(2) [of "set_mem ?m s1" xs']) (auto simp: suffix_def)
  qed
qed

text \<open>Writing an entry is a function update.\<close>

lemma set_entry:
  assumes ok: "pt_ok kend s pgd xs" and p: "present (kmemory s) pgd (PDX va)"
    and m: "m = store32 (kmemory s) (table (kmemory s) pgd (PDX va) + 4 * PTX va) v"
  shows "pt_ok kend (set_mem m s) pgd xs"
    "lookup m pgd va' = (if PGROUNDDOWN va' = PGROUNDDOWN va then v else lookup (kmemory s) pgd va')"
    "unat k < 1024 \<Longrightarrow> present m pgd k = present (kmemory s) pgd k"
    "unat k < 1024 \<Longrightarrow> table m pgd k = table (kmemory s) pgd k"
proof -
  note I = pt_okD [OF ok]
  let ?t = "table (kmemory s) pgd (PDX va)"
  have t: "kpage kend ?t" "?t \<notin> set xs" "?t \<noteq> pgd" using I(4-6) [OF PDX_PTX_lt(1) p] by auto
  have al: "4096 dvd unat ?t" "4096 dvd unat pgd" using t(1) I(2) kpage_aligned by blast+
  have pde: "load32 m (pgd + 4 * k) = load32 (kmemory s) (pgd + 4 * k)" if "unat k < 1024" for k
    using al t(3) that PDX_PTX_lt(2) [of va] by (simp add: m load32_store32_slot)
  then have pr: "present m pgd k = present (kmemory s) pgd k" "table m pgd k = table (kmemory s) pgd k"
    if "unat k < 1024" for k
    using that by (simp_all add: present_def table_def)
  show "unat k < 1024 \<Longrightarrow> present m pgd k = present (kmemory s) pgd k"
    "unat k < 1024 \<Longrightarrow> table m pgd k = table (kmemory s) pgd k"
    by (rule pr, assumption)+
  show "pt_ok kend (set_mem m s) pgd xs"
  proof (rule pt_okI)
    show "kmem_rel kend (set_mem m s) xs"
      unfolding m using I(1) al(1) t(2) PDX_PTX_lt(2) by (rule kmem_rel_slot)
  qed (use I pr in auto)
  show "lookup m pgd va' = (if PGROUNDDOWN va' = PGROUNDDOWN va then v else lookup (kmemory s) pgd va')"
  proof (cases "present (kmemory s) pgd (PDX va')")
    case True
    let ?u = "table (kmemory s) pgd (PDX va')"
    have u: "4096 dvd unat ?u" using I(4) [OF PDX_PTX_lt(1) True] kpage_aligned by blast
    have tu: "?t = ?u \<longleftrightarrow> PDX va' = PDX va" using I(7) [OF PDX_PTX_lt(1) PDX_PTX_lt(1) p True] by metis
    have "load32 m (?u + 4 * PTX va') =
        (if ?t = ?u \<and> PTX va = PTX va' then v else load32 (kmemory s) (?u + 4 * PTX va'))"
      unfolding m by (rule load32_store32_slot [OF al(1) u PDX_PTX_lt(2) PDX_PTX_lt(2)])
    also have "\<dots> = (if PGROUNDDOWN va' = PGROUNDDOWN va then v else load32 (kmemory s) (?u + 4 * PTX va'))"
      unfolding tu same_page [of va' va, symmetric] by (rule if_cong) (auto simp: eq_commute)
    finally show ?thesis using True pr [OF PDX_PTX_lt(1)] by (simp add: lookup_def)
  next
    case False
    then have "PGROUNDDOWN va' \<noteq> PGROUNDDOWN va" using p same_page [of va' va] by auto
    with False pr [OF PDX_PTX_lt(1)] show ?thesis by (simp add: lookup_def)
  qed
qed

lemma PGROUNDDOWN_self: "4096 dvd unat a \<Longrightarrow> PGROUNDDOWN a = a"
  by (simp add: word_unat_eq_iff unat_PGROUNDDOWN)

lemma aligned_sub: "4096 dvd unat a \<Longrightarrow> 4096 dvd unat b \<Longrightarrow> 4096 dvd unat (a - b :: uint)"
  unfolding unat_sub_if' by auto

lemma aligned_add_page: "4096 dvd unat a \<Longrightarrow> 4096 dvd unat (a + PGSIZE)"
  unfolding unat_plus_if' by auto

lemma aligned_PGROUNDDOWN: "4096 dvd unat (PGROUNDDOWN a)"
  by (simp add: unat_PGROUNDDOWN)

text \<open>The page offset \<open>o\<close> from \<open>a\<close>, seen from the next page.\<close>

lemma next_page_range:
  assumes "4096 dvd unat (k :: uint)" "Suc n < 2 ^ 20"
  shows "unat (k - PGSIZE) \<le> 4096 * n \<longleftrightarrow> k \<noteq> 0 \<and> unat k \<le> 4096 * Suc n"
proof (cases "k = 0")
  case True
  then show ?thesis using assms(2) by (simp add: PGSIZE_def)
next
  case False
  then have "4096 \<le> unat k" using assms(1) by (metis dvd_imp_le neq0_conv unat_eq_zero)
  then have "unat (k - PGSIZE) = unat k - 4096" by (simp add: unat_sub_if')
  with False show ?thesis by auto
qed

lemma of_nat_pages:
  assumes "n < 2 ^ 20"
  shows "4096 * (of_nat n :: uint) = 0 \<longleftrightarrow> n = 0"
proof -
  have "unat (4096 * (of_nat n :: uint)) = 4096 * n"
    using assms by (simp add: unat_word_ariths unat_of_nat take_bit_eq_mod)
  then show ?thesis by (metis mult_is_0 unat_0 unat_eq_zero zero_neq_numeral)
qed

text \<open>One turn of the loop of \<open>mappages\<close>.\<close>

lemma map_one:
  assumes "pt_ok kend s pgd xs" "lookup (kmemory s) pgd a AND PTE_P = 0"
  obtains "walkpgdir s pgd a True = (0, s)" "xs = []" "\<not> present (kmemory s) pgd (PDX a)"
  | pte s1 xs1 where "walkpgdir s pgd a True = (pte, s1)" "pte \<noteq> 0" "load32 (kmemory s1) pte AND PTE_P = 0"
      "suffix xs1 xs" "\<And>v. pt_ok kend (set_mem (store32 (kmemory s1) pte v) s1) pgd xs1"
      "\<And>v va. lookup (store32 (kmemory s1) pte v) pgd va =
         (if PGROUNDDOWN va = PGROUNDDOWN a then v else lookup (kmemory s) pgd va)"
      "\<And>v k. unat k < 1024 \<Longrightarrow> present (store32 (kmemory s1) pte v) pgd k \<Longrightarrow>
         present (kmemory s) pgd k \<and> table (store32 (kmemory s1) pte v) pgd k = table (kmemory s) pgd k \<or>
         table (store32 (kmemory s1) pte v) pgd k \<in> set xs - set xs1"
      "\<And>v. new_dir (kmemory s) (store32 (kmemory s1) pte v) pgd (PDX a) xs xs1"
proof (rule walkpgdir_alloc [OF assms(1), of a])
  fix s1 xs1
  assume w: "walkpgdir s pgd a True = (table (kmemory s1) pgd (PDX a) + 4 * PTX a, s1)"
    and ok: "pt_ok kend s1 pgd xs1" and p: "present (kmemory s1) pgd (PDX a)" and sf: "suffix xs1 xs"
    and lk: "\<And>va. lookup (kmemory s1) pgd va = lookup (kmemory s) pgd va"
    and tb: "\<And>k. unat k < 1024 \<Longrightarrow> present (kmemory s1) pgd k \<Longrightarrow>
         present (kmemory s) pgd k \<and> table (kmemory s1) pgd k = table (kmemory s) pgd k \<or>
         table (kmemory s1) pgd k \<in> set xs - set xs1"
    and nd: "new_dir (kmemory s) (kmemory s1) pgd (PDX a) xs xs1"
  have "table (kmemory s1) pgd (PDX a) + 4 * PTX a \<noteq> 0"
    using pt_okD(4) [OF ok PDX_PTX_lt(1) p] PDX_PTX_lt(2) by (rule kpage_slot_nonzero)
  moreover have "load32 (kmemory s1) (table (kmemory s1) pgd (PDX a) + 4 * PTX a) AND PTE_P = 0"
    using lk [of a] p assms(2) by (simp add: lookup_def)
  moreover let ?m = "\<lambda>v. store32 (kmemory s1) (table (kmemory s1) pgd (PDX a) + 4 * PTX a) v"
  have "present (kmemory s) pgd k \<and> table (?m v) pgd k = table (kmemory s) pgd k \<or>
      table (?m v) pgd k \<in> set xs - set xs1" if "unat k < 1024" "present (?m v) pgd k" for v k
    using tb [OF that(1)] that(2) unfolding set_entry(3,4) [OF ok p refl that(1)] by blast
  moreover have "new_dir (kmemory s) (?m v) pgd (PDX a) xs xs1" for v
    using nd set_entry(3,4) [OF ok p refl] PDX_PTX_lt(1) [of a] by (simp add: new_dir_def)
  ultimately show ?thesis
    using set_entry(1,2) [OF ok p refl] lk by (intro that(2) [OF w _ _ sf]) simp_all
qed (rule that(1))

lemma mappages_loop_maps:
  assumes "pt_ok kend s pgd xs" "4096 dvd unat a" "n < 2 ^ 20" "lst = a + 4096 * of_nat n"
    "\<And>va. unat (PGROUNDDOWN va - a) \<le> 4096 * n \<Longrightarrow> lookup (kmemory s) pgd va AND PTE_P = 0"
  shows "\<exists>r s' xs'. mappages_loop (Suc n) s pgd a lst pa perm = Inr (r, s') \<and> pt_ok kend s' pgd xs' \<and>
    suffix xs' xs \<and> (r = -1 \<and> xs' = [] \<or>
      r = 0 \<and> (\<forall>va. lookup (kmemory s') pgd va =
        (if unat (PGROUNDDOWN va - a) \<le> 4096 * n then (pa + (PGROUNDDOWN va - a)) OR perm OR PTE_P
         else lookup (kmemory s) pgd va)))"
  using assms
proof (induction n arbitrary: s xs a pa)
  case (0 s xs a)
  have a: "PGROUNDDOWN a = a" using 0(2) by (rule PGROUNDDOWN_self)
  then have "lookup (kmemory s) pgd a AND PTE_P = 0" by (intro 0(5)) simp
  with 0(1) show ?case
  proof (rule map_one)
    assume "walkpgdir s pgd a True = (0, s)" "xs = []"
    then show ?thesis using 0(1) by auto
  next
    fix pte s1 xs1
    assume "walkpgdir s pgd a True = (pte, s1)" "pte \<noteq> 0" "load32 (kmemory s1) pte AND PTE_P = 0"
      "suffix xs1 xs" "\<And>v. pt_ok kend (set_mem (store32 (kmemory s1) pte v) s1) pgd xs1"
      "\<And>v va. lookup (store32 (kmemory s1) pte v) pgd va =
         (if PGROUNDDOWN va = PGROUNDDOWN a then v else lookup (kmemory s) pgd va)"
    moreover have "unat (v - a) = 0 \<longleftrightarrow> v = a" for v by (simp add: unat_eq_zero)
    ultimately show ?thesis using a 0(4) by (auto simp: Let_def simp del: unat_eq_zero)
  qed
next
  case (Suc n s xs a)
  have a: "PGROUNDDOWN a = a" using Suc.prems(2) by (rule PGROUNDDOWN_self)
  then have "lookup (kmemory s) pgd a AND PTE_P = 0" by (intro Suc.prems(5)) simp
  with Suc.prems(1) show ?case
  proof (rule map_one)
    assume "walkpgdir s pgd a True = (0, s)" "xs = []"
    then show ?thesis using Suc.prems(1) by auto
  next
    fix pte s1 xs1
    assume w: "walkpgdir s pgd a True = (pte, s1)" "pte \<noteq> 0" "load32 (kmemory s1) pte AND PTE_P = 0"
      and sf: "suffix xs1 xs" and ok: "\<And>v. pt_ok kend (set_mem (store32 (kmemory s1) pte v) s1) pgd xs1"
      and lk: "\<And>v va. lookup (store32 (kmemory s1) pte v) pgd va =
         (if PGROUNDDOWN va = PGROUNDDOWN a then v else lookup (kmemory s) pgd va)"
    let ?s2 = "set_mem (store32 (kmemory s1) pte (pa OR perm OR PTE_P)) s1"
    have rng: "unat (PGROUNDDOWN va - (a + PGSIZE)) \<le> 4096 * n \<longleftrightarrow>
        PGROUNDDOWN va \<noteq> a \<and> unat (PGROUNDDOWN va - a) \<le> 4096 * Suc n" for va
      using next_page_range [OF aligned_sub [OF aligned_PGROUNDDOWN Suc.prems(2)] Suc.prems(3)]
      by (simp add: diff_diff_eq)
    have "lst = a + PGSIZE + 4096 * of_nat n" using Suc.prems(4) by (simp add: PGSIZE_def algebra_simps)
    moreover have "lookup (kmemory ?s2) pgd va AND PTE_P = 0"
      if "unat (PGROUNDDOWN va - (a + PGSIZE)) \<le> 4096 * n" for va
      using that Suc.prems(5) [of va] by (simp add: rng lk a)
    moreover have "n < 2 ^ 20" using Suc.prems(3) by simp
    ultimately obtain r s' xs' where
      l: "mappages_loop (Suc n) ?s2 pgd (a + PGSIZE) lst (pa + PGSIZE) perm = Inr (r, s')"
        "pt_ok kend s' pgd xs'" "suffix xs' xs1" and
      e: "r = -1 \<and> xs' = [] \<or> r = 0 \<and> (\<forall>va. lookup (kmemory s') pgd va =
        (if unat (PGROUNDDOWN va - (a + PGSIZE)) \<le> 4096 * n
         then (pa + PGSIZE + (PGROUNDDOWN va - (a + PGSIZE))) OR perm OR PTE_P
         else lookup (kmemory ?s2) pgd va))"
      using Suc.IH [OF ok aligned_add_page [OF Suc.prems(2)], of "pa OR perm OR PTE_P" "pa + PGSIZE"]
      by blast
    have "a \<noteq> lst" using of_nat_pages [OF Suc.prems(3)] Suc.prems(4) by auto
    with w l(1) have "mappages_loop (Suc (Suc n)) s pgd a lst pa perm = Inr (r, s')"
      by (simp add: Let_def)
    moreover have "pa + PGSIZE + (v - (a + PGSIZE)) = pa + (v - a)" for v by simp
    with e have "r = -1 \<and> xs' = [] \<or> r = 0 \<and> (\<forall>va. lookup (kmemory s') pgd va =
        (if unat (PGROUNDDOWN va - a) \<le> 4096 * Suc n then (pa + (PGROUNDDOWN va - a)) OR perm OR PTE_P
         else lookup (kmemory s) pgd va))"
      by (auto simp: rng lk a)
    ultimately show ?thesis using l(2,3) sf by (blast intro: suffix_order.trans)
  qed
qed

lemma mappages_loop_bound:
  fixes lo hi :: uint
  assumes "4096 dvd unat lo" "4096 dvd unat hi"
  defines "n \<equiv> unat ((hi - lo) div PGSIZE)"
  shows "n < 2 ^ 20" "hi = lo + 4096 * of_nat n" "4096 * n = unat (hi - lo)"
proof -
  have n: "n = unat (hi - lo) div 4096" by (simp add: n_def unat_div)
  with aligned_sub [OF assms(2,1)] show e: "4096 * n = unat (hi - lo)" by simp
  with unat_lt_32 [of "hi - lo"] show "n < 2 ^ 20" by simp
  have "4096 * of_nat n = (of_nat (4096 * n) :: uint)" by simp
  then show "hi = lo + 4096 * of_nat n" unfolding e by simp
qed

text \<open>C17: \<open>mappages\<close> refines the update of a function from pages to entries: on a well-formed page
  table none of whose pages in the range is mapped, it always returns, keeps the table
  well formed, and on success the pages of the range map to consecutive physical pages
  with the given permissions while every other page keeps its entry; it fails only when the
  free list is exhausted.\<close>

theorem mappages_refines:
  assumes "pt_ok kend s pgd xs"
    "\<And>v. unat (PGROUNDDOWN v - PGROUNDDOWN va) \<le> unat (PGROUNDDOWN (va + n - 1) - PGROUNDDOWN va) \<Longrightarrow>
       lookup (kmemory s) pgd v AND PTE_P = 0"
  shows "\<exists>r s' xs'. mappages s pgd va n pa perm = Inr (r, s') \<and> pt_ok kend s' pgd xs' \<and> suffix xs' xs \<and>
    (r = -1 \<and> xs' = [] \<or>
     r = 0 \<and> (\<forall>v. lookup (kmemory s') pgd v =
       (if unat (PGROUNDDOWN v - PGROUNDDOWN va) \<le> unat (PGROUNDDOWN (va + n - 1) - PGROUNDDOWN va)
        then (pa + (PGROUNDDOWN v - PGROUNDDOWN va)) OR perm OR PTE_P
        else lookup (kmemory s) pgd v)))"
proof -
  note b = mappages_loop_bound [OF aligned_PGROUNDDOWN [of va] aligned_PGROUNDDOWN [of "va + n - 1"]]
  show ?thesis
    using mappages_loop_maps [OF assms(1) aligned_PGROUNDDOWN b(1,2), where pa = pa and perm = perm] assms(2)
    unfolding b(3) mappages_def Let_def by blast
qed

text \<open>A machine with an empty page directory and one free page.\<close>

definition vm0 :: kmem where
  "vm0 = \<lparr>use_lock = True, freelist = 0x80300000, kmemory = (\<lambda>_. 0)\<rparr>"

lemma vm0_ok: "pt_ok 0x80110000 vm0 0x80200000 [0x80300000]"
  by (simp add: pt_ok_def kmem_rel_def vm0_def kpage_def kfree_bad_def V2P_def present_def load32_def mmu_consts)

lemma vm0_lookup: "lookup (kmemory vm0) 0x80200000 v = 0"
  by (simp add: lookup_def vm0_def present_def load32_def)

theorem mappages_refines_witness:
  "\<exists>r s' xs'. mappages vm0 0x80200000 0x4000 PGSIZE 0x5000 (PTE_W OR PTE_U) = Inr (r, s') \<and>
     pt_ok 0x80110000 s' 0x80200000 xs'"
  using mappages_refines [OF vm0_ok, of "0x4000" PGSIZE "0x5000" "PTE_W OR PTE_U"] vm0_lookup by auto

section \<open>Growing and shrinking\<close>

lemma unat_next_dir:
  assumes "a < KERNBASE"
  shows "unat (PGADDR (PDX a + 1) 0 0) = (unat a div 2 ^ 22 + 1) * 2 ^ 22"
proof -
  have a: "unat a < 2 ^ 31" using assms by (simp add: word_less_nat_alt KERNBASE_def)
  have d: "unat (drop_bit 22 a) = unat a div 2 ^ 22"
    by (simp add: unsigned_drop_bit_eq drop_bit_eq_div unat_div)
  have "unat a div 2 ^ 22 < 512" using a by simp
  then have "unat (PDX a) = unat a div 2 ^ 22"
    by (simp add: PDX_def PDXSHIFT_def and_3FF unsigned_take_bit_eq d take_bit_nat_eq_self)
  with \<open>unat a div 2 ^ 22 < 512\<close> have p: "unat (PDX a + 1) = unat a div 2 ^ 22 + 1"
    by (simp add: unat_plus_if')
  have e: "PGADDR (PDX a + 1) 0 0 = push_bit 22 (PDX a + 1)"
    by (simp add: PGADDR_def PDXSHIFT_def)
  show ?thesis unfolding e unsigned_push_bit_eq p
    using \<open>unat a div 2 ^ 22 < 512\<close> by (simp add: push_bit_eq_mult take_bit_eq_mod)
qed

lemma deallocuvm_skip:
  assumes "a < KERNBASE" "4096 dvd unat a"
  shows "unat a + 4096 \<le> unat (PGADDR (PDX a + 1) 0 0)" "4096 dvd unat (PGADDR (PDX a + 1) 0 0)"
proof -
  show d: "4096 dvd unat (PGADDR (PDX a + 1) 0 0)" unfolding unat_next_dir [OF assms(1)] by simp
  have "unat a < unat (PGADDR (PDX a + 1) 0 0)"
    unfolding unat_next_dir [OF assms(1)] using div_mult_mod_eq [of "unat a" "2 ^ 22"] mod_less_divisor [of "2 ^ 22" "unat a"]
    by simp
  with assms(2) d show "unat a + 4096 \<le> unat (PGADDR (PDX a + 1) 0 0)" by (intro aligned_less)
qed

lemma deallocuvm_loop_returns:
  assumes "oldsz \<le> KERNBASE" "4096 dvd unat a" "unat oldsz \<le> unat a + 4096 * k"
  shows "deallocuvm_loop (Suc k) kend s pgd a oldsz \<noteq> Inl (Block ''deallocuvm'')"
  using assms(2,3)
proof (induction k arbitrary: a s)
  case 0
  then show ?case by (simp add: word_less_nat_alt)
next
  case (Suc k)
  show ?case
  proof (cases "a < oldsz")
    case True
    then have "a < KERNBASE" using assms(1) by simp
    note sk = deallocuvm_skip [OF this Suc.prems(1)]
    have "unat (a + PGSIZE) = unat a + 4096"
      using \<open>a < KERNBASE\<close> by (simp add: unat_plus_if' word_less_nat_alt KERNBASE_def)
    with Suc.prems have nx: "unat oldsz \<le> unat (a + PGSIZE) + 4096 * k" by simp
    have "unat oldsz \<le> unat (PGADDR (PDX a + 1) 0 0) + 4096 * k" using sk(1) Suc.prems(2) by simp
    with sk(2) have "deallocuvm_loop (Suc k) kend s' pgd (PGADDR (PDX a + 1) 0 0) oldsz \<noteq> Inl (Block ''deallocuvm'')" for s'
      by (intro Suc.IH)
    moreover have "deallocuvm_loop (Suc k) kend s' pgd (a + PGSIZE) oldsz \<noteq> Inl (Block ''deallocuvm'')" for s'
      using nx aligned_add_page [OF Suc.prems(1)] by (intro Suc.IH)
    ultimately show ?thesis
      by (subst deallocuvm_loop.simps)
        (auto simp del: deallocuvm_loop.simps simp: Let_def panic_def kfree_def split: prod.split)
  qed simp
qed

end
