(* ===== verification/Xv6_Uvm.thy ===== *)
theory Xv6_Uvm
  imports Xv6_Vm
begin

text \<open>
  User address spaces (the invariant behind \<open>allocuvm\<close> and \<open>deallocuvm\<close> of
  Xv6-Syscall/src/vm.c).  In a well-formed user address space every mapped user page has a
  physical page of its own, which is neither free nor part of the page table.  Shrinking
  returns exactly the unmapped pages to the free list, growing takes its pages from there,
  and both keep the invariant and never panic.
\<close>

section \<open>The invariant\<close>

definition mapped :: "memory \<Rightarrow> uint \<Rightarrow> uint \<Rightarrow> bool" where
  "mapped m pgd va \<longleftrightarrow> lookup m pgd va AND PTE_P \<noteq> 0"

text \<open>The kernel address of the physical page behind a user page.\<close>

definition frame :: "memory \<Rightarrow> uint \<Rightarrow> uint \<Rightarrow> uint" where
  "frame m pgd va = P2V (PTE_ADDR (lookup m pgd va))"

definition vm_ok :: "uint \<Rightarrow> kmem \<Rightarrow> uint \<Rightarrow> uint list \<Rightarrow> bool" where
  "vm_ok kend s pgd xs \<longleftrightarrow> pt_ok kend s pgd xs \<and>
     (\<forall>va < KERNBASE. mapped (kmemory s) pgd va \<longrightarrow>
        kpage kend (frame (kmemory s) pgd va) \<and> frame (kmemory s) pgd va \<notin> set xs \<and>
        frame (kmemory s) pgd va \<noteq> pgd \<and>
        (\<forall>d. unat d < 1024 \<longrightarrow> present (kmemory s) pgd d \<longrightarrow> frame (kmemory s) pgd va \<noteq> table (kmemory s) pgd d)) \<and>
     (\<forall>va < KERNBASE. \<forall>vb < KERNBASE. mapped (kmemory s) pgd va \<longrightarrow> mapped (kmemory s) pgd vb \<longrightarrow>
        frame (kmemory s) pgd va = frame (kmemory s) pgd vb \<longrightarrow> PGROUNDDOWN va = PGROUNDDOWN vb)"

lemma vm_okD:
  assumes "vm_ok kend s pgd xs"
  shows "pt_ok kend s pgd xs"
    "va < KERNBASE \<Longrightarrow> mapped (kmemory s) pgd va \<Longrightarrow> kpage kend (frame (kmemory s) pgd va)"
    "va < KERNBASE \<Longrightarrow> mapped (kmemory s) pgd va \<Longrightarrow> frame (kmemory s) pgd va \<notin> set xs"
    "va < KERNBASE \<Longrightarrow> mapped (kmemory s) pgd va \<Longrightarrow> frame (kmemory s) pgd va \<noteq> pgd"
    "va < KERNBASE \<Longrightarrow> mapped (kmemory s) pgd va \<Longrightarrow> unat d < 1024 \<Longrightarrow> present (kmemory s) pgd d \<Longrightarrow>
       frame (kmemory s) pgd va \<noteq> table (kmemory s) pgd d"
    "va < KERNBASE \<Longrightarrow> vb < KERNBASE \<Longrightarrow> mapped (kmemory s) pgd va \<Longrightarrow> mapped (kmemory s) pgd vb \<Longrightarrow>
       frame (kmemory s) pgd va = frame (kmemory s) pgd vb \<Longrightarrow> PGROUNDDOWN va = PGROUNDDOWN vb"
  using assms unfolding vm_ok_def by blast+

lemma vm_okI:
  assumes "pt_ok kend s pgd xs"
    "\<And>va. va < KERNBASE \<Longrightarrow> mapped (kmemory s) pgd va \<Longrightarrow>
       kpage kend (frame (kmemory s) pgd va) \<and> frame (kmemory s) pgd va \<notin> set xs \<and> frame (kmemory s) pgd va \<noteq> pgd"
    "\<And>va d. va < KERNBASE \<Longrightarrow> mapped (kmemory s) pgd va \<Longrightarrow> unat d < 1024 \<Longrightarrow> present (kmemory s) pgd d \<Longrightarrow>
       frame (kmemory s) pgd va \<noteq> table (kmemory s) pgd d"
    "\<And>va vb. va < KERNBASE \<Longrightarrow> vb < KERNBASE \<Longrightarrow> mapped (kmemory s) pgd va \<Longrightarrow> mapped (kmemory s) pgd vb \<Longrightarrow>
       frame (kmemory s) pgd va = frame (kmemory s) pgd vb \<Longrightarrow> PGROUNDDOWN va = PGROUNDDOWN vb"
  shows "vm_ok kend s pgd xs"
  using assms unfolding vm_ok_def by blast

lemma lookup_page: "PGROUNDDOWN a = PGROUNDDOWN b \<Longrightarrow> lookup m pgd a = lookup m pgd b"
  using same_page [of a b] by (simp add: lookup_def)

lemma mapped_page: "PGROUNDDOWN a = PGROUNDDOWN b \<Longrightarrow> mapped m pgd a = mapped m pgd b"
  unfolding mapped_def using lookup_page by metis

section \<open>Writes to a page that is not part of the page table\<close>

text \<open>A memory that agrees on every slot outside page \<open>p\<close>.\<close>

definition off_page :: "uint \<Rightarrow> memory \<Rightarrow> memory \<Rightarrow> bool" where
  "off_page p m m' \<longleftrightarrow> (\<forall>q j. 4096 dvd unat q \<longrightarrow> q \<noteq> p \<longrightarrow> unat j < 1024 \<longrightarrow>
     load32 m' (q + 4 * j) = load32 m (q + 4 * j))"

lemma off_page_memset: "4096 dvd unat p \<Longrightarrow> off_page p m (memset m p 0 PGSIZE)"
  by (simp add: off_page_def load32_memset_slot)

lemma off_page_kfree:
  assumes "kfree kend s p = Inr s'"
  shows "off_page p (kmemory s) (kmemory s')"
  unfolding off_page_def
proof (intro allI impI)
  fix q j :: uint assume q: "4096 dvd unat q" "q \<noteq> p" "unat j < 1024"
  have s': "kmemory s' = kfree_mem (kmemory s) p (freelist s)"
    and "\<not> kfree_bad kend p"
    using assms by (auto simp: kfree_def kfree_mem_def Let_def split: if_splits)
  then have p: "4096 dvd unat p" by (simp add: kfree_bad_def mod_PGSIZE mod_eq_0_iff_dvd)
  have "\<not> in_region p 4096 (q + 4 * j + x)" if "x < 4" for x
  proof -
    have "unat x < 4" using that by (simp add: word_less_nat_alt)
    moreover have "unat (4 * j) = 4 * unat j" using q(3) by (simp add: unat_word_ariths)
    ultimately have "unat (4 * j + x) < 4096" using q(3) by (simp add: unat_word_ariths)
    then show ?thesis using page_regions_disjoint [OF q(1) p q(2)] by (simp add: add.assoc)
  qed
  then show "load32 (kmemory s') (q + 4 * j) = load32 (kmemory s) (q + 4 * j)"
    unfolding s' by (intro kfree_w.load32_frame)
qed

lemma off_page_table:
  assumes "off_page p m m'" "pt_ok kend s pgd xs" "m = kmemory s" "p \<noteq> pgd"
    "\<forall>d. unat d < 1024 \<longrightarrow> present m pgd d \<longrightarrow> p \<noteq> table m pgd d"
  shows "unat d < 1024 \<Longrightarrow> present m' pgd d = present m pgd d"
    "unat d < 1024 \<Longrightarrow> table m' pgd d = table m pgd d"
    "lookup m' pgd va = lookup m pgd va" "mapped m' pgd va = mapped m pgd va"
    "frame m' pgd va = frame m pgd va"
proof -
  note I = pt_okD [OF assms(2), folded assms(3)]
  have "4096 dvd unat pgd" using I(2) by (rule kpage_aligned)
  then have pde: "load32 m' (pgd + 4 * k) = load32 m (pgd + 4 * k)" if "unat k < 1024" for k
    using assms(1,4) that unfolding off_page_def by metis
  then show pr: "present m' pgd d = present m pgd d" "table m' pgd d = table m pgd d"
    if "unat d < 1024" for d
    using that by (simp_all add: present_def table_def)
  have "load32 m' (table m pgd (PDX va) + 4 * PTX va) = load32 m (table m pgd (PDX va) + 4 * PTX va)"
    if "present m pgd (PDX va)" for va
    using assms(1) assms(5) [rule_format, OF PDX_PTX_lt(1) that] kpage_aligned [OF I(4) [OF PDX_PTX_lt(1) that]] PDX_PTX_lt(2)
    unfolding off_page_def by metis
  then show lk: "lookup m' pgd va = lookup m pgd va" for va
    using pr [OF PDX_PTX_lt(1)] by (simp add: lookup_def)
  show "mapped m' pgd va = mapped m pgd va" "frame m' pgd va = frame m pgd va"
    by (simp_all add: mapped_def frame_def lk)
qed

section \<open>Unmapping\<close>

text \<open>The directory is the same.\<close>

definition same_tables :: "memory \<Rightarrow> memory \<Rightarrow> uint \<Rightarrow> bool" where
  "same_tables m m' pgd \<longleftrightarrow> (\<forall>d. unat d < 1024 \<longrightarrow>
     present m' pgd d = present m pgd d \<and> table m' pgd d = table m pgd d)"

lemma same_tables_refl: "same_tables m m pgd"
  by (simp add: same_tables_def)

lemma same_tables_trans: "same_tables m m' pgd \<Longrightarrow> same_tables m' m'' pgd \<Longrightarrow> same_tables m m'' pgd"
  by (simp add: same_tables_def)

lemma vm_unmap:
  assumes ok: "vm_ok kend s pgd xs" and a: "a < KERNBASE" "mapped (kmemory s) pgd a"
  obtains s1 s2 where "kfree kend s (frame (kmemory s) pgd a) = Inr s1"
    "s2 = set_mem (store32 (kmemory s1) (table (kmemory s) pgd (PDX a) + 4 * PTX a) 0) s1"
    "vm_ok kend s2 pgd (frame (kmemory s) pgd a # xs)"
    "\<And>va. lookup (kmemory s2) pgd va = (if PGROUNDDOWN va = PGROUNDDOWN a then 0 else lookup (kmemory s) pgd va)"
    "same_tables (kmemory s) (kmemory s2) pgd"
proof -
  let ?f = "frame (kmemory s) pgd a"
  note V = vm_okD [OF ok] and I = pt_okD [OF vm_okD(1) [OF ok]]
  have p: "present (kmemory s) pgd (PDX a)" using a(2) by (auto simp: mapped_def lookup_def split: if_splits)
  obtain s1 where k: "kfree kend s ?f = Inr s1" and rel: "kmem_rel kend s1 (?f # xs)"
    using kfree_rel [OF I(1) V(2,3) [OF a]] by blast
  have ft: "\<forall>d. unat d < 1024 \<longrightarrow> present (kmemory s) pgd d \<longrightarrow> ?f \<noteq> table (kmemory s) pgd d"
    using V(5) [OF a] by blast
  note off = off_page_table [OF off_page_kfree [OF k] V(1) refl V(4) [OF a] ft]
  have ok1: "pt_ok kend s1 pgd (?f # xs)"
  proof (rule pt_okI)
    show "kpage kend (table (kmemory s1) pgd d) \<and> table (kmemory s1) pgd d \<notin> set (?f # xs) \<and>
        table (kmemory s1) pgd d \<noteq> pgd" if "unat d < 1024" "present (kmemory s1) pgd d" for d
      using that I(4-6) [of d] V(5) [OF a, of d] by (auto simp: off)
    show "d = e" if "unat d < 1024" "unat e < 1024" "present (kmemory s1) pgd d" "present (kmemory s1) pgd e"
        "table (kmemory s1) pgd d = table (kmemory s1) pgd e" for d e
      using that I(7) [of d e] by (simp add: off)
  qed (use rel I(2,3) V(4) [OF a] in auto)
  have p1: "present (kmemory s1) pgd (PDX a)" using p off(1) [OF PDX_PTX_lt(1)] by simp
  have tb: "table (kmemory s1) pgd (PDX a) = table (kmemory s) pgd (PDX a)" using off(2) [OF PDX_PTX_lt(1)] .
  let ?m = "store32 (kmemory s1) (table (kmemory s) pgd (PDX a) + 4 * PTX a) 0"
  note se = set_entry [OF ok1 p1, of ?m 0, unfolded tb, OF refl]
  have lk: "lookup ?m pgd va = (if PGROUNDDOWN va = PGROUNDDOWN a then 0 else lookup (kmemory s) pgd va)" for va
    using se(2) [of va] by (simp add: off)
  then have mp: "mapped ?m pgd va \<longleftrightarrow> PGROUNDDOWN va \<noteq> PGROUNDDOWN a \<and> mapped (kmemory s) pgd va"
    and fr: "PGROUNDDOWN va \<noteq> PGROUNDDOWN a \<Longrightarrow> frame ?m pgd va = frame (kmemory s) pgd va" for va
    by (simp_all add: mapped_def frame_def)
  have "vm_ok kend (set_mem ?m s1) pgd (?f # xs)"
  proof (rule vm_okI)
    fix va assume va: "va < KERNBASE" "mapped (kmemory (set_mem ?m s1)) pgd va"
    then have v: "PGROUNDDOWN va \<noteq> PGROUNDDOWN a" "mapped (kmemory s) pgd va" by (simp_all add: mp)
    then have "frame (kmemory s) pgd va \<noteq> ?f" using V(6) [OF va(1) a(1) v(2) a(2)] by auto
    then show "kpage kend (frame (kmemory (set_mem ?m s1)) pgd va) \<and>
        frame (kmemory (set_mem ?m s1)) pgd va \<notin> set (?f # xs) \<and> frame (kmemory (set_mem ?m s1)) pgd va \<noteq> pgd"
      using V(2-4) [OF va(1) v(2)] fr [OF v(1)] by simp
  next
    fix va d assume va: "va < KERNBASE" "mapped (kmemory (set_mem ?m s1)) pgd va" "unat (d :: uint) < 1024"
      "present (kmemory (set_mem ?m s1)) pgd d"
    then have v: "PGROUNDDOWN va \<noteq> PGROUNDDOWN a" "mapped (kmemory s) pgd va" by (simp_all add: mp)
    have "present (kmemory s) pgd d" "table ?m pgd d = table (kmemory s) pgd d"
      using va(3,4) se(3,4) [OF va(3)] off(1,2) [OF va(3)] by simp_all
    then show "frame (kmemory (set_mem ?m s1)) pgd va \<noteq> table (kmemory (set_mem ?m s1)) pgd d"
      using V(5) [OF va(1) v(2) va(3)] fr [OF v(1)] by simp
  next
    fix va vb assume "va < KERNBASE" "vb < KERNBASE" "mapped (kmemory (set_mem ?m s1)) pgd va"
      "mapped (kmemory (set_mem ?m s1)) pgd vb"
      "frame (kmemory (set_mem ?m s1)) pgd va = frame (kmemory (set_mem ?m s1)) pgd vb"
    then show "PGROUNDDOWN va = PGROUNDDOWN vb" using V(6) [of va vb] by (simp add: mp fr)
  qed (rule se(1))
  moreover have "same_tables (kmemory s) ?m pgd"
    using se(3,4) off(1,2) by (simp add: same_tables_def)
  ultimately show ?thesis using k lk by (intro that [of s1 "set_mem ?m s1"]) simp_all
qed

text \<open>The pages from page \<open>a\<close> on that \<open>deallocuvm\<close> visits below \<open>oldsz\<close>.\<close>

definition visited :: "uint \<Rightarrow> uint \<Rightarrow> uint \<Rightarrow> bool" where
  "visited a oldsz va \<longleftrightarrow> a \<le> PGROUNDDOWN va \<and> PGROUNDDOWN va < oldsz"

lemma unat_PDX: "unat (PDX va) = unat va div 2 ^ 22"
proof -
  have "unat va div 2 ^ 22 < 1024" using unat_lt_32 [of va] by simp
  moreover have "unat (drop_bit 22 va) = unat va div 2 ^ 22"
    by (simp add: unsigned_drop_bit_eq drop_bit_eq_div unat_div)
  ultimately show ?thesis
    by (simp add: PDX_def PDXSHIFT_def and_3FF unsigned_take_bit_eq take_bit_nat_eq_self)
qed

lemma visited_next:
  assumes "a < KERNBASE" "4096 dvd unat a" "a < oldsz"
  shows "visited a oldsz va \<longleftrightarrow> PGROUNDDOWN va = a \<or> visited (a + PGSIZE) oldsz va"
proof -
  have u: "unat (a + PGSIZE) = unat a + 4096"
    using assms(1) by (simp add: unat_plus_if' word_less_nat_alt KERNBASE_def)
  have "unat a < unat (PGROUNDDOWN va) \<Longrightarrow> unat a + 4096 \<le> unat (PGROUNDDOWN va)"
    using assms(2) aligned_PGROUNDDOWN by (intro aligned_less)
  then have "a \<le> PGROUNDDOWN va \<longleftrightarrow> PGROUNDDOWN va = a \<or> a + PGSIZE \<le> PGROUNDDOWN va"
    using u by (cases "unat a" "unat (PGROUNDDOWN va)" rule: linorder_cases)
      (auto simp: word_le_nat_alt word_unat_eq_iff)
  then show ?thesis using assms(3) by (auto simp: visited_def)
qed

lemma visited_skip:
  assumes "a < KERNBASE" "4096 dvd unat a" "\<not> present m pgd (PDX a)" "visited a oldsz va"
  shows "visited (PGADDR (PDX a + 1) 0 0) oldsz va \<or> lookup m pgd va = 0"
proof (cases "PGADDR (PDX a + 1) 0 0 \<le> PGROUNDDOWN va")
  case False
  have le: "unat a \<le> unat (PGROUNDDOWN va)" "unat (PGROUNDDOWN va) < (unat a div 2 ^ 22 + 1) * 2 ^ 22"
    using False assms(4) unat_next_dir [OF assms(1)] by (auto simp: visited_def word_le_nat_alt)
  have "unat (PGROUNDDOWN va) div 2 ^ 22 = unat a div 2 ^ 22"
    using le div_le_mono [OF le(1), of "2 ^ 22"] less_mult_imp_div_less [OF le(2)] by linarith
  then have "PDX (PGROUNDDOWN va) = PDX a" by (simp add: word_unat_eq_iff unat_PDX)
  moreover have "PGROUNDDOWN (PGROUNDDOWN va) = PGROUNDDOWN va"
    by (rule PGROUNDDOWN_self) (rule aligned_PGROUNDDOWN)
  then have "PDX (PGROUNDDOWN va) = PDX va" using same_page [of "PGROUNDDOWN va" va] by simp
  ultimately show ?thesis using assms(3) by (simp add: lookup_def)
qed (use assms(4) in \<open>simp add: visited_def\<close>)

text \<open>The frames of the mapped pages that \<open>deallocuvm\<close> visits.\<close>

definition frames :: "memory \<Rightarrow> uint \<Rightarrow> uint \<Rightarrow> uint \<Rightarrow> uint set" where
  "frames m pgd a oldsz = {frame m pgd va |va. visited a oldsz va \<and> mapped m pgd va}"

lemma visited_page_neq:
  assumes "visited (a + PGSIZE) oldsz va" "a < KERNBASE"
  shows "PGROUNDDOWN va \<noteq> a"
proof -
  have "unat (a + PGSIZE) = unat a + 4096"
    using assms(2) by (simp add: unat_plus_if' word_less_nat_alt KERNBASE_def)
  with assms(1) show ?thesis by (auto simp: visited_def word_le_nat_alt)
qed

lemma lookup_walk: "present (kmemory s) pgd (PDX a) \<Longrightarrow>
    load32 (kmemory s) (table (kmemory s) pgd (PDX a) + 4 * PTX a) = lookup (kmemory s) pgd a"
  by (simp add: lookup_def)

lemma deallocuvm_loop_ok:
  assumes "KERNBASE < kend" "oldsz \<le> KERNBASE" "vm_ok kend s pgd xs" "4096 dvd unat a"
    "unat oldsz \<le> unat a + 4096 * k"
  shows "\<exists>s' ys. deallocuvm_loop (Suc k) kend s pgd a oldsz = Inr s' \<and> vm_ok kend s' pgd (ys @ xs) \<and>
    set ys = frames (kmemory s) pgd a oldsz \<and> same_tables (kmemory s) (kmemory s') pgd \<and>
    (\<forall>va. if visited a oldsz va then \<not> mapped (kmemory s') pgd va
       else lookup (kmemory s') pgd va = lookup (kmemory s) pgd va)"
  using assms(3-5)
proof (induction k arbitrary: s xs a)
  case (0 s xs a)
  have "\<not> visited a oldsz va" for va using 0(3) by (auto simp: visited_def word_le_nat_alt word_less_nat_alt)
  then show ?case
    using 0 by (auto simp: frames_def word_less_nat_alt same_tables_refl intro: exI [of _ "[]"])
next
  case (Suc k s xs a)
  show ?case
  proof (cases "a < oldsz")
    case False
    then have "\<not> visited a oldsz va" for va by (auto simp: visited_def)
    then show ?thesis
      using Suc.prems(1) False by (auto simp: frames_def same_tables_refl intro: exI [of _ "[]"])
  next
    case True
    then have aK: "a < KERNBASE" using assms(2) by simp
    note V = vm_okD [OF Suc.prems(1)]
    have a: "PGROUNDDOWN a = a" using Suc.prems(2) by (rule PGROUNDDOWN_self)
    have u: "unat (a + PGSIZE) = unat a + 4096"
      using aK by (simp add: unat_plus_if' word_less_nat_alt KERNBASE_def)
    note vn = visited_next [OF aK Suc.prems(2) True]
    note IH = Suc.IH [OF _ aligned_add_page [OF Suc.prems(2)], unfolded u]
    have al: "unat oldsz \<le> unat a + 4096 + 4096 * k" using Suc.prems(3) by simp
    show ?thesis
    proof (cases "present (kmemory s) pgd (PDX a)")
      case False
      note sk = deallocuvm_skip [OF aK Suc.prems(2)]
      have "unat oldsz \<le> unat (PGADDR (PDX a + 1) 0 0) + 4096 * k" using sk(1) al by simp
      then obtain s' ys where
        l: "deallocuvm_loop (Suc k) kend s pgd (PGADDR (PDX a + 1) 0 0) oldsz = Inr s'"
          "vm_ok kend s' pgd (ys @ xs)" "set ys = frames (kmemory s) pgd (PGADDR (PDX a + 1) 0 0) oldsz"
          "same_tables (kmemory s) (kmemory s') pgd" and
        m: "\<And>va. if visited (PGADDR (PDX a + 1) 0 0) oldsz va then \<not> mapped (kmemory s') pgd va
          else lookup (kmemory s') pgd va = lookup (kmemory s) pgd va"
        using Suc.IH [OF Suc.prems(1) sk(2)] by blast
      have v: "visited (PGADDR (PDX a + 1) 0 0) oldsz va \<or> lookup (kmemory s) pgd va = 0" if "visited a oldsz va" for va
        using that visited_skip [OF aK Suc.prems(2) False] by blast
      have w: "visited a oldsz va" if "visited (PGADDR (PDX a + 1) 0 0) oldsz va" for va
        using that sk(1) by (auto simp: visited_def word_le_nat_alt)
      have "frames (kmemory s) pgd a oldsz = frames (kmemory s) pgd (PGADDR (PDX a + 1) 0 0) oldsz"
        using v w by (fastforce simp: frames_def mapped_def)
      moreover have "if visited a oldsz va then \<not> mapped (kmemory s') pgd va
          else lookup (kmemory s') pgd va = lookup (kmemory s) pgd va" for va
        using m [of va] v [of va] w [of va] by (auto simp: mapped_def split: if_splits)
      ultimately show ?thesis using True False l walkpgdir_absent [OF False] by auto
    next
      case pr: True
      let ?pte = "table (kmemory s) pgd (PDX a) + 4 * PTX a"
      have nz: "?pte \<noteq> 0"
        using pt_okD(4) [OF V(1) PDX_PTX_lt(1) pr] PDX_PTX_lt(2) by (rule kpage_slot_nonzero)
      show ?thesis
      proof (cases "mapped (kmemory s) pgd a")
        case False
        obtain s' ys where
          l: "deallocuvm_loop (Suc k) kend s pgd (a + PGSIZE) oldsz = Inr s'"
            "vm_ok kend s' pgd (ys @ xs)" "set ys = frames (kmemory s) pgd (a + PGSIZE) oldsz"
            "same_tables (kmemory s) (kmemory s') pgd" and
          m: "\<And>va. if visited (a + PGSIZE) oldsz va then \<not> mapped (kmemory s') pgd va
            else lookup (kmemory s') pgd va = lookup (kmemory s) pgd va"
          using IH [OF Suc.prems(1) al] by blast
        have na: "\<not> mapped (kmemory s) pgd va" if "PGROUNDDOWN va = a" for va
          using False mapped_page [of va a] that a by simp
        then have "frames (kmemory s) pgd a oldsz = frames (kmemory s) pgd (a + PGSIZE) oldsz"
          by (auto simp: frames_def vn)
        moreover have "if visited a oldsz va then \<not> mapped (kmemory s') pgd va
            else lookup (kmemory s') pgd va = lookup (kmemory s) pgd va" for va
          using m [of va] na [of va] by (auto simp: vn mapped_def split: if_splits)
        moreover have "deallocuvm_loop (Suc (Suc k)) kend s pgd a oldsz =
            deallocuvm_loop (Suc k) kend s pgd (a + PGSIZE) oldsz"
          using True False nz walkpgdir_present [OF pr, of False] lookup_walk [OF pr]
          by (simp add: mapped_def Let_def)
        ultimately show ?thesis using l by auto
      next
        case mp: True
        obtain s1 s2 where kf: "kfree kend s (frame (kmemory s) pgd a) = Inr s1"
          and s2: "s2 = set_mem (store32 (kmemory s1) ?pte 0) s1"
          and ok2: "vm_ok kend s2 pgd (frame (kmemory s) pgd a # xs)"
          and lk: "\<And>va. lookup (kmemory s2) pgd va =
            (if PGROUNDDOWN va = PGROUNDDOWN a then 0 else lookup (kmemory s) pgd va)"
          and st: "same_tables (kmemory s) (kmemory s2) pgd"
          by (rule vm_unmap [OF Suc.prems(1) aK mp], rule that, assumption+)
        obtain s' ys where
          l: "deallocuvm_loop (Suc k) kend s2 pgd (a + PGSIZE) oldsz = Inr s'"
            "vm_ok kend s' pgd (ys @ frame (kmemory s) pgd a # xs)"
            "set ys = frames (kmemory s2) pgd (a + PGSIZE) oldsz"
            "same_tables (kmemory s2) (kmemory s') pgd" and
          m: "\<And>va. if visited (a + PGSIZE) oldsz va then \<not> mapped (kmemory s') pgd va
            else lookup (kmemory s') pgd va = lookup (kmemory s2) pgd va"
          using IH [OF ok2 al] by blast
        have "frame (kmemory s) pgd a \<noteq> KERNBASE"
          using V(2) [OF aK mp] assms(1) by (auto simp: kpage_def kfree_bad_def)
        then have pa: "PTE_ADDR (lookup (kmemory s) pgd a) \<noteq> 0" by (auto simp: frame_def P2V_def)
        have "deallocuvm_loop (Suc (Suc k)) kend s pgd a oldsz =
            deallocuvm_loop (Suc k) kend s2 pgd (a + PGSIZE) oldsz"
          using True mp nz pa kf walkpgdir_present [OF pr, of False] lookup_walk [OF pr]
          by (simp add: mapped_def frame_def s2 Let_def)
        moreover have "set (ys @ [frame (kmemory s) pgd a]) = frames (kmemory s) pgd a oldsz"
        proof -
          have same: "frame (kmemory s2) pgd va = frame (kmemory s) pgd va"
            "mapped (kmemory s2) pgd va = mapped (kmemory s) pgd va" if "visited (a + PGSIZE) oldsz va" for va
            using visited_page_neq [OF that aK] lk [of va] a by (simp_all add: frame_def mapped_def)
          have pg: "frame (kmemory s) pgd va = frame (kmemory s) pgd a"
            "mapped (kmemory s) pgd va" if "PGROUNDDOWN va = a" for va
            using that a mp lookup_page [of va a] mapped_page [of va a] by (simp_all add: frame_def)
          have "visited a oldsz a" using a True by (simp add: visited_def)
          have "frames (kmemory s2) pgd (a + PGSIZE) oldsz = frames (kmemory s) pgd (a + PGSIZE) oldsz"
            unfolding frames_def using same by (intro Collect_cong) metis
          moreover have "frames (kmemory s) pgd a oldsz =
              insert (frame (kmemory s) pgd a) (frames (kmemory s) pgd (a + PGSIZE) oldsz)"
          proof (rule set_eqI, rule iffI)
            fix x assume "x \<in> frames (kmemory s) pgd a oldsz"
            then obtain va where "x = frame (kmemory s) pgd va" "visited a oldsz va" "mapped (kmemory s) pgd va"
              by (auto simp: frames_def)
            then show "x \<in> insert (frame (kmemory s) pgd a) (frames (kmemory s) pgd (a + PGSIZE) oldsz)"
              using pg(1) [of va] vn [of va] by (auto simp: frames_def)
          next
            fix x assume "x \<in> insert (frame (kmemory s) pgd a) (frames (kmemory s) pgd (a + PGSIZE) oldsz)"
            then show "x \<in> frames (kmemory s) pgd a oldsz"
              using \<open>visited a oldsz a\<close> mp vn by (auto simp: frames_def)
          qed
          ultimately show ?thesis unfolding set_append l(3) by simp
        qed
        moreover have "if visited a oldsz va then \<not> mapped (kmemory s') pgd va
            else lookup (kmemory s') pgd va = lookup (kmemory s) pgd va" for va
          using m [of va] lk [of va] a by (auto simp: vn mapped_def split: if_splits)
        moreover have "same_tables (kmemory s) (kmemory s') pgd" using st l(4) by (rule same_tables_trans)
        ultimately show ?thesis using l(1,2) by (intro exI [of _ s'] exI [of _ "ys @ [frame (kmemory s) pgd a]"]) auto
      qed
    qed
  qed
qed

lemma unat_PGROUNDUP_user:
  assumes "n < KERNBASE"
  shows "4096 dvd unat (PGROUNDUP n)" "unat n \<le> unat (PGROUNDUP n)" "unat (PGROUNDUP n) < unat n + 4096"
proof -
  have n: "unat n + 4095 < 2 ^ 32" using assms by (simp add: word_less_nat_alt KERNBASE_def)
  note u = unat_PGROUNDUP [OF n]
  show "4096 dvd unat (PGROUNDUP n)" unfolding u by simp
  show "unat n \<le> unat (PGROUNDUP n)" "unat (PGROUNDUP n) < unat n + 4096"
    unfolding u using div_mult_mod_eq [of "unat n + 4095" 4096] mod_less_divisor [of 4096 "unat n + 4095"] by linarith+
qed

lemma deallocuvm_shrinks:
  assumes "KERNBASE < kend" "vm_ok kend s pgd xs" "oldsz \<le> KERNBASE" "newsz < oldsz"
  shows "\<exists>s' ys. deallocuvm kend s pgd oldsz newsz = Inr (newsz, s') \<and> vm_ok kend s' pgd (ys @ xs) \<and>
    set ys = frames (kmemory s) pgd (PGROUNDUP newsz) oldsz \<and> same_tables (kmemory s) (kmemory s') pgd \<and>
    (\<forall>va. if visited (PGROUNDUP newsz) oldsz va then \<not> mapped (kmemory s') pgd va
       else lookup (kmemory s') pgd va = lookup (kmemory s) pgd va)"
proof -
  have "newsz < KERNBASE" using assms(3,4) by simp
  note r = unat_PGROUNDUP_user [OF this]
  have "unat oldsz \<le> unat (PGROUNDUP newsz) + 4096 * Suc (unat oldsz div 4096)"
    using div_mult_mod_eq [of "unat oldsz" 4096] mod_less_divisor [of 4096 "unat oldsz"] by simp
  then obtain s' ys where l: "deallocuvm_loop (Suc (Suc (unat oldsz div 4096))) kend s pgd (PGROUNDUP newsz) oldsz = Inr s'"
    and rest: "vm_ok kend s' pgd (ys @ xs) \<and> set ys = frames (kmemory s) pgd (PGROUNDUP newsz) oldsz \<and>
      same_tables (kmemory s) (kmemory s') pgd \<and>
      (\<forall>va. if visited (PGROUNDUP newsz) oldsz va then \<not> mapped (kmemory s') pgd va
       else lookup (kmemory s') pgd va = lookup (kmemory s) pgd va)"
    using deallocuvm_loop_ok [OF assms(1,3,2) r(1)] by blast
  have "\<not> oldsz \<le> newsz" using assms(4) by simp
  with l have "deallocuvm kend s pgd oldsz newsz = Inr (newsz, s')"
    by (simp add: deallocuvm_def del: deallocuvm_loop.simps)
  with rest show ?thesis by blast
qed

text \<open>C18: shrinking an address space: on a well-formed user address space, \<open>deallocuvm\<close> from
  a size of at most \<open>KERNBASE\<close> never panics and always returns; it unmaps exactly the whole
  pages above the new size, puts exactly their frames on the free list, leaves every other
  entry alone, and keeps the address space well formed.\<close>

theorem deallocuvm_exact:
  assumes "KERNBASE < kend" "vm_ok kend s pgd xs" "oldsz \<le> KERNBASE" "newsz < oldsz"
  shows "\<exists>s' ys. deallocuvm kend s pgd oldsz newsz = Inr (newsz, s') \<and> vm_ok kend s' pgd (ys @ xs) \<and>
    set ys = frames (kmemory s) pgd (PGROUNDUP newsz) oldsz \<and>
    (\<forall>va. if visited (PGROUNDUP newsz) oldsz va then \<not> mapped (kmemory s') pgd va
       else lookup (kmemory s') pgd va = lookup (kmemory s) pgd va)"
  using deallocuvm_shrinks [OF assms] by blast

lemma vm0_vm_ok: "vm_ok 0x80110000 vm0 0x80200000 [0x80300000]"
  using vm0_ok by (simp add: vm_ok_def mapped_def vm0_lookup)

theorem deallocuvm_exact_witness:
  "\<exists>s'. deallocuvm 0x80110000 vm0 0x80200000 0x3000 0x1000 = Inr (0x1000, s')"
  using deallocuvm_exact [OF _ vm0_vm_ok, of "0x3000" "0x1000"] by (auto simp: KERNBASE_def)

section \<open>Mapping fresh pages\<close>

lemma mappages_one_page:
  assumes "4096 dvd unat a"
  shows "mappages s pgd a PGSIZE pa perm =
    (let (pte, s) = walkpgdir s pgd a True in
     if pte = 0 then Inr (-1, s)
     else if load32 (kmemory s) pte AND PTE_P \<noteq> 0 then panic ''remap''
     else Inr (0, set_mem (store32 (kmemory s) pte (pa OR perm OR PTE_P)) s))"
proof -
  have "unat a + 4096 \<le> 2 ^ 32" using page_top [OF assms] .
  then have "unat (a + PGSIZE - 1) = unat a + 4095"
    by (simp add: PGSIZE_def add_diff_eq [symmetric] unat_plus_if')
  then have "unat (PGROUNDDOWN (a + PGSIZE - 1)) = unat a"
    using assms by (simp add: unat_PGROUNDDOWN) (auto elim!: dvdE)
  then have "PGROUNDDOWN (a + PGSIZE - 1) = a" by (simp add: word_unat_eq_iff)
  then show ?thesis by (simp add: mappages_def PGROUNDDOWN_self [OF assms] Let_def split: prod.split)
qed

text \<open>The entry that \<open>allocuvm\<close> installs for page \<open>x\<close>.\<close>

definition user_pte :: "uint \<Rightarrow> uint" where
  "user_pte x = V2P x OR (PTE_W OR PTE_U) OR PTE_P"

lemma user_pte_props:
  assumes "4096 dvd unat x"
  shows "P2V (PTE_ADDR (user_pte x)) = x" "user_pte x AND PTE_P \<noteq> 0" "user_pte x AND PTE_U \<noteq> 0"
    "user_pte x AND PTE_W \<noteq> 0"
proof -
  have f: "user_pte x = V2P x OR 7" by (simp add: user_pte_def PTE_W_def PTE_U_def PTE_P_def or.assoc)
  show "P2V (PTE_ADDR (user_pte x)) = x"
    unfolding f using PTE_ADDR_or [OF aligned_V2P [OF assms], of 7] by simp
  have b: "bit (user_pte x) 0" "bit (user_pte x) 1" "bit (user_pte x) 2"
    by (simp_all add: f bit_simps)
  show "user_pte x AND PTE_P \<noteq> 0"
  proof
    assume "user_pte x AND PTE_P = 0"
    then have "bit (user_pte x AND PTE_P) 0 = False" by simp
    with b(1) show False by (simp add: bit_simps PTE_P_def)
  qed
  show "user_pte x AND PTE_W \<noteq> 0"
  proof
    assume "user_pte x AND PTE_W = 0"
    then have "bit (user_pte x AND PTE_W) 1 = False" by simp
    with b(2) show False by (simp add: bit_simps PTE_W_def)
  qed
  show "user_pte x AND PTE_U \<noteq> 0"
  proof
    assume "user_pte x AND PTE_U = 0"
    then have "bit (user_pte x AND PTE_U) 2 = False" by simp
    with b(3) show False by (simp add: bit_simps PTE_U_def)
  qed
qed

text \<open>A page that belongs to nobody: not free, not part of the page table, no user frame.\<close>

definition loose :: "uint \<Rightarrow> kmem \<Rightarrow> uint \<Rightarrow> uint list \<Rightarrow> uint \<Rightarrow> bool" where
  "loose kend s pgd xs x \<longleftrightarrow> kpage kend x \<and> x \<notin> set xs \<and> x \<noteq> pgd \<and>
     (\<forall>d. unat d < 1024 \<longrightarrow> present (kmemory s) pgd d \<longrightarrow> x \<noteq> table (kmemory s) pgd d) \<and>
     (\<forall>va < KERNBASE. mapped (kmemory s) pgd va \<longrightarrow> frame (kmemory s) pgd va \<noteq> x)"

text \<open>All pages that are free, hold a page table or are behind a user page.\<close>

definition owned :: "kmem \<Rightarrow> uint \<Rightarrow> uint list \<Rightarrow> uint set" where
  "owned s pgd xs = set xs \<union> {table (kmemory s) pgd d |d. unat d < 1024 \<and> present (kmemory s) pgd d} \<union>
     {frame (kmemory s) pgd va |va. va < KERNBASE \<and> mapped (kmemory s) pgd va}"

lemma owned_cong:
  assumes "same_tables (kmemory s) (kmemory s') pgd" "\<And>va. lookup (kmemory s') pgd va = lookup (kmemory s) pgd va"
  shows "owned s' pgd xs = owned s pgd xs"
  using assms unfolding owned_def same_tables_def mapped_def frame_def by (auto; metis)

lemma owned_Cons: "owned s pgd (x # xs) = insert x (owned s pgd xs)"
  by (auto simp: owned_def)

text \<open>The pages from page \<open>a\<close> on below \<open>newsz\<close>, the directory entries among theirs that are missing, and
  the number of free pages that mapping them takes.\<close>

definition pages :: "uint \<Rightarrow> uint \<Rightarrow> uint set" where
  "pages a newsz = {p. 4096 dvd unat p \<and> a \<le> p \<and> p < newsz}"

definition missing :: "memory \<Rightarrow> uint \<Rightarrow> uint \<Rightarrow> uint \<Rightarrow> uint set" where
  "missing m pgd a newsz = {d \<in> PDX ` pages a newsz. \<not> present m pgd d}"

definition need :: "memory \<Rightarrow> uint \<Rightarrow> uint \<Rightarrow> uint \<Rightarrow> nat" where
  "need m pgd a newsz = card (pages a newsz) + card (missing m pgd a newsz)"

lemma need_end: "\<not> a < newsz \<Longrightarrow> need m pgd a newsz = 0"
proof -
  assume "\<not> a < newsz"
  then have "pages a newsz = {}" by (auto simp: pages_def)
  then show ?thesis by (simp add: need_def missing_def)
qed

lemma pages_next:
  assumes "a < KERNBASE" "4096 dvd unat a" "a < newsz"
  shows "pages a newsz = insert a (pages (a + PGSIZE) newsz)" "a \<notin> pages (a + PGSIZE) newsz"
proof -
  have "p \<in> pages a newsz \<longleftrightarrow> p = a \<or> p \<in> pages (a + PGSIZE) newsz" for p
    using visited_next [OF assms, of p] assms(2,3) PGROUNDDOWN_self [of p]
    by (auto simp: pages_def visited_def)
  then show "pages a newsz = insert a (pages (a + PGSIZE) newsz)" by auto
  show "a \<notin> pages (a + PGSIZE) newsz"
    using visited_page_neq [of a newsz a] assms(1,2) PGROUNDDOWN_self [of a] by (auto simp: pages_def visited_def)
qed

lemma need_next:
  assumes "a < KERNBASE" "4096 dvd unat a" "a < newsz" "new_dir m m' pgd (PDX a) xs xs'"
  shows "need m pgd a newsz \<le> Suc (length xs) \<longleftrightarrow> need m' pgd (a + PGSIZE) newsz \<le> length xs'"
proof -
  note p = pages_next [OF assms(1-3)]
  have fin: "finite (pages (a + PGSIZE) newsz)" "finite (missing m pgd a newsz)"
    by (rule finite_subset [OF subset_UNIV]; simp)+
  have pr: "present m' pgd (PDX q) \<longleftrightarrow> present m pgd (PDX q) \<or> PDX q = PDX a" for q
    using assms(4) PDX_PTX_lt(1) [of q] by (simp add: new_dir_def)
  have "missing m' pgd (a + PGSIZE) newsz = missing m pgd a newsz - {PDX a}"
    unfolding missing_def p(1) using pr by auto
  moreover have "PDX a \<in> missing m pgd a newsz \<longleftrightarrow> \<not> present m pgd (PDX a)"
    by (simp add: missing_def p(1))
  moreover have "length xs = length xs' + (if present m pgd (PDX a) then 0 else 1)"
    using assms(4) by (auto simp: new_dir_def split: if_splits)
  ultimately show ?thesis
    using p fin card_Suc_Diff1 [OF fin(2), of "PDX a"] by (auto simp: need_def split: if_splits)
qed

lemma need_page:
  assumes "a < KERNBASE" "4096 dvd unat a" "a < newsz"
  shows "1 \<le> need m pgd a newsz" "\<not> present m pgd (PDX a) \<Longrightarrow> 2 \<le> need m pgd a newsz"
proof -
  have a: "a \<in> pages a newsz" using assms(2,3) by (simp add: pages_def)
  have fin: "finite (pages a newsz)" "finite (missing m pgd a newsz)"
    by (rule finite_subset [OF subset_UNIV]; simp)+
  have c: "0 < card (pages a newsz)" using a fin by (auto simp: card_gt_0_iff)
  then show "1 \<le> need m pgd a newsz" by (simp add: need_def)
  assume "\<not> present m pgd (PDX a)"
  with a have "PDX a \<in> missing m pgd a newsz" by (simp add: missing_def)
  with fin have "0 < card (missing m pgd a newsz)" by (auto simp: card_gt_0_iff)
  with c show "2 \<le> need m pgd a newsz" by (simp add: need_def)
qed

lemma need_same_tables: "same_tables m m' pgd \<Longrightarrow> need m' pgd a newsz = need m pgd a newsz"
  unfolding need_def missing_def using PDX_PTX_lt(1) by (auto simp: same_tables_def intro!: arg_cong [where f = card])

text \<open>Rewriting a page outside the page table keeps the address space.\<close>

lemma vm_ok_off_page:
  assumes "vm_ok kend s pgd xs" "off_page p (kmemory s) (kmemory s')" "p \<noteq> pgd"
    "\<forall>d. unat d < 1024 \<longrightarrow> present (kmemory s) pgd d \<longrightarrow> p \<noteq> table (kmemory s) pgd d"
    "kmem_rel kend s' ys" "set ys \<inter> {q. q = pgd \<or>
       (\<exists>d. unat d < 1024 \<and> present (kmemory s) pgd d \<and> q = table (kmemory s) pgd d) \<or>
       (\<exists>va < KERNBASE. mapped (kmemory s) pgd va \<and> q = frame (kmemory s) pgd va)} = {}"
  shows "vm_ok kend s' pgd ys"
proof -
  note V = vm_okD [OF assms(1)] and I = pt_okD [OF vm_okD(1) [OF assms(1)]]
  note off = off_page_table [OF assms(2) V(1) refl assms(3,4)]
  have fresh: "pgd \<notin> set ys" "unat d < 1024 \<Longrightarrow> present (kmemory s) pgd d \<Longrightarrow> table (kmemory s) pgd d \<notin> set ys"
    "va < KERNBASE \<Longrightarrow> mapped (kmemory s) pgd va \<Longrightarrow> frame (kmemory s) pgd va \<notin> set ys" for d va
    using assms(6) by blast+
  have "pt_ok kend s' pgd ys"
  proof (rule pt_okI)
    show "kpage kend (table (kmemory s') pgd d) \<and> table (kmemory s') pgd d \<notin> set ys \<and> table (kmemory s') pgd d \<noteq> pgd"
      if "unat d < 1024" "present (kmemory s') pgd d" for d
      using that I(4,6) [of d] fresh(2) [of d] by (simp add: off)
    show "d = e" if "unat d < 1024" "unat e < 1024" "present (kmemory s') pgd d" "present (kmemory s') pgd e"
        "table (kmemory s') pgd d = table (kmemory s') pgd e" for d e
      using that I(7) [of d e] by (simp add: off)
  qed (use assms(5) I(2) fresh(1) in auto)
  then show ?thesis
  proof (rule vm_okI)
    show "kpage kend (frame (kmemory s') pgd va) \<and> frame (kmemory s') pgd va \<notin> set ys \<and> frame (kmemory s') pgd va \<noteq> pgd"
      if "va < KERNBASE" "mapped (kmemory s') pgd va" for va
      using that V(2,4) [of va] fresh(3) [of va] by (simp add: off)
    show "frame (kmemory s') pgd va \<noteq> table (kmemory s') pgd d"
      if "va < KERNBASE" "mapped (kmemory s') pgd va" "unat d < 1024" "present (kmemory s') pgd d" for va d
      using that V(5) [of va d] by (simp add: off)
    show "PGROUNDDOWN va = PGROUNDDOWN vb"
      if "va < KERNBASE" "vb < KERNBASE" "mapped (kmemory s') pgd va" "mapped (kmemory s') pgd vb"
        "frame (kmemory s') pgd va = frame (kmemory s') pgd vb" for va vb
      using that V(6) [of va vb] by (simp add: off)
  qed
qed

text \<open>\<open>kalloc\<close> followed by \<open>memset\<close>.\<close>

lemma vm_take:
  assumes ok: "vm_ok kend s pgd (x # xs)" and a: "kalloc s = (x, s1)"
    and s2: "s2 = set_mem (memset (kmemory s1) x 0 PGSIZE) s1"
  shows "vm_ok kend s2 pgd xs" "loose kend s2 pgd xs x" "same_tables (kmemory s) (kmemory s2) pgd"
    "lookup (kmemory s2) pgd va = lookup (kmemory s) pgd va"
proof -
  note V = vm_okD [OF ok] and I = pt_okD [OF vm_okD(1) [OF ok]]
  have m: "kmemory s1 = kmemory s" using a by (auto simp: kalloc_def Let_def split: if_splits)
  have x: "kpage kend x" "x \<notin> set xs" "x \<noteq> pgd" using I(1,3) by (auto simp: kmem_rel_def)
  have al: "4096 dvd unat x" using x(1) by (rule kpage_aligned)
  have xt: "\<forall>d. unat d < 1024 \<longrightarrow> present (kmemory s) pgd d \<longrightarrow> x \<noteq> table (kmemory s) pgd d"
    using I(5) by fastforce
  have offp: "off_page x (kmemory s) (kmemory s2)" using off_page_memset [OF al] by (simp add: s2 m)
  note off = off_page_table [OF offp V(1) refl x(3) xt]
  show "lookup (kmemory s2) pgd va = lookup (kmemory s) pgd va" "same_tables (kmemory s) (kmemory s2) pgd"
    using off(1,2,3) by (simp_all add: same_tables_def)
  have "kmem_rel kend s1 xs" using kalloc_rel [OF I(1)] a by simp
  then have rel: "kmem_rel kend s2 xs" unfolding s2 using al x(2) by (rule kmem_rel_zero)
  show "vm_ok kend s2 pgd xs"
  proof (rule vm_ok_off_page [OF ok offp x(3) xt rel])
    show "set xs \<inter> {q. q = pgd \<or> (\<exists>d. unat d < 1024 \<and> present (kmemory s) pgd d \<and> q = table (kmemory s) pgd d) \<or>
       (\<exists>va < KERNBASE. mapped (kmemory s) pgd va \<and> q = frame (kmemory s) pgd va)} = {}"
      using I(3,5) V(3) by fastforce
  qed
  have "frame (kmemory s) pgd va \<noteq> x" if "va < KERNBASE" "mapped (kmemory s) pgd va" for va
    using V(3) [OF that] by auto
  then show "loose kend s2 pgd xs x"
    using x xt by (simp add: loose_def off)
qed

lemma owned_map:
  assumes "new_dir (kmemory s) (kmemory s') pgd (PDX a) xs xs'" "\<not> mapped (kmemory s) pgd a"
    "PGROUNDDOWN a = a" "a < KERNBASE"
    "\<And>va. frame (kmemory s') pgd va = (if PGROUNDDOWN va = a then x else frame (kmemory s) pgd va)"
    "\<And>va. mapped (kmemory s') pgd va \<longleftrightarrow> PGROUNDDOWN va = a \<or> mapped (kmemory s) pgd va"
  shows "owned s' pgd xs' = insert x (owned s pgd xs)"
proof -
  let ?T = "\<lambda>s. {table (kmemory s) pgd d |d. unat d < 1024 \<and> present (kmemory s) pgd d}"
  let ?F = "\<lambda>s. {frame (kmemory s) pgd va |va. va < KERNBASE \<and> mapped (kmemory s) pgd va}"
  have na: "PGROUNDDOWN va \<noteq> a" if "mapped (kmemory s) pgd va" for va
    using that assms(2,3) mapped_page [of va a] by auto
  have "?F s' = insert x (?F s)"
  proof (intro equalityI subsetI)
    fix y assume "y \<in> ?F s'"
    then show "y \<in> insert x (?F s)" using assms(5,6) by (auto split: if_splits)
  next
    fix y assume "y \<in> insert x (?F s)"
    then consider "y = x" | va where "y = frame (kmemory s) pgd va" "va < KERNBASE" "mapped (kmemory s) pgd va" by auto
    then show "y \<in> ?F s'"
    proof cases
      case 1
      then have "y = frame (kmemory s') pgd a" "mapped (kmemory s') pgd a" using assms(3,5,6) by simp_all
      with assms(4) show ?thesis by blast
    next
      case 2
      then have "y = frame (kmemory s') pgd va" "mapped (kmemory s') pgd va" using na assms(5,6) by simp_all
      with 2 show ?thesis by blast
    qed
  qed
  moreover have "set xs' \<union> ?T s' = set xs \<union> ?T s"
  proof -
    have d: "\<And>k. unat k < 1024 \<Longrightarrow> present (kmemory s') pgd k \<longleftrightarrow> present (kmemory s) pgd k \<or> k = PDX a"
      "\<And>k. unat k < 1024 \<Longrightarrow> present (kmemory s) pgd k \<Longrightarrow> table (kmemory s') pgd k = table (kmemory s) pgd k"
      "if present (kmemory s) pgd (PDX a) then xs' = xs else xs = table (kmemory s') pgd (PDX a) # xs'"
      using assms(1) unfolding new_dir_def by blast+
    have "?T s' = {table (kmemory s') pgd (PDX a)} \<union> ?T s"
      using d(1,2) PDX_PTX_lt(1) [of a] by (auto; metis)
    with d(2,3) PDX_PTX_lt(1) [of a] show ?thesis by (auto split: if_splits)
  qed
  ultimately show ?thesis by (auto simp: owned_def)
qed

lemma vm_map:
  assumes ok: "vm_ok kend s pgd xs" and lo: "loose kend s pgd xs x"
    and a: "4096 dvd unat a" "a < KERNBASE" "\<not> mapped (kmemory s) pgd a"
  obtains "mappages s pgd a PGSIZE (V2P x) (PTE_W OR PTE_U) = Inr (-1, s)" "xs = []"
      "\<not> present (kmemory s) pgd (PDX a)"
  | s' xs' where "mappages s pgd a PGSIZE (V2P x) (PTE_W OR PTE_U) = Inr (0, s')"
      "vm_ok kend s' pgd xs'" "suffix xs' xs"
      "\<And>va. lookup (kmemory s') pgd va = (if PGROUNDDOWN va = a then user_pte x else lookup (kmemory s) pgd va)"
      "new_dir (kmemory s) (kmemory s') pgd (PDX a) xs xs'" "owned s' pgd xs' = insert x (owned s pgd xs)"
proof -
  note V = vm_okD [OF ok]
  have L: "kpage kend x" "x \<notin> set xs" "x \<noteq> pgd"
    "\<And>d. unat d < 1024 \<Longrightarrow> present (kmemory s) pgd d \<Longrightarrow> x \<noteq> table (kmemory s) pgd d"
    "\<And>va. va < KERNBASE \<Longrightarrow> mapped (kmemory s) pgd va \<Longrightarrow> frame (kmemory s) pgd va \<noteq> x"
    using lo unfolding loose_def by blast+
  have "lookup (kmemory s) pgd a AND PTE_P = 0" using a(3) by (simp add: mapped_def)
  with V(1) show ?thesis
  proof (rule map_one)
    assume "walkpgdir s pgd a True = (0, s)" "xs = []" "\<not> present (kmemory s) pgd (PDX a)"
    then show ?thesis by (intro that(1)) (simp_all add: mappages_one_page [OF a(1)])
  next
    fix pte s1 xs1
    assume w: "walkpgdir s pgd a True = (pte, s1)" "pte \<noteq> 0" "load32 (kmemory s1) pte AND PTE_P = 0"
      and sf: "suffix xs1 xs" and pt: "\<And>v. pt_ok kend (set_mem (store32 (kmemory s1) pte v) s1) pgd xs1"
      and lk: "\<And>v va. lookup (store32 (kmemory s1) pte v) pgd va =
         (if PGROUNDDOWN va = PGROUNDDOWN a then v else lookup (kmemory s) pgd va)"
      and tb: "\<And>v k. unat k < 1024 \<Longrightarrow> present (store32 (kmemory s1) pte v) pgd k \<Longrightarrow>
         present (kmemory s) pgd k \<and> table (store32 (kmemory s1) pte v) pgd k = table (kmemory s) pgd k \<or>
         table (store32 (kmemory s1) pte v) pgd k \<in> set xs - set xs1"
      and nd: "\<And>v. new_dir (kmemory s) (store32 (kmemory s1) pte v) pgd (PDX a) xs xs1"
    let ?m = "store32 (kmemory s1) pte (user_pte x)"
    have pg: "PGROUNDDOWN a = a" using a(1) by (rule PGROUNDDOWN_self)
    have ss: "set xs1 \<subseteq> set xs" using sf by (rule set_mono_suffix)
    note up = user_pte_props [OF kpage_aligned [OF L(1)]]
    have fr: "frame ?m pgd va = (if PGROUNDDOWN va = a then x else frame (kmemory s) pgd va)"
      and mp: "mapped ?m pgd va \<longleftrightarrow> PGROUNDDOWN va = a \<or> mapped (kmemory s) pgd va" for va
      using up by (simp_all add: frame_def mapped_def lk pg)
    have tbs: "f \<noteq> table ?m pgd d" if "unat d < 1024" "present ?m pgd d" "f \<notin> set xs"
      "present (kmemory s) pgd d \<Longrightarrow> f \<noteq> table (kmemory s) pgd d" for f d
      using tb [OF that(1,2)] that(3,4) by auto
    have "vm_ok kend (set_mem ?m s1) pgd xs1"
    proof (rule vm_okI)
      show "kpage kend (frame (kmemory (set_mem ?m s1)) pgd va) \<and>
          frame (kmemory (set_mem ?m s1)) pgd va \<notin> set xs1 \<and> frame (kmemory (set_mem ?m s1)) pgd va \<noteq> pgd"
        if "va < KERNBASE" "mapped (kmemory (set_mem ?m s1)) pgd va" for va
        using that L(1-3) V(2-4) [of va] ss by (cases "PGROUNDDOWN va = a") (auto simp: fr mp)
      show "frame (kmemory (set_mem ?m s1)) pgd va \<noteq> table (kmemory (set_mem ?m s1)) pgd d"
        if "va < KERNBASE" "mapped (kmemory (set_mem ?m s1)) pgd va" "unat d < 1024"
          "present (kmemory (set_mem ?m s1)) pgd d" for va d
      proof (cases "PGROUNDDOWN va = a")
        case True
        have "x \<noteq> table ?m pgd d" using that(3,4) L(2) L(4) [of d] by (intro tbs) simp_all
        with True show ?thesis by (simp add: fr)
      next
        case False
        have "frame (kmemory s) pgd va \<noteq> table ?m pgd d"
          using that False V(3) [of va] V(5) [of va d] by (intro tbs) (simp_all add: mp)
        with False show ?thesis by (simp add: fr)
      qed
      show "PGROUNDDOWN va = PGROUNDDOWN vb"
        if "va < KERNBASE" "vb < KERNBASE" "mapped (kmemory (set_mem ?m s1)) pgd va"
          "mapped (kmemory (set_mem ?m s1)) pgd vb"
          "frame (kmemory (set_mem ?m s1)) pgd va = frame (kmemory (set_mem ?m s1)) pgd vb" for va vb
        using that V(6) [of va vb] L(5) [of va] L(5) [of vb]
        by (cases "PGROUNDDOWN va = a"; cases "PGROUNDDOWN vb = a") (simp_all add: fr mp)
    qed (rule pt)
    moreover have "mappages s pgd a PGSIZE (V2P x) (PTE_W OR PTE_U) = Inr (0, set_mem ?m s1)"
      using w by (simp add: mappages_one_page [OF a(1)] user_pte_def or.assoc)
    moreover have "owned (set_mem ?m s1) pgd xs1 = insert x (owned s pgd xs)"
    proof (rule owned_map [OF _ _ pg a(2)])
      show "new_dir (kmemory s) (kmemory (set_mem ?m s1)) pgd (PDX a) xs xs1" using nd by simp
    qed (use fr mp a(3) in simp_all)
    ultimately show ?thesis using sf lk pg nd by (intro that(2) [of "set_mem ?m s1" xs1]) simp_all
  qed
qed

text \<open>The result of growing: all pages fresh and user-accessible, or none.\<close>

definition grown :: "kmem \<Rightarrow> kmem \<Rightarrow> uint \<Rightarrow> uint list \<Rightarrow> uint \<Rightarrow> uint \<Rightarrow> bool" where
  "grown s s' pgd xs a newsz \<longleftrightarrow>
     (\<forall>va. if visited a newsz va then (\<exists>x \<in> set xs. lookup (kmemory s') pgd va = user_pte x)
        else lookup (kmemory s') pgd va = lookup (kmemory s) pgd va)"

definition undone :: "kmem \<Rightarrow> kmem \<Rightarrow> uint \<Rightarrow> uint \<Rightarrow> uint \<Rightarrow> bool" where
  "undone s s' pgd a newsz \<longleftrightarrow>
     (\<forall>va. if visited a newsz va then \<not> mapped (kmemory s') pgd va
        else lookup (kmemory s') pgd va = lookup (kmemory s) pgd va)"

text \<open>The error paths of \<open>allocuvm\<close>: \<open>deallocuvm\<close>, and \<open>kfree\<close> of the page not mapped.\<close>

lemma owned_unmap:
  assumes "set ys = frames (kmemory s) pgd b newsz" "same_tables (kmemory s) (kmemory s') pgd"
    "\<And>va. if visited b newsz va then \<not> mapped (kmemory s') pgd va else lookup (kmemory s') pgd va = lookup (kmemory s) pgd va"
    "\<And>va. visited b newsz va \<Longrightarrow> va < KERNBASE"
  shows "owned s' pgd (ys @ xs) = owned s pgd xs"
proof -
  have m: "mapped (kmemory s') pgd va \<longleftrightarrow> \<not> visited b newsz va \<and> mapped (kmemory s) pgd va" for va
    using assms(3) [of va] by (auto simp: mapped_def split: if_splits)
  have f: "frame (kmemory s') pgd va = frame (kmemory s) pgd va" if "\<not> visited b newsz va" for va
    using assms(3) [of va] that by (simp add: frame_def)
  have "frames (kmemory s) pgd b newsz \<union> {frame (kmemory s') pgd va |va. va < KERNBASE \<and> mapped (kmemory s') pgd va} =
      {frame (kmemory s) pgd va |va. va < KERNBASE \<and> mapped (kmemory s) pgd va}"
  proof (intro equalityI subsetI)
    fix y assume "y \<in> frames (kmemory s) pgd b newsz \<union>
      {frame (kmemory s') pgd va |va. va < KERNBASE \<and> mapped (kmemory s') pgd va}"
    then show "y \<in> {frame (kmemory s) pgd va |va. va < KERNBASE \<and> mapped (kmemory s) pgd va}"
      using assms(4) m f by (auto simp: frames_def)
  next
    fix y assume "y \<in> {frame (kmemory s) pgd va |va. va < KERNBASE \<and> mapped (kmemory s) pgd va}"
    then obtain va where v: "y = frame (kmemory s) pgd va" "va < KERNBASE" "mapped (kmemory s) pgd va" by blast
    show "y \<in> frames (kmemory s) pgd b newsz \<union>
      {frame (kmemory s') pgd va |va. va < KERNBASE \<and> mapped (kmemory s') pgd va}"
    proof (cases "visited b newsz va")
      case True
      with v show ?thesis by (auto simp: frames_def)
    next
      case False
      with v m f [OF False] have "y = frame (kmemory s') pgd va" "mapped (kmemory s') pgd va" by simp_all
      with v(2) show ?thesis by blast
    qed
  qed
  moreover have "{table (kmemory s') pgd d |d. unat d < 1024 \<and> present (kmemory s') pgd d} =
      {table (kmemory s) pgd d |d. unat d < 1024 \<and> present (kmemory s) pgd d}"
    using assms(2) unfolding same_tables_def by (intro Collect_cong) metis
  ultimately show ?thesis unfolding owned_def set_append assms(1) by blast
qed

lemma allocuvm_undo:
  assumes "KERNBASE < kend" "vm_ok kend s pgd xs" "oldsz \<le> newsz" "newsz < KERNBASE"
    "a < newsz" "PGROUNDUP oldsz \<le> a"
  shows "\<exists>r s' ys. deallocuvm kend s pgd newsz oldsz = Inr (r, s') \<and> vm_ok kend s' pgd (ys @ xs) \<and>
    undone s s' pgd (PGROUNDUP oldsz) newsz \<and> owned s' pgd (ys @ xs) = owned s pgd xs \<and> (\<forall>x. loose kend s pgd xs x \<longrightarrow> loose kend s' pgd (ys @ xs) x)"
proof -
  have "oldsz < KERNBASE" using assms(3,4) by simp
  note r = unat_PGROUNDUP_user [OF this]
  have "oldsz < newsz" using r(2) assms(5,6) by (auto simp: word_less_nat_alt word_le_nat_alt)
  then obtain s' ys where d: "deallocuvm kend s pgd newsz oldsz = Inr (oldsz, s')" "vm_ok kend s' pgd (ys @ xs)"
    and ys: "set ys = frames (kmemory s) pgd (PGROUNDUP oldsz) newsz"
    and st: "same_tables (kmemory s) (kmemory s') pgd"
    and lk: "\<And>va. if visited (PGROUNDUP oldsz) newsz va then \<not> mapped (kmemory s') pgd va
       else lookup (kmemory s') pgd va = lookup (kmemory s) pgd va"
    using deallocuvm_shrinks [OF assms(1,2) less_imp_le [OF assms(4)]] by blast
  have vK: "va < KERNBASE" if "visited (PGROUNDUP oldsz) newsz va" for va
  proof -
    have "unat (PGROUNDDOWN va) < unat newsz" using that by (simp add: visited_def word_less_nat_alt)
    then have "unat (PGROUNDDOWN va) < 2 ^ 31" using assms(4) by (simp add: word_less_nat_alt KERNBASE_def)
    then have "unat va < 2 ^ 31" unfolding unat_PGROUNDDOWN by simp
    then show ?thesis by (simp add: word_less_nat_alt KERNBASE_def)
  qed
  have "loose kend s' pgd (ys @ xs) x" if lo: "loose kend s pgd xs x" for x
  proof -
    have "x \<notin> set ys" unfolding ys frames_def using lo vK by (auto simp: loose_def)
    moreover have "frame (kmemory s') pgd va \<noteq> x" if "va < KERNBASE" "mapped (kmemory s') pgd va" for va
      using that lk [of va] lo by (auto simp: loose_def frame_def mapped_def split: if_splits)
    ultimately show ?thesis using lo st by (auto simp: loose_def same_tables_def)
  qed
  moreover have "owned s' pgd (ys @ xs) = owned s pgd xs"
    using ys st lk vK by (intro owned_unmap)
  ultimately show ?thesis using d lk unfolding undone_def by blast
qed

lemma kfree_loose:
  assumes "vm_ok kend s pgd xs" "loose kend s pgd xs x"
  shows "\<exists>s'. kfree kend s x = Inr s' \<and> vm_ok kend s' pgd (x # xs) \<and>
    (\<forall>va. lookup (kmemory s') pgd va = lookup (kmemory s) pgd va) \<and>
    owned s' pgd (x # xs) = insert x (owned s pgd xs)"
proof -
  note V = vm_okD [OF assms(1)] and I = pt_okD [OF vm_okD(1) [OF assms(1)]]
  have L: "kpage kend x" "x \<notin> set xs" "x \<noteq> pgd"
    "\<forall>d. unat d < 1024 \<longrightarrow> present (kmemory s) pgd d \<longrightarrow> x \<noteq> table (kmemory s) pgd d"
    "\<And>va. va < KERNBASE \<Longrightarrow> mapped (kmemory s) pgd va \<Longrightarrow> frame (kmemory s) pgd va \<noteq> x"
    using assms(2) unfolding loose_def by blast+
  obtain s' where k: "kfree kend s x = Inr s'" and rel: "kmem_rel kend s' (x # xs)"
    using kfree_rel [OF I(1) L(1,2)] by blast
  have "vm_ok kend s' pgd (x # xs)"
  proof (rule vm_ok_off_page [OF assms(1) off_page_kfree [OF k] L(3,4) rel])
    show "set (x # xs) \<inter> {q. q = pgd \<or> (\<exists>d. unat d < 1024 \<and> present (kmemory s) pgd d \<and> q = table (kmemory s) pgd d) \<or>
       (\<exists>va < KERNBASE. mapped (kmemory s) pgd va \<and> q = frame (kmemory s) pgd va)} = {}"
      using I(3,5) V(3) L(3-5) by fastforce
  qed
  moreover note off = off_page_table(1-3) [OF off_page_kfree [OF k] V(1) refl L(3,4)]
  have "owned s' pgd xs = owned s pgd xs"
    using off by (intro owned_cong) (simp_all add: same_tables_def)
  ultimately show ?thesis using k off(3) by (simp add: owned_Cons)
qed

lemma allocuvm_loop_ok:
  assumes "KERNBASE < kend" "oldsz \<le> newsz" "newsz < KERNBASE" "vm_ok kend s pgd xs"
    "4096 dvd unat a" "PGROUNDUP oldsz \<le> a" "\<And>va. visited a newsz va \<Longrightarrow> \<not> mapped (kmemory s) pgd va"
  shows "\<exists>r s' xs'. allocuvm_loop kend s pgd a oldsz newsz = Inr (r, s') \<and> vm_ok kend s' pgd xs' \<and>
    owned s' pgd xs' = owned s pgd xs \<and>
    (if need (kmemory s) pgd a newsz \<le> length xs then r = newsz \<and> grown s s' pgd xs a newsz
     else r = 0 \<and> undone s s' pgd (PGROUNDUP oldsz) newsz)"
  using assms(4-)
proof (induction "unat newsz - unat a" arbitrary: s xs a rule: less_induct)
  case less
  note V = vm_okD [OF less.prems(1)]
  show ?case
  proof (cases "a < newsz")
    case False
    then have "\<not> visited a newsz va" for va by (auto simp: visited_def)
    with False less.prems(1) show ?thesis by (auto simp: grown_def allocuvm_loop.simps [of kend s] need_end)
  next
    case True
    then have aK: "a < KERNBASE" using assms(3) by simp
    have pg: "PGROUNDDOWN a = a" using less.prems(2) by (rule PGROUNDDOWN_self)
    have va: "visited a newsz a" using True pg by (simp add: visited_def)
    note undo = allocuvm_undo [OF assms(1) _ assms(2,3) True less.prems(3)]
    note unfold = allocuvm_loop.simps [of kend s pgd a oldsz newsz]
    show ?thesis
    proof (cases xs)
      case Nil
      then have k: "kalloc s = (0, s)" using pt_okD(1) [OF V(1)] by (simp add: kmem_rel_def kalloc_def)
      obtain r s' ys where "deallocuvm kend s pgd newsz oldsz = Inr (r, s')" "vm_ok kend s' pgd (ys @ xs)"
        "undone s s' pgd (PGROUNDUP oldsz) newsz" "owned s' pgd (ys @ xs) = owned s pgd xs"
        using undo [OF less.prems(1)] by blast
      moreover have "\<not> need (kmemory s) pgd a newsz \<le> length xs"
        using need_page(1) [OF aK less.prems(2) True, of "kmemory s" pgd] Nil by simp
      ultimately show ?thesis using k True assms(3) by (intro exI [of _ 0] exI [of _ s'] exI [of _ "ys @ xs"]) (simp add: unfold)
    next
      case (Cons x xs1)
      have "fst (kalloc s) = x" using kalloc_rel pt_okD(1) [OF V(1)] Cons by blast
      then obtain s1 where k: "kalloc s = (x, s1)" by (metis prod.collapse)
      have x0: "x \<noteq> 0" using pt_okD(1) [OF V(1)] Cons by (auto simp: kmem_rel_def)
      define s2 where "s2 = set_mem (memset (kmemory s1) x 0 PGSIZE) s1"
      note t = vm_take [OF less.prems(1) [unfolded Cons] k s2_def]
      have nm: "\<not> mapped (kmemory s2) pgd a" using less.prems(4) [OF va] t(4) by (simp add: mapped_def)
      have step: "allocuvm_loop kend s pgd a oldsz newsz =
          bindE (mappages s2 pgd a PGSIZE (V2P x) (PTE_W OR PTE_U)) (\<lambda>(r, s).
             if r < 0 then
               bindE (deallocuvm kend s pgd newsz oldsz) (\<lambda>(_, s).
               bindE (kfree kend s x) (\<lambda>s. Inr (0, s)))
             else allocuvm_loop kend s pgd (a + PGSIZE) oldsz newsz)"
        using True assms(3) k x0 by (simp add: unfold s2_def Let_def)
      have ow: "owned s pgd xs = insert x (owned s2 pgd xs1)"
        using owned_cong [OF t(3,4), of xs1] Cons by (simp add: owned_Cons)
      have nd2: "need (kmemory s2) pgd a newsz = need (kmemory s) pgd a newsz"
        using t(3) by (rule need_same_tables)
      show ?thesis
      proof (rule vm_map [OF t(1,2) less.prems(2) aK nm])
        assume f: "mappages s2 pgd a PGSIZE (V2P x) (PTE_W OR PTE_U) = Inr (- 1, s2)"
          and no: "xs1 = []" "\<not> present (kmemory s2) pgd (PDX a)"
        obtain r s' ys where d: "deallocuvm kend s2 pgd newsz oldsz = Inr (r, s')" "vm_ok kend s' pgd (ys @ xs1)"
          "undone s2 s' pgd (PGROUNDUP oldsz) newsz" "loose kend s' pgd (ys @ xs1) x"
          "owned s' pgd (ys @ xs1) = owned s2 pgd xs1"
          using undo [OF t(1)] t(2) by blast
        obtain s'' where "kfree kend s' x = Inr s''" "vm_ok kend s'' pgd (x # ys @ xs1)"
          "\<And>va. lookup (kmemory s'') pgd va = lookup (kmemory s') pgd va"
          "owned s'' pgd (x # ys @ xs1) = insert x (owned s' pgd (ys @ xs1))"
          using kfree_loose [OF d(2,4)] by blast
        moreover from this(3) d(3) t(4) have "undone s s'' pgd (PGROUNDUP oldsz) newsz"
          by (auto simp: undone_def mapped_def split: if_splits)
        moreover have "\<not> need (kmemory s) pgd a newsz \<le> length xs"
          using need_page(2) [OF aK less.prems(2) True no(2)] nd2 no(1) Cons by simp
        ultimately show ?thesis using step f d(1,5) ow
          by (intro exI [of _ 0] exI [of _ s''] exI [of _ "x # ys @ xs1"]) simp
      next
        fix s3 xs3
        assume f: "mappages s2 pgd a PGSIZE (V2P x) (PTE_W OR PTE_U) = Inr (0, s3)"
          and ok3: "vm_ok kend s3 pgd xs3" and sf: "suffix xs3 xs1"
          and lk: "\<And>va. lookup (kmemory s3) pgd va =
            (if PGROUNDDOWN va = a then user_pte x else lookup (kmemory s2) pgd va)"
          and nd: "new_dir (kmemory s2) (kmemory s3) pgd (PDX a) xs1 xs3"
          and ow3: "owned s3 pgd xs3 = insert x (owned s2 pgd xs1)"
        note vn = visited_next [OF aK less.prems(2) True]
        have u: "unat (a + PGSIZE) = unat a + 4096"
          using aK by (simp add: unat_plus_if' word_less_nat_alt KERNBASE_def)
        have "\<not> mapped (kmemory s3) pgd va" if "visited (a + PGSIZE) newsz va" for va
          using visited_page_neq [OF that aK] less.prems(4) [of va] that vn [of va] lk [of va] t(4) [of va]
          by (simp add: mapped_def)
        moreover have "PGROUNDUP oldsz \<le> a + PGSIZE"
          using less.prems(3) u by (simp add: word_le_nat_alt)
        ultimately obtain r s' xs' where l: "allocuvm_loop kend s3 pgd (a + PGSIZE) oldsz newsz = Inr (r, s')"
          "vm_ok kend s' pgd xs'" "owned s' pgd xs' = owned s3 pgd xs3" and
          gu: "if need (kmemory s3) pgd (a + PGSIZE) newsz \<le> length xs3 then r = newsz \<and> grown s3 s' pgd xs3 (a + PGSIZE) newsz
            else r = 0 \<and> undone s3 s' pgd (PGROUNDUP oldsz) newsz"
          using less.hyps [OF page_step_less [OF True assms(3)] ok3 aligned_add_page [OF less.prems(2)]] by blast
        have ss: "set xs3 \<subseteq> set xs" "x \<in> set xs" using set_mono_suffix [OF sf] Cons by auto
        have "grown s s' pgd xs a newsz" if g: "grown s3 s' pgd xs3 (a + PGSIZE) newsz"
          unfolding grown_def
        proof
          fix va
          have "if visited (a + PGSIZE) newsz va then (\<exists>x \<in> set xs3. lookup (kmemory s') pgd va = user_pte x)
            else lookup (kmemory s') pgd va = lookup (kmemory s3) pgd va"
            using g unfolding grown_def by blast
          then show "if visited a newsz va then (\<exists>x \<in> set xs. lookup (kmemory s') pgd va = user_pte x)
            else lookup (kmemory s') pgd va = lookup (kmemory s) pgd va"
            using vn [of va] lk [of va] t(4) [of va] ss by (cases "PGROUNDDOWN va = a") (auto split: if_splits)
        qed
        moreover have "undone s s' pgd (PGROUNDUP oldsz) newsz" if "undone s3 s' pgd (PGROUNDUP oldsz) newsz"
          unfolding undone_def
        proof
          fix va
          have "visited (PGROUNDUP oldsz) newsz va" if "PGROUNDDOWN va = a"
            using that less.prems(3) True by (simp add: visited_def)
          then show "if visited (PGROUNDUP oldsz) newsz va then \<not> mapped (kmemory s') pgd va
            else lookup (kmemory s') pgd va = lookup (kmemory s) pgd va"
            using that lk [of va] t(4) [of va] unfolding undone_def by metis
        qed
        moreover have "need (kmemory s) pgd a newsz \<le> length xs \<longleftrightarrow> need (kmemory s3) pgd (a + PGSIZE) newsz \<le> length xs3"
          using need_next [OF aK less.prems(2) True nd] nd2 Cons by simp
        ultimately show ?thesis using step f l gu ow ow3
          by (intro exI [of _ r] exI [of _ s'] exI [of _ xs']) simp
      qed
    qed
  qed
qed

text \<open>C5: growing an address space is all or nothing and leaks no page: on a well-formed user address
  space with nothing mapped above the old size, \<open>allocuvm\<close> never panics and always returns.  It
  gives the new size exactly when there is a free page for every whole page above the old size
  and for every page table that is missing there; then every such page is mapped user-writable
  to a page that was free.  Otherwise it gives 0 and no page above the old size is mapped.
  Either way no other entry changes, the address space stays well formed, and the pages that
  are free, hold a page table or are behind a user page are together the same as before.\<close>

theorem allocuvm_all_or_nothing:
  assumes "KERNBASE < kend" "vm_ok kend s pgd xs" "oldsz \<le> newsz" "newsz < KERNBASE"
    "\<And>va. visited (PGROUNDUP oldsz) newsz va \<Longrightarrow> \<not> mapped (kmemory s) pgd va"
  shows "\<exists>r s' xs'. allocuvm kend s pgd oldsz newsz = Inr (r, s') \<and> vm_ok kend s' pgd xs' \<and>
    owned s' pgd xs' = owned s pgd xs \<and>
    (if need (kmemory s) pgd (PGROUNDUP oldsz) newsz \<le> length xs
     then r = newsz \<and> grown s s' pgd xs (PGROUNDUP oldsz) newsz
     else r = 0 \<and> undone s s' pgd (PGROUNDUP oldsz) newsz)"
proof -
  have "oldsz < KERNBASE" using assms(3,4) by simp
  note l = allocuvm_loop_ok [OF assms(1,3,4,2) unat_PGROUNDUP_user(1) [OF this] order.refl assms(5)]
  have "allocuvm kend s pgd oldsz newsz = allocuvm_loop kend s pgd (PGROUNDUP oldsz) oldsz newsz"
    using assms(3,4) unfolding allocuvm_def by (simp add: linorder_not_le [symmetric] del: allocuvm_loop.simps)
  with l show ?thesis by (simp del: allocuvm_loop.simps)
qed

text \<open>With one free page and no page table there is no room for a page; the free page is still
  there afterwards.\<close>

theorem allocuvm_all_or_nothing_witness:
  "\<exists>s' xs'. allocuvm 0x80110000 vm0 0x80200000 0 0x1000 = Inr (0, s') \<and> vm_ok 0x80110000 s' 0x80200000 xs' \<and>
     0x80300000 \<in> owned s' 0x80200000 xs'"
proof -
  have "\<not> need (kmemory vm0) 0x80200000 (PGROUNDUP 0) 0x1000 \<le> length [0x80300000 :: uint]"
    using need_page(2) [of 0 "0x1000" "kmemory vm0" "0x80200000"]
    by (simp add: PGROUNDUP_def PGSIZE_def KERNBASE_def present_def vm0_def load32_def)
  moreover have "0x80300000 \<in> owned vm0 0x80200000 [0x80300000]" by (simp add: owned_def)
  ultimately show ?thesis
    using allocuvm_all_or_nothing [OF _ vm0_vm_ok, of 0 "0x1000"] by (auto simp: KERNBASE_def mapped_def vm0_lookup)
qed

end
