(* ===== verification/Xv6_Pipe.thy ===== *)
theory Xv6_Pipe
  imports Xv6_Ptable Xv6_Kalloc "HOL-Library.Sublist"
begin

text \<open>
  Pipes (Xv6-Syscall/src/pipe.c): a ring buffer of 512 bytes with free-running 32-bit
  counters.  A pipe pointer is the address of the page that holds the pipe.

  The stretch of \<open>pipewrite\<close> and \<open>piperead\<close> between two calls of \<open>sleep\<close> runs with the
  pipe's lock held and is one definition; it gives either the result of the call or the
  loop index at which the process went to sleep.  \<open>pipealloc\<close> builds the two open files
  and is in the theory of the file table.

  The second part lets any number of processes read and write one pipe in any order.
  What entered the buffer is what was read followed by what is still in it, also when the
  counters wrap, and what entered it for one call is a prefix of what that call was asked to
  write, all of it when the call returns its count; a process asleep on the pipe has nothing
  to do there, with one exception that is shown to be reachable.
\<close>

section \<open>Operations\<close>

definition PIPESIZE :: uint where "PIPESIZE = 512"

record pipe =
  pdata :: "uchar list"
  nread :: uint
  nwrite :: uint
  readopen :: bool
  writeopen :: bool

text \<open>A call either returns a value or sleeps, keeping its loop index.\<close>

datatype pres = Ret int | Sleeps int

text \<open>The assignments \<open>p->data[p->nwrite++ % PIPESIZE] = c\<close> and \<open>c = p->data[p->nread++ % PIPESIZE]\<close>.\<close>

definition pipe_put :: "uchar \<Rightarrow> pipe \<Rightarrow> pipe" where
  "pipe_put c p = p\<lparr>pdata := (pdata p)[unat (nwrite p mod PIPESIZE) := c], nwrite := nwrite p + 1\<rparr>"

definition pipe_get :: "pipe \<Rightarrow> uchar \<times> pipe" where
  "pipe_get p = (pdata p ! unat (nread p mod PIPESIZE), p\<lparr>nread := nread p + 1\<rparr>)"

function pipewrite :: "nat \<Rightarrow> uint \<Rightarrow> memory \<Rightarrow> uint \<Rightarrow> int \<Rightarrow> int \<Rightarrow> pipe \<Rightarrow> ptable \<Rightarrow> pres \<times> pipe \<times> ptable" where
  "pipewrite cur pa m addr n i p t =
     (if i < n then
        if nwrite p = nread p + PIPESIZE then
          if \<not> readopen p \<or> killed (proc_at t cur) then (Ret (-1), p, t)
          else (Sleeps i, p, sleep_enter cur (CPipeWrite pa) (wakeup (CPipeRead pa) t))
        else pipewrite cur pa m addr n (i + 1) (pipe_put (m (addr + of_int i)) p) t
      else (Ret n, p, wakeup (CPipeRead pa) t))"
  by pat_completeness auto
termination by (relation "measure (\<lambda>(cur, pa, m, addr, n, i, p, t). nat (n - i))") auto

declare pipewrite.simps [simp del]

function piperead_copy :: "memory \<Rightarrow> uint \<Rightarrow> int \<Rightarrow> int \<Rightarrow> pipe \<Rightarrow> int \<times> memory \<times> pipe" where
  "piperead_copy m addr n i p =
     (if i < n \<and> nread p \<noteq> nwrite p then
        let (c, p) = pipe_get p in piperead_copy (m(addr + of_int i := c)) addr n (i + 1) p
      else (i, m, p))"
  by pat_completeness auto
termination by (relation "measure (\<lambda>(m, addr, n, i, p). nat (n - i))") auto

declare piperead_copy.simps [simp del]

definition piperead :: "nat \<Rightarrow> uint \<Rightarrow> memory \<Rightarrow> uint \<Rightarrow> int \<Rightarrow> pipe \<Rightarrow> ptable \<Rightarrow> pres \<times> memory \<times> pipe \<times> ptable" where
  "piperead cur pa m addr n p t =
     (if nread p = nwrite p \<and> writeopen p then
        if killed (proc_at t cur) then (Ret (-1), m, p, t)
        else (Sleeps 0, m, p, sleep_enter cur (CPipeRead pa) t)
      else let (i, m, p) = piperead_copy m addr n 0 p in (Ret i, m, p, wakeup (CPipeWrite pa) t))"

text \<open>\<open>pipeclose\<close>: the pipe is gone (\<open>None\<close>) once both ends are closed, and its page is freed.\<close>

definition pipeclose :: "uint \<Rightarrow> kmem \<Rightarrow> uint \<Rightarrow> pipe \<Rightarrow> bool \<Rightarrow> ptable \<Rightarrow> (pipe option \<times> kmem \<times> ptable) res" where
  "pipeclose kend km pa p writable t =
     (let (p, t) = (if writable then (p\<lparr>writeopen := False\<rparr>, wakeup (CPipeRead pa) t)
                    else (p\<lparr>readopen := False\<rparr>, wakeup (CPipeWrite pa) t)) in
      if \<not> readopen p \<and> \<not> writeopen p then bindE (kfree kend km pa) (\<lambda>km. Inr (None, km, t))
      else Inr (Some p, km, t))"

section \<open>The ring buffer as a queue\<close>

definition fill :: "pipe \<Rightarrow> nat" where
  "fill p = unat (nwrite p - nread p)"

definition contents :: "pipe \<Rightarrow> uchar list" where
  "contents p = map (\<lambda>k. pdata p ! unat ((nread p + of_nat k) mod PIPESIZE)) [0..<fill p]"

definition pipe_ok :: "pipe \<Rightarrow> bool" where
  "pipe_ok p \<longleftrightarrow> length (pdata p) = 512 \<and> fill p \<le> 512"

lemma length_contents [simp]: "length (contents p) = fill p"
  by (simp add: contents_def)

lemma unat_PIPESIZE [simp]: "unat PIPESIZE = 512"
  by (simp add: PIPESIZE_def)

lemma slot_unat: "unat (x mod PIPESIZE) = unat x mod 512"
  by (simp add: unat_mod)

lemma slot_less [simp]: "unat (x mod PIPESIZE) < 512"
  by (simp add: slot_unat)

lemma full_iff: "pipe_ok p \<Longrightarrow> nwrite p = nread p + PIPESIZE \<longleftrightarrow> fill p = 512"
  by (metis add_diff_cancel_left' diff_add_cancel add.commute fill_def unat_PIPESIZE word_unat_eq_iff)

lemma empty_iff: "nread p = nwrite p \<longleftrightarrow> fill p = 0"
  by (metis fill_def unat_eq_zero right_minus_eq)

text \<open>512 divides \<open>2 ^ 32\<close>, so the slots of up to 512 successive counter values are distinct
  whether or not the counter wraps between them.\<close>

lemma slot_add: "unat ((x + of_nat k) mod PIPESIZE) = (unat x + k) mod 512"
proof -
  have "unat (x + of_nat k) = (unat x + k) mod 2 ^ 32"
    by (simp add: unat_word_ariths unat_of_nat mod_add_right_eq)
  then have "unat (x + of_nat k) mod 512 = (unat x + k) mod 2 ^ 32 mod 512" by simp
  also have "\<dots> = (unat x + k) mod 512" by (rule mod_mod_cancel) simp
  finally show ?thesis by (simp add: slot_unat)
qed

lemma slot_neq:
  assumes "j < k" "k < 512 + j"
  shows "(a + j) mod 512 \<noteq> (a + k) mod (512 :: nat)"
proof
  assume "(a + j) mod 512 = (a + k) mod 512"
  then have "512 dvd (a + k) - (a + j)" using assms(1) by (metis add_le_cancel_left less_or_eq_imp_le mod_eq_dvd_iff_nat)
  then have "512 dvd k - j" by simp
  with assms show False by (auto dest!: dvd_imp_le)
qed

lemma pipe_put_queue:
  assumes "pipe_ok p" "fill p < 512"
  shows "pipe_ok (pipe_put c p)" "contents (pipe_put c p) = contents p @ [c]" "fill (pipe_put c p) = Suc (fill p)"
proof -
  have f: "fill (pipe_put c p) = Suc (fill p)"
  proof -
    have "unat ((nwrite p - nread p) + 1) = Suc (unat (nwrite p - nread p))"
      using assms(2) unfolding fill_def unat_plus_if' by simp
    then show ?thesis by (simp add: fill_def pipe_put_def diff_add_eq)
  qed
  then show "fill (pipe_put c p) = Suc (fill p)" .
  show "pipe_ok (pipe_put c p)" using assms f by (simp add: pipe_ok_def) (simp add: pipe_put_def)
  have w: "nwrite p = nread p + of_nat (fill p)" by (simp add: fill_def)
  have len: "length (pdata p) = 512" using assms(1) by (simp add: pipe_ok_def)
  have "pdata (pipe_put c p) ! unat ((nread p + of_nat k) mod PIPESIZE) =
      (if k = fill p then c else pdata p ! unat ((nread p + of_nat k) mod PIPESIZE))" if "k \<le> fill p" for k
  proof -
    have "(unat (nread p) + k) mod 512 \<noteq> (unat (nread p) + fill p) mod 512" if "k < fill p"
      using slot_neq [OF that, of "unat (nread p)"] assms(2) by simp
    with that show ?thesis by (auto simp: pipe_put_def len w slot_add nth_list_update)
  qed
  then show "contents (pipe_put c p) = contents p @ [c]"
    unfolding contents_def f by (simp add: pipe_put_def)
qed

lemma pipe_get_queue:
  assumes "pipe_ok p" "nread p \<noteq> nwrite p"
  shows "pipe_ok (snd (pipe_get p))" "contents p = fst (pipe_get p) # contents (snd (pipe_get p))"
    "Suc (fill (snd (pipe_get p))) = fill p"
proof -
  have "nwrite p - nread p \<noteq> 0" using assms(2) by simp
  then have "unat (nwrite p - nread p - 1) = unat (nwrite p - nread p) - 1" by (simp add: unat_minus_one)
  moreover have "fill p \<noteq> 0" using assms(2) empty_iff by simp
  ultimately have f: "Suc (fill (snd (pipe_get p))) = fill p"
    by (simp add: fill_def pipe_get_def diff_diff_eq [symmetric] diff_diff_add [symmetric])
  then show "Suc (fill (snd (pipe_get p))) = fill p" .
  show "pipe_ok (snd (pipe_get p))" using assms f by (simp add: pipe_ok_def) (simp add: pipe_get_def)
  show "contents p = fst (pipe_get p) # contents (snd (pipe_get p))"
  proof -
    have "[0..<fill p] = 0 # map Suc [0..<fill (snd (pipe_get p))]"
      unfolding f [symmetric] map_Suc_upt by (rule upt_conv_Cons) simp
    then show ?thesis unfolding contents_def by (simp add: pipe_get_def add.assoc)
  qed
qed

section \<open>What one stretch of a call does\<close>

lemma bytes_at_Suc_first: "bytes_at m a (Suc n) = m a # bytes_at m (a + 1) n"
proof -
  have "[0..<Suc n] = 0 # map Suc [0..<n]" unfolding map_Suc_upt by (rule upt_conv_Cons) simp
  then show ?thesis by (simp add: bytes_at_def add.assoc)
qed

text \<open>The outcome of \<open>pipewrite\<close> from loop index \<open>i\<close>: \<open>k\<close> more bytes are in the buffer; the call
  returns \<open>n\<close> with everything written, or stops with the buffer full, either asleep or with -1
  when the read end is closed or the process was killed.\<close>

definition write_outcome :: "nat \<Rightarrow> uint \<Rightarrow> memory \<Rightarrow> uint \<Rightarrow> int \<Rightarrow> int \<Rightarrow> pipe \<Rightarrow> ptable \<Rightarrow> nat \<Rightarrow> pres \<Rightarrow> pipe \<Rightarrow> ptable \<Rightarrow> bool" where
  "write_outcome cur pa m addr n i p t k r p' t' \<longleftrightarrow>
     pipe_ok p' \<and> nread p' = nread p \<and> readopen p' = readopen p \<and> writeopen p' = writeopen p \<and>
     fill p' = fill p + k \<and> contents p' = contents p @ bytes_at m (addr + of_int i) k \<and>
     (case r of
        Ret v \<Rightarrow> v = n \<and> (i + int k = n \<or> k = 0 \<and> n < i) \<and> t' = wakeup (CPipeRead pa) t \<or>
                 v = -1 \<and> fill p' = 512 \<and> i + int k < n \<and> (\<not> readopen p \<or> killed (proc_at t cur)) \<and> t' = t
      | Sleeps j \<Rightarrow> j = i + int k \<and> j < n \<and> fill p' = 512 \<and> readopen p \<and> \<not> killed (proc_at t cur) \<and>
                 t' = sleep_enter cur (CPipeWrite pa) (wakeup (CPipeRead pa) t))"

lemma pipewrite_outcome:
  assumes "pipe_ok p" "pipewrite cur pa m addr n i p t = (r, p', t')"
  shows "\<exists>k. write_outcome cur pa m addr n i p t k r p' t'"
  using assms
proof (induction cur pa m addr n i p t arbitrary: r p' t' rule: pipewrite.induct)
  case (1 cur pa m addr n i p t)
  show ?case
  proof (cases "i < n \<and> nwrite p \<noteq> nread p + PIPESIZE")
    case False
    with 1(2,3) full_iff [OF 1(2)] have "write_outcome cur pa m addr n i p t 0 r p' t'"
      by (auto simp: write_outcome_def pipewrite.simps [of cur pa m addr n i p t] bytes_at_def split: if_splits)
    then show ?thesis by blast
  next
    case True
    let ?p = "pipe_put (m (addr + of_int i)) p"
    have f: "fill p < 512" using True full_iff [OF 1(2)] 1(2) by (auto simp: pipe_ok_def)
    note q = pipe_put_queue [OF 1(2) f, of "m (addr + of_int i)"]
    have fr: "nread ?p = nread p" "readopen ?p = readopen p" "writeopen ?p = writeopen p"
      by (simp_all add: pipe_put_def)
    have "pipewrite cur pa m addr n (i + 1) ?p t = (r, p', t')"
      using 1(3) True by (simp add: pipewrite.simps [of cur pa m addr n i p t])
    then obtain k where "write_outcome cur pa m addr n (i + 1) ?p t k r p' t'" using 1(1) True q(1) by blast
    then have "write_outcome cur pa m addr n i p t (Suc k) r p' t'"
      unfolding write_outcome_def bytes_at_Suc_first fr q(2,3) using True by (auto split: pres.splits simp: algebra_simps)
    then show ?thesis by blast
  qed
qed

lemma nwrite_fill: "nread p' = nread p \<Longrightarrow> nwrite p' = nwrite p + of_nat (fill p') - of_nat (fill p)"
  by (simp add: fill_def)

text \<open>Reading takes a prefix of the queue into the caller's buffer.\<close>

lemma piperead_copy_takes:
  assumes "pipe_ok p" "piperead_copy m addr n i p = (j, m', p')" "0 \<le> i" "nat i + fill p < 2 ^ 32"
  shows "pipe_ok p' \<and> nwrite p' = nwrite p \<and> readopen p' = readopen p \<and> writeopen p' = writeopen p \<and>
    i \<le> j \<and> contents p = bytes_at m' (addr + of_int i) (nat (j - i)) @ contents p' \<and>
    (j < n \<longrightarrow> fill p' = 0) \<and> (i \<le> n \<longrightarrow> j \<le> n) \<and>
    (\<forall>k < nat i. m' (addr + of_nat k) = m (addr + of_nat k))"
  using assms
proof (induction m addr n i p arbitrary: j m' p' rule: piperead_copy.induct)
  case (1 m addr n i p)
  show ?case
  proof (cases "i < n \<and> nread p \<noteq> nwrite p")
    case False
    with 1(2-) show ?thesis
      by (auto simp: piperead_copy.simps [of m addr n i p] bytes_at_def empty_iff)
  next
    case True
    obtain c p1 where g: "pipe_get p = (c, p1)" by fastforce
    note q = pipe_get_queue [OF 1(2), unfolded g, simplified, OF conjunct2 [OF True]]
    have fr: "nwrite p1 = nwrite p" "readopen p1 = readopen p" "writeopen p1 = writeopen p"
      using g by (auto simp: pipe_get_def)
    have rec: "piperead_copy (m(addr + of_int i := c)) addr n (i + 1) p1 = (j, m', p')"
      using 1(3) True g by (simp add: piperead_copy.simps [of m addr n i p])
    have b: "nat (i + 1) + fill p1 < 2 ^ 32" "0 \<le> i + 1" using 1(4,5) q(3) by (simp_all add: nat_add_distrib)
    note IH = 1(1) [OF True refl [of "pipe_get p"] g [symmetric] q(1) rec b(2,1)]
    then have j: "i + 1 \<le> j" by blast
    have w: "addr + of_int i = addr + of_nat (nat i)" using 1(4) by simp
    have fm: "m' (addr + of_nat k) = (m(addr + of_int i := c)) (addr + of_nat k)" if "k \<le> nat i" for k
      using IH that 1(4) by (auto simp: nat_add_distrib)
    have ne: "addr + of_nat k \<noteq> addr + of_int i" if "k < nat i" for k
    proof
      assume "addr + of_nat k = addr + of_int i"
      then have "(of_nat k :: uint) = of_nat (nat i)" unfolding w by (rule add_left_imp_eq)
      then have "unat (of_nat k :: uint) = unat (of_nat (nat i) :: uint)" by (rule arg_cong)
      then show False using that 1(5) unfolding unat_of_nat by simp
    qed
    have "nat (j - i) = Suc (nat (j - (i + 1)))" using j by simp
    moreover have "m' (addr + of_int i) = c" using fm [of "nat i"] w by simp
    ultimately have "contents p = bytes_at m' (addr + of_int i) (nat (j - i)) @ contents p'"
      using IH q(2) by (simp only: bytes_at_Suc_first) (simp add: add.assoc)
    moreover have "m' (addr + of_nat k) = m (addr + of_nat k)" if "k < nat i" for k
      using fm [of k] ne [OF that] that by simp
    ultimately show ?thesis using IH fr True by auto
  qed
qed

section \<open>Many processes on one pipe\<close>

text \<open>The call a process is in, and the state of the pipe, the table and the calls.  The calls of
  \<open>pipewrite\<close> are numbered in the order in which they start.  The last five fields are history:
  the bytes each call of \<open>pipewrite\<close> was asked to write; the bytes that entered the buffer, each
  with the call that put it there; what the finished calls returned; all bytes read; and
  whether a write was given up because its process had been killed, after the readers were
  last woken.\<close>

datatype pcall = NoCall | Writing nat memory uint int int | Reading memory uint int

record pipesys =
  px :: pipe
  ptb :: ptable
  calls :: "nat \<Rightarrow> pcall"
  requests :: "uchar list list"
  stream :: "(nat \<times> uchar) list"
  results :: "nat \<rightharpoonup> int"
  recvd :: "uchar list"
  aborted :: bool

text \<open>One stretch of call \<open>c\<close>.  What it added to the stream is read off the buffer: the bytes
  behind those that were there before.\<close>

definition do_write :: "uint \<Rightarrow> nat \<Rightarrow> nat \<Rightarrow> memory \<Rightarrow> uint \<Rightarrow> int \<Rightarrow> int \<Rightarrow> ptable \<Rightarrow> pipesys \<Rightarrow> pipesys" where
  "do_write pa cur c m addr n i t s =
     (case pipewrite cur pa m addr n i (px s) t of (r, p, t') \<Rightarrow>
        s\<lparr>px := p, ptb := t',
          calls := (calls s)(cur := (case r of Ret _ \<Rightarrow> NoCall | Sleeps j \<Rightarrow> Writing c m addr n j)),
          stream := stream s @ map (Pair c) (drop (fill (px s)) (contents p)),
          results := (case r of Ret v \<Rightarrow> (results s)(c \<mapsto> v) | Sleeps _ \<Rightarrow> results s),
          aborted := (r = Ret (-1) \<and> (aborted s \<or> killed (proc_at t cur)))\<rparr>)"

text \<open>A new call: its request is recorded and the call starts at loop index 0.\<close>

definition start_write :: "nat \<Rightarrow> memory \<Rightarrow> uint \<Rightarrow> int \<Rightarrow> pipesys \<Rightarrow> pipesys" where
  "start_write cur m addr n s = s\<lparr>requests := requests s @ [bytes_at m addr (nat n)],
     calls := (calls s)(cur := Writing (length (requests s)) m addr n 0)\<rparr>"

definition do_read :: "uint \<Rightarrow> nat \<Rightarrow> memory \<Rightarrow> uint \<Rightarrow> int \<Rightarrow> ptable \<Rightarrow> pipesys \<Rightarrow> pipesys" where
  "do_read pa cur m addr n t s =
     (case piperead cur pa m addr n (px s) t of (r, m', p, t') \<Rightarrow>
        s\<lparr>px := p, ptb := t',
          calls := (calls s)(cur := (case r of Ret _ \<Rightarrow> NoCall | Sleeps _ \<Rightarrow> Reading m addr n)),
          recvd := recvd s @ (case r of Ret v \<Rightarrow> bytes_at m' addr (nat v) | Sleeps _ \<Rightarrow> [])\<rparr>)"

definition running :: "nat \<Rightarrow> pipesys \<Rightarrow> bool" where
  "running cur s \<longleftrightarrow> cur < length (procs (ptb s)) \<and> state (proc_at (ptb s) cur) = RUNNING"

text \<open>A process starts a call on an end that is open, or goes on with it after its sleep; the
  scheduler runs a runnable process; a process is killed; the last reference to an end is
  dropped, so that no process is in a call on that end.\<close>

inductive pipe_step :: "uint \<Rightarrow> pipesys \<Rightarrow> pipesys \<Rightarrow> bool" for pa where
  wr: "running cur s \<Longrightarrow> calls s cur = NoCall \<Longrightarrow> writeopen (px s) \<Longrightarrow> 0 \<le> n \<Longrightarrow>
     pipe_step pa s (do_write pa cur (length (requests s)) m addr n 0 (ptb s) (start_write cur m addr n s))"
| wr_on: "running cur s \<Longrightarrow> calls s cur = Writing c m addr n i \<Longrightarrow>
     pipe_step pa s (do_write pa cur c m addr n i (sleep_leave cur (ptb s)) s)"
| rd: "running cur s \<Longrightarrow> calls s cur = NoCall \<Longrightarrow> readopen (px s) \<Longrightarrow>
     pipe_step pa s (do_read pa cur m addr n (ptb s) s)"
| rd_on: "running cur s \<Longrightarrow> calls s cur = Reading m addr n \<Longrightarrow>
     pipe_step pa s (do_read pa cur m addr n (sleep_leave cur (ptb s)) s)"
| sched: "cur < length (procs (ptb s)) \<Longrightarrow> scheduler_pick cur (ptb s) = Some (j, t) \<Longrightarrow>
     pipe_step pa s (s\<lparr>ptb := t\<rparr>)"
| kill: "pipe_step pa s (s\<lparr>ptb := snd (kill i (ptb s))\<rparr>)"
| close: "(\<And>k. case calls s k of NoCall \<Rightarrow> True | Writing _ _ _ _ _ \<Rightarrow> \<not> w | Reading _ _ _ \<Rightarrow> w) \<Longrightarrow>
     pipeclose kend km pa (px s) w (ptb s) = Inr (Some p, km', t) \<Longrightarrow>
     pipe_step pa s (s\<lparr>px := p, ptb := t, aborted := (aborted s \<and> \<not> w)\<rparr>)"

definition on_pipe :: "uint \<Rightarrow> proc \<Rightarrow> bool" where
  "on_pipe pa q \<longleftrightarrow> state q = SLEEPING \<and> (chan q = Some (CPipeRead pa) \<or> chan q = Some (CPipeWrite pa))"

definition pipe_new :: "uchar list \<Rightarrow> pipe" where
  "pipe_new d = \<lparr>pdata = d, nread = 0, nwrite = 0, readopen = True, writeopen = True\<rparr>"

inductive pipe_reachable :: "uint \<Rightarrow> pipesys \<Rightarrow> bool" for pa where
  init: "length d = 512 \<Longrightarrow> (\<forall>q \<in> set (procs t). \<not> on_pipe pa q) \<Longrightarrow>
     pipe_reachable pa \<lparr>px = pipe_new d, ptb = t, calls = (\<lambda>_. NoCall), requests = [], stream = [],
       results = Map.empty, recvd = [], aborted = False\<rparr>"
| step: "pipe_reachable pa s \<Longrightarrow> pipe_step pa s s' \<Longrightarrow> pipe_reachable pa s'"

definition is_reading :: "pcall \<Rightarrow> bool" where
  "is_reading c \<longleftrightarrow> (case c of Reading _ _ _ \<Rightarrow> True | _ \<Rightarrow> False)"

definition pipe_inv :: "uint \<Rightarrow> pipesys \<Rightarrow> bool" where
  "pipe_inv pa s \<longleftrightarrow> pipe_ok (px s) \<and> map snd (stream s) = recvd s @ contents (px s) \<and>
     (\<forall>k < length (procs (ptb s)). state (proc_at (ptb s) k) = SLEEPING \<longrightarrow>
        (chan (proc_at (ptb s) k) = Some (CPipeWrite pa) \<longrightarrow> fill (px s) = 512 \<and> readopen (px s)) \<and>
        (chan (proc_at (ptb s) k) = Some (CPipeRead pa) \<longrightarrow> readopen (px s) \<and> is_reading (calls s k) \<and>
           (aborted s \<or> fill (px s) = 0 \<and> writeopen (px s)))) \<and>
     (\<not> readopen (px s) \<longrightarrow> (\<forall>k. \<not> is_reading (calls s k)))"

lemma pipe_invD:
  assumes "pipe_inv pa s"
  shows "pipe_ok (px s)" "map snd (stream s) = recvd s @ contents (px s)"
    "k < length (procs (ptb s)) \<Longrightarrow> state (proc_at (ptb s) k) = SLEEPING \<Longrightarrow>
       chan (proc_at (ptb s) k) = Some (CPipeWrite pa) \<Longrightarrow> fill (px s) = 512 \<and> readopen (px s)"
    "k < length (procs (ptb s)) \<Longrightarrow> state (proc_at (ptb s) k) = SLEEPING \<Longrightarrow>
       chan (proc_at (ptb s) k) = Some (CPipeRead pa) \<Longrightarrow> readopen (px s) \<and> is_reading (calls s k) \<and>
         (aborted s \<or> fill (px s) = 0 \<and> writeopen (px s))"
    "\<not> readopen (px s) \<Longrightarrow> \<not> is_reading (calls s k)"
  using assms unfolding pipe_inv_def by blast+

lemma pipe_invI:
  assumes "pipe_ok (px s)" "map snd (stream s) = recvd s @ contents (px s)"
    "\<And>k. k < length (procs (ptb s)) \<Longrightarrow> state (proc_at (ptb s) k) = SLEEPING \<Longrightarrow>
       chan (proc_at (ptb s) k) = Some (CPipeWrite pa) \<Longrightarrow> fill (px s) = 512 \<and> readopen (px s)"
    "\<And>k. k < length (procs (ptb s)) \<Longrightarrow> state (proc_at (ptb s) k) = SLEEPING \<Longrightarrow>
       chan (proc_at (ptb s) k) = Some (CPipeRead pa) \<Longrightarrow> readopen (px s) \<and> is_reading (calls s k) \<and>
         (aborted s \<or> fill (px s) = 0 \<and> writeopen (px s))"
    "\<And>k. \<not> readopen (px s) \<Longrightarrow> \<not> is_reading (calls s k)"
  shows "pipe_inv pa s"
  using assms unfolding pipe_inv_def by blast

lemma pipe_inv_write:
  assumes "pipe_inv pa s" "cur < length (procs (ptb s))" "state (proc_at (ptb s) cur) = RUNNING"
    "\<not> is_reading (calls s cur) \<or> readopen (px s)" "0 \<le> n"
    "t = ptb s \<or> t = sleep_leave cur (ptb s)"
  shows "pipe_inv pa (do_write pa cur c m addr n i t s)"
proof -
  note I = pipe_invD [OF assms(1)]
  obtain r p' t' where w: "pipewrite cur pa m addr n i (px s) t = (r, p', t')" by (metis prod_cases3)
  then obtain k where o: "write_outcome cur pa m addr n i (px s) t k r p' t'"
    using pipewrite_outcome [OF I(1)] by blast
  then have k: "pipe_ok p'" "contents p' = contents (px s) @ bytes_at m (addr + of_int i) k"
    "readopen p' = readopen (px s)" "writeopen p' = writeopen (px s)" "fill p' = fill (px s) + k"
    by (simp_all add: write_outcome_def)
  have len: "length (procs t) = length (procs (ptb s))" using assms(6) by (auto simp: sleep_leave_def)
  have other: "proc_at t j = proc_at (ptb s) j" if "j \<noteq> cur" "j < length (procs (ptb s))" for j
    using assms(6) that by (auto simp: sleep_leave_def ptab_simps)
  have cur: "state (proc_at t cur) = RUNNING" "killed (proc_at t cur) = killed (proc_at (ptb s) cur)"
    using assms(2,3,6) by (auto simp: sleep_leave_def ptab_simps)
  have res: "r = Ret (-1) \<and> t' = t \<and> fill p' = 512 \<and> (\<not> readopen (px s) \<or> killed (proc_at t cur)) \<or>
      r \<noteq> Ret (-1) \<and> t' = wakeup (CPipeRead pa) t \<and> (\<exists>v. r = Ret v) \<or>
      r \<noteq> Ret (-1) \<and> t' = sleep_enter cur (CPipeWrite pa) (wakeup (CPipeRead pa) t) \<and> fill p' = 512 \<and> readopen (px s)"
    using o assms(5) by (cases r) (auto simp: write_outcome_def)
  define s' where "s' = do_write pa cur c m addr n i t s"
  have e: "px s' = p'" "ptb s' = t'" "aborted s' = (r = Ret (-1) \<and> (aborted s \<or> killed (proc_at t cur)))"
    "recvd s' = recvd s" "map snd (stream s') = map snd (stream s) @ bytes_at m (addr + of_int i) k"
    "j \<noteq> cur \<Longrightarrow> calls s' j = calls s j" "\<not> is_reading (calls s' cur)" for j
    unfolding s'_def do_write_def w by (simp_all add: k comp_def is_reading_def split: pres.split)
  have sl: "j \<noteq> cur \<and> state (proc_at (ptb s) j) = SLEEPING \<and> chan (proc_at (ptb s) j) = chan (proc_at t' j) \<or>
      j = cur \<and> chan (proc_at t' j) = Some (CPipeWrite pa) \<and> fill p' = 512 \<and> readopen (px s)"
    if "j < length (procs (ptb s))" "state (proc_at t' j) = SLEEPING" for j
    using that res other [of j] cur len
    by (cases "j = cur") (auto simp: wakeup_def sleep_enter_def ptab_simps split: if_splits)
  have rd: "r = Ret (-1) \<and> fill p' = 512 \<and> (\<not> readopen (px s) \<or> killed (proc_at t cur))"
    if "j < length (procs (ptb s))" "state (proc_at t' j) = SLEEPING" "chan (proc_at t' j) = Some (CPipeRead pa)" for j
    using that res cur len
    by (cases "j = cur") (auto simp: wakeup_def sleep_enter_def ptab_simps split: if_splits)
  have len': "length (procs t') = length (procs (ptb s))"
    using res len by (auto simp: wakeup_def sleep_enter_def)
  show ?thesis unfolding s'_def [symmetric]
  proof (rule pipe_invI, unfold e)
    fix j assume j: "j < length (procs t')" "state (proc_at t' j) = SLEEPING" "chan (proc_at t' j) = Some (CPipeWrite pa)"
    with sl [of j] I(3) [of j] k(1,3,5) len' show "fill p' = 512 \<and> readopen p'" by (auto simp: pipe_ok_def)
  next
    fix j assume j: "j < length (procs t')" "state (proc_at t' j) = SLEEPING" "chan (proc_at t' j) = Some (CPipeRead pa)"
    with sl [of j] len' have "j \<noteq> cur" "readopen (px s)" "is_reading (calls s j)" using I(4) [of j] by auto
    with rd [of j] j len' e(6) [of j] k(3) show "readopen p' \<and> is_reading (calls s' j) \<and>
        (r = Ret (-1) \<and> (aborted s \<or> killed (proc_at t cur)) \<or> fill p' = 0 \<and> writeopen p')" by auto
  next
    fix j assume "\<not> readopen p'"
    then show "\<not> is_reading (calls s' j)" using I(5) [of j] k(3) e(6,7) by (cases "j = cur") auto
  qed (use I k in auto)
qed

lemma pipe_inv_read:
  assumes "pipe_inv pa s" "cur < length (procs (ptb s))" "state (proc_at (ptb s) cur) = RUNNING"
    "readopen (px s)" "t = ptb s \<or> t = sleep_leave cur (ptb s)"
  shows "pipe_inv pa (do_read pa cur m addr n t s)"
proof -
  note I = pipe_invD [OF assms(1)]
  have len: "length (procs t) = length (procs (ptb s))" using assms(5) by (auto simp: sleep_leave_def)
  have other: "proc_at t j = proc_at (ptb s) j" if "j \<noteq> cur" "j < length (procs (ptb s))" for j
    using assms(5) that by (auto simp: sleep_leave_def ptab_simps)
  have cur: "state (proc_at t cur) = RUNNING" using assms(2,3,5) by (auto simp: sleep_leave_def ptab_simps)
  have wt: "fill (px s) = 512"
    if "k < length (procs (ptb s))" "state (proc_at t k) = SLEEPING" "chan (proc_at t k) = Some (CPipeWrite pa)" for k
    using that other [of k] cur I(3) [of k] by (cases "k = cur") auto
  have rt: "is_reading (calls s k)"
    if "k < length (procs (ptb s))" "state (proc_at t k) = SLEEPING" "chan (proc_at t k) = Some (CPipeRead pa)" for k
    using that other [of k] cur I(4) [of k] by (cases "k = cur") auto
  show ?thesis
  proof (cases "nread (px s) = nwrite (px s) \<and> writeopen (px s)")
    case True
    then show ?thesis
      using I(1,2,5) assms(4) cur len empty_iff [of "px s"] wt rt
      by (intro pipe_invI) (auto simp: do_read_def piperead_def bytes_at_def sleep_enter_def ptab_simps is_reading_def
          split: if_splits)
  next
    case False
    obtain j m' p' where c: "piperead_copy m addr n 0 (px s) = (j, m', p')" by (metis prod_cases3)
    have "fill (px s) < 2 ^ 32" using I(1) by (simp add: pipe_ok_def)
    then have o: "pipe_ok p'" "readopen p' = readopen (px s)" "writeopen p' = writeopen (px s)"
      "contents (px s) = bytes_at m' addr (nat j) @ contents p'"
      using piperead_copy_takes [OF I(1) c] by simp_all
    then have f: "fill (px s) = nat j + fill p'" by (metis length_append length_bytes_at length_contents)
    have d: "do_read pa cur m addr n t s = s\<lparr>px := p', ptb := wakeup (CPipeWrite pa) t,
        calls := (calls s)(cur := NoCall), recvd := recvd s @ bytes_at m' addr (nat j)\<rparr>"
      using c False unfolding do_read_def piperead_def if_not_P [OF False] by simp
    define s' where "s' = do_read pa cur m addr n t s"
    have e: "px s' = p'" "ptb s' = wakeup (CPipeWrite pa) t" "calls s' = (calls s)(cur := NoCall)"
      "recvd s' = recvd s @ bytes_at m' addr (nat j)" "stream s' = stream s" "aborted s' = aborted s"
      unfolding s'_def d by simp_all
    show ?thesis unfolding s'_def [symmetric]
    proof (rule pipe_invI, unfold e)
      fix k assume "k < length (procs (wakeup (CPipeWrite pa) t))"
        "state (proc_at (wakeup (CPipeWrite pa) t) k) = SLEEPING"
        "chan (proc_at (wakeup (CPipeWrite pa) t) k) = Some (CPipeRead pa)"
      then show "readopen p' \<and> is_reading (((calls s)(cur := NoCall)) k) \<and> (aborted s \<or> fill p' = 0 \<and> writeopen p')"
        using I(4) [of k] other [of k] cur len o f False empty_iff [of "px s"]
        by (cases "k = cur") (auto simp: wakeup_def ptab_simps split: if_splits)
    qed (use I o assms(4) len in \<open>auto simp: wakeup_def ptab_simps is_reading_def split: if_splits\<close>)
  qed
qed

text \<open>The history of the writes.\<close>

definition written :: "pipesys \<Rightarrow> nat \<Rightarrow> uchar list" where
  "written s c = map snd (filter (\<lambda>x. fst x = c) (stream s))"

definition writer_ok :: "pipesys \<Rightarrow> nat \<Rightarrow> nat \<Rightarrow> memory \<Rightarrow> uint \<Rightarrow> int \<Rightarrow> int \<Rightarrow> bool" where
  "writer_ok s k c m addr n i \<longleftrightarrow> c < length (requests s) \<and> requests s ! c = bytes_at m addr (nat n) \<and>
     0 \<le> i \<and> i \<le> n \<and> written s c = bytes_at m addr (nat i) \<and> results s c = None \<and>
     (\<forall>k' m' addr' n' i'. calls s k' = Writing c m' addr' n' i' \<longrightarrow> k' = k)"

definition result_ok :: "pipesys \<Rightarrow> nat \<Rightarrow> bool" where
  "result_ok s c \<longleftrightarrow> (case results s c of
      None \<Rightarrow> (\<exists>k m addr n i. calls s k = Writing c m addr n i)
    | Some v \<Rightarrow> v = int (length (requests s ! c)) \<and> written s c = requests s ! c \<or>
                v = -1 \<and> prefix (written s c) (requests s ! c))"

definition hist_inv :: "pipesys \<Rightarrow> bool" where
  "hist_inv s \<longleftrightarrow> (\<forall>x \<in> set (stream s). fst x < length (requests s)) \<and>
     (\<forall>k c m addr n i. calls s k = Writing c m addr n i \<longrightarrow> writer_ok s k c m addr n i) \<and>
     (\<forall>c < length (requests s). result_ok s c) \<and> (\<forall>c \<ge> length (requests s). results s c = None)"

lemma bytes_at_append: "bytes_at m a (i + k) = bytes_at m a i @ bytes_at m (a + of_nat i) k"
  by (rule nth_equalityI) (auto simp: nth_append add.assoc simp flip: of_nat_add)

lemma prefix_bytes_at: "i \<le> n \<Longrightarrow> prefix (bytes_at m a i) (bytes_at m a n)"
  using bytes_at_append [of m a i "n - i"] by (auto simp: prefix_def)

text \<open>A step that leaves the writes alone.\<close>

lemma hist_inv_frame:
  assumes "hist_inv s" "requests s' = requests s" "stream s' = stream s" "results s' = results s"
    "\<And>k. calls s' k = calls s k \<or> (\<forall>c m addr n i. calls s k \<noteq> Writing c m addr n i \<and> calls s' k \<noteq> Writing c m addr n i)"
  shows "hist_inv s'"
proof -
  have c: "calls s' k = Writing c m addr n i \<longleftrightarrow> calls s k = Writing c m addr n i" for k c m addr n i
    using assms(5) [of k] by metis
  then show ?thesis
    using assms(1) unfolding hist_inv_def writer_ok_def result_ok_def written_def assms(2-4) c by blast
qed

lemma hist_inv_start:
  assumes "hist_inv s" "calls s cur = NoCall" "0 \<le> n"
  shows "hist_inv (start_write cur m addr n s)"
proof -
  let ?c = "length (requests s)" and ?s = "start_write cur m addr n s"
  have tags: "\<forall>x \<in> set (stream s). fst x < ?c" and out: "\<forall>c \<ge> ?c. results s c = None"
    using assms(1) by (simp_all add: hist_inv_def)
  from tags have new: "written s ?c = []" by (auto simp: written_def filter_empty_conv)
  have w: "written ?s = written s" by (simp add: fun_eq_iff written_def start_write_def)
  have old: "writer_ok s k c m' a' n' i'" if "calls s k = Writing c m' a' n' i'" for k c m' a' n' i'
    using assms(1) that by (simp add: hist_inv_def)
  have "writer_ok ?s k c m' a' n' i'" if "calls ?s k = Writing c m' a' n' i'" for k c m' a' n' i'
  proof (cases "k = cur")
    case True
    with that have "c = ?c" "m' = m" "a' = addr" "n' = n" "i' = 0" by (simp_all add: start_write_def)
    with True show ?thesis
      using assms(3) out new w old by (force simp: writer_ok_def start_write_def)
  next
    case False
    with that have s: "calls s k = Writing c m' a' n' i'" by (simp add: start_write_def)
    from old [OF s] False show ?thesis
      by (auto simp: writer_ok_def w) (auto simp: start_write_def nth_append split: if_splits)
  qed
  moreover have "result_ok ?s c" if "c < Suc ?c" for c
  proof (cases "c = ?c")
    case True
    then show ?thesis using out by (auto simp: result_ok_def start_write_def)
  next
    case False
    with that assms(1) have r: "c < ?c" "result_ok s c" by (simp_all add: hist_inv_def)
    then show ?thesis
      using assms(2) by (auto simp: result_ok_def w split: option.splits)
        (auto simp: start_write_def nth_append, metis fun_upd_apply pcall.distinct(1))
  qed
  ultimately show ?thesis using tags out unfolding hist_inv_def
    by (simp add: start_write_def less_Suc_eq)
qed

lemma hist_inv_write:
  assumes "hist_inv s" "pipe_ok (px s)" "calls s cur = Writing c m addr n i"
  shows "hist_inv (do_write pa cur c m addr n i t s)"
proof -
  obtain r p' t' where w: "pipewrite cur pa m addr n i (px s) t = (r, p', t')" by (metis prod_cases3)
  then obtain k where o: "write_outcome cur pa m addr n i (px s) t k r p' t'"
    using pipewrite_outcome [OF assms(2)] by blast
  define s' where "s' = do_write pa cur c m addr n i t s"
  have W: "writer_ok s cur c m addr n i" using assms(1,3) by (simp add: hist_inv_def)
  have new: "drop (fill (px s)) (contents p') = bytes_at m (addr + of_int i) k"
    using o by (simp add: write_outcome_def)
  have f: "requests s' = requests s" "stream s' = stream s @ map (Pair c) (bytes_at m (addr + of_int i) k)"
    "calls s' = (calls s)(cur := (case r of Ret _ \<Rightarrow> NoCall | Sleeps j \<Rightarrow> Writing c m addr n j))"
    "results s' = (case r of Ret v \<Rightarrow> (results s)(c \<mapsto> v) | Sleeps _ \<Rightarrow> results s)"
    unfolding s'_def do_write_def w by (simp_all add: new)
  have wr: "written s' c = bytes_at m addr (nat (i + int k))"
    using W bytes_at_append [of m addr "nat i" k]
    by (simp add: written_def f writer_ok_def nat_add_distrib comp_def filter_map)
  have wr': "written s' d = written s d" if "d \<noteq> c" for d
    using that by (simp add: written_def f comp_def filter_map)
  have le: "i + int k \<le> n" using o W by (auto simp: write_outcome_def writer_ok_def split: pres.splits)
  have old: "writer_ok s j d m' a' n' i'" if "calls s j = Writing d m' a' n' i'" for j d m' a' n' i'
    using assms(1) that by (simp add: hist_inv_def)
  have oth: "d \<noteq> c" if "calls s j = Writing d m' a' n' i'" "j \<noteq> cur" for j d m' a' n' i'
    using W that by (auto simp: writer_ok_def)
  have "writer_ok s' j d m' a' n' i'" if "calls s' j = Writing d m' a' n' i'" for j d m' a' n' i'
  proof (cases "j = cur")
    case True
    with that obtain "d = c" "m' = m" "a' = addr" "n' = n" "r = Sleeps i'" by (auto simp: f split: pres.splits)
    moreover from this o have "i' = i + int k" by (simp add: write_outcome_def)
    ultimately show ?thesis
      using W True le wr oth by (auto simp: writer_ok_def f)
  next
    case False
    with that have s: "calls s j = Writing d m' a' n' i'" by (simp add: f)
    then have "d \<noteq> c" using oth False by blast
    with old [OF s] False show ?thesis
      by (auto simp: writer_ok_def f wr' split: pres.splits if_splits)
  qed
  moreover have "result_ok s' d" if "d < length (requests s)" for d
  proof (cases "d = c")
    case True
    show ?thesis
    proof (cases r)
      case (Ret v)
      with o W have "v = n \<and> i + int k = n \<or> v = -1" by (auto simp: write_outcome_def writer_ok_def)
      with Ret True W wr le show ?thesis
        by (auto simp: result_ok_def f writer_ok_def intro: prefix_bytes_at)
    next
      case (Sleeps j)
      with True W have "results s' d = None" "calls s' cur = Writing d m addr n j" by (simp_all add: f writer_ok_def)
      then show ?thesis unfolding result_ok_def by simp blast
    qed
  next
    case False
    from that assms(1) have R: "result_ok s d" by (simp add: hist_inv_def)
    have "results s' d = results s d" using False by (simp add: f split: pres.split)
    moreover have "\<exists>j m a n i. calls s' j = Writing d m a n i" if "\<exists>j m a n i. calls s j = Writing d m a n i"
      using that assms(3) False unfolding f by (metis fun_upd_apply pcall.inject(1))
    ultimately show ?thesis
      using R wr' [OF False] by (auto simp: result_ok_def f(1) split: option.splits)
  qed
  moreover have "\<forall>d \<ge> length (requests s). results s' d = None"
    using assms(1) W by (auto simp: f hist_inv_def writer_ok_def split: pres.split)
  moreover have "\<forall>x \<in> set (stream s'). fst x < length (requests s)"
    using assms(1) W by (auto simp: f hist_inv_def writer_ok_def)
  ultimately show ?thesis unfolding s'_def [symmetric] hist_inv_def f(1) by blast
qed

lemma start_write_frame [simp]:
  "px (start_write cur m addr n s) = px s" "ptb (start_write cur m addr n s) = ptb s"
  "recvd (start_write cur m addr n s) = recvd s" "stream (start_write cur m addr n s) = stream s"
  "aborted (start_write cur m addr n s) = aborted s"
  by (simp_all add: start_write_def)

lemma hist_inv_read:
  assumes "hist_inv s" "\<And>c m addr n i. calls s cur \<noteq> Writing c m addr n i"
  shows "hist_inv (do_read pa cur m addr n t s)"
proof -
  obtain r m' p t' where r: "piperead cur pa m addr n (px s) t = (r, m', p, t')" by (metis prod_cases4)
  show ?thesis
    by (rule hist_inv_frame [OF assms(1)]) (simp_all add: do_read_def r assms(2) split: pres.split)
qed

lemma hist_inv_step:
  assumes "pipe_step pa s s'" "hist_inv s" "pipe_ok (px s)"
  shows "hist_inv s'"
  using assms
proof (induction rule: pipe_step.induct)
  case (wr cur s n m addr)
  then have "hist_inv (start_write cur m addr n s)" by (intro hist_inv_start)
  then show ?case by (rule hist_inv_write) (simp_all add: wr, simp add: start_write_def)
next
  case (wr_on cur s c m addr n i)
  then show ?case by (intro hist_inv_write)
next
  case (rd cur s m addr n)
  then show ?case by (intro hist_inv_read) simp_all
next
  case (rd_on cur s m addr n)
  then show ?case by (intro hist_inv_read) simp_all
next
  case (sched cur s j t)
  show ?case by (rule hist_inv_frame [OF sched(3)]) simp_all
next
  case (kill s i)
  show ?case by (rule hist_inv_frame [OF kill(1)]) simp_all
next
  case (close s w kend km p km' t)
  show ?case by (rule hist_inv_frame [OF close(3)]) simp_all
qed

lemma pipe_inv_step:
  assumes "pipe_step pa s s'" "pipe_inv pa s" "hist_inv s"
  shows "pipe_inv pa s'"
  using assms
proof (induction rule: pipe_step.induct)
  case (wr cur s n m addr)
  have "pipe_inv pa (start_write cur m addr n s)"
    using pipe_invD [OF wr(5)] pipe_invD(4) [OF wr(5), of cur] wr(2)
    by (intro pipe_invI) (auto simp: start_write_def is_reading_def split: if_splits)
  then show ?case using wr(1,4)
    by (intro pipe_inv_write) (auto simp: running_def is_reading_def start_write_def)
next
  case (wr_on cur s c m addr n i)
  then have "writer_ok s cur c m addr n i" by (simp add: hist_inv_def)
  with wr_on show ?case by (intro pipe_inv_write) (auto simp: running_def is_reading_def writer_ok_def)
next
  case (rd cur s m addr n)
  then show ?case by (intro pipe_inv_read) (auto simp: running_def)
next
  case (rd_on cur s m addr n)
  from pipe_invD(5) [OF rd_on(3), of cur] rd_on(2) have "readopen (px s)" by (auto simp: is_reading_def)
  with rd_on show ?case by (intro pipe_inv_read) (auto simp: running_def)
next
  case (sched cur s j t)
  then show ?case using pipe_invD [OF sched(3)]
    by (intro pipe_invI) (auto simp: scheduler_pick_def ptab_simps split: if_splits)
next
  case (kill s i)
  then show ?case using pipe_invD [OF kill(1)]
    by (intro pipe_invI) (auto simp: kill_def ptab_simps Let_def split: if_splits option.splits)
next
  case (close s w kend km p km' t)
  have nr: "\<not> is_reading (calls s k)" if "\<not> w" for k
    using close(1) [of k] that by (auto simp: is_reading_def split: pcall.splits)
  from close(2) have p: "p = (if w then (px s)\<lparr>writeopen := False\<rparr> else (px s)\<lparr>readopen := False\<rparr>)"
    "t = wakeup (if w then CPipeRead pa else CPipeWrite pa) (ptb s)"
    by (auto simp: pipeclose_def split: if_splits)
  have same: "fill p = fill (px s)" "contents p = contents (px s)" "pipe_ok p = pipe_ok (px s)"
    by (auto simp: p fill_def contents_def pipe_ok_def)
  show ?case using pipe_invD [OF close(3)] nr same
    by (intro pipe_invI) (auto simp: p wakeup_def ptab_simps split: if_splits)
qed

lemma pipe_inv_reachable: "pipe_reachable pa s \<Longrightarrow> pipe_inv pa s \<and> hist_inv s"
proof (induction rule: pipe_reachable.induct)
  case (init d t)
  then have "\<not> on_pipe pa (proc_at t k)" if "k < length (procs t)" for k using that by auto
  with init have "pipe_inv pa \<lparr>px = pipe_new d, ptb = t, calls = (\<lambda>_. NoCall), requests = [], stream = [],
      results = Map.empty, recvd = [], aborted = False\<rparr>"
    by (intro pipe_invI) (auto simp: pipe_new_def pipe_ok_def fill_def contents_def on_pipe_def is_reading_def)
  then show ?case by (simp add: hist_inv_def)
next
  case (step s s')
  then show ?case using pipe_inv_step [OF step(2)] hist_inv_step [OF step(2)] pipe_invD(1) by blast
qed

text \<open>C6: a pipe is a first-in first-out byte stream, with any number of readers and writers in
  any order, and also after the counters have wrapped.  The bytes that entered the buffer are
  the bytes read followed by the at most 512 bytes in it, and each belongs to a call of
  \<open>pipewrite\<close>.  The bytes that entered it for one call are, in order and once each, the first
  bytes of what the call was asked to write: all of them when it returned its count, the first
  \<open>i\<close> of them when it is under way at loop index \<open>i\<close>; the only other result is -1.\<close>

theorem pipe_fifo:
  assumes "pipe_reachable pa s"
  shows "map snd (stream s) = recvd s @ contents (px s) \<and> length (contents (px s)) \<le> 512 \<and>
    (\<forall>x \<in> set (stream s). fst x < length (requests s)) \<and>
    (\<forall>c < length (requests s). prefix (written s c) (requests s ! c) \<and>
       (case results s c of
          None \<Rightarrow> (\<exists>k m addr n. calls s k = Writing c m addr n (int (length (written s c))))
        | Some v \<Rightarrow> v = int (length (requests s ! c)) \<and> written s c = requests s ! c \<or> v = -1))"
proof -
  have I: "pipe_inv pa s" "hist_inv s" using pipe_inv_reachable [OF assms] by simp_all
  have W: "prefix (written s c) (requests s ! c) \<and> i = int (length (written s c))"
    if "calls s k = Writing c m addr n i" for k c m addr n i
    using I(2) that by (auto simp: hist_inv_def writer_ok_def intro!: prefix_bytes_at nat_mono)
  have "prefix (written s c) (requests s ! c) \<and>
       (case results s c of
          None \<Rightarrow> (\<exists>k m addr n. calls s k = Writing c m addr n (int (length (written s c))))
        | Some v \<Rightarrow> v = int (length (requests s ! c)) \<and> written s c = requests s ! c \<or> v = -1)"
    if "c < length (requests s)" for c
  proof -
    have "result_ok s c" using I(2) that by (simp add: hist_inv_def)
    with W [of _ c] show ?thesis unfolding result_ok_def by (cases "results s c") (fastforce, force)
  qed
  with I show ?thesis using pipe_invD(1,2) [OF I(1)] by (simp add: pipe_ok_def hist_inv_def)
qed

definition two_running :: ptable where
  "two_running = ptable0\<lparr>procs := [proc0\<lparr>state := RUNNING, pid := 1\<rparr>, proc0\<lparr>state := RUNNING, pid := 2\<rparr>]\<rparr>"

definition pipe_start :: pipesys where
  "pipe_start = \<lparr>px = pipe_new (replicate 512 0), ptb = two_running, calls = (\<lambda>_. NoCall),
     requests = [], stream = [], results = Map.empty, recvd = [], aborted = False\<rparr>"

lemma pipe_start_reachable: "pipe_reachable pa pipe_start"
  unfolding pipe_start_def by (rule pipe_reachable.init) (simp_all add: two_running_def on_pipe_def proc0_def)

text \<open>Process 1 writes two bytes.\<close>

definition two_written :: "uint \<Rightarrow> pipesys" where
  "two_written pa = do_write pa 1 0 (\<lambda>a. ucast a + 7) 0 2 0 two_running (start_write 1 (\<lambda>a. ucast a + 7) 0 2 pipe_start)"

lemma two_written_reachable: "pipe_reachable pa (two_written pa)"
proof -
  have "pipe_step pa pipe_start (do_write pa 1 (length (requests pipe_start)) (\<lambda>a. ucast a + 7) 0 2 0
      (ptb pipe_start) (start_write 1 (\<lambda>a. ucast a + 7) 0 2 pipe_start))"
    by (rule pipe_step.wr) (simp_all add: pipe_start_def two_running_def running_def pipe_new_def)
  then show ?thesis using pipe_reachable.step [OF pipe_start_reachable]
    by (simp add: pipe_start_def two_written_def)
qed

theorem pipe_fifo_witness:
  "results (two_written 0) 0 = Some 2 \<and> written (two_written 0) 0 = [7, 8] \<and> contents (px (two_written 0)) = [7, 8]"
proof -
  have e: "requests (two_written 0) = [[7, 8]]" "results (two_written 0) 0 = Some 2" "recvd (two_written 0) = []"
    by (simp_all add: two_written_def start_write_def do_write_def pipe_start_def pipe_new_def pipewrite.simps
        pipe_put_def PIPESIZE_def bytes_at_def upt_rec)
  have F: "map snd (stream (two_written 0)) = contents (px (two_written 0))"
    "\<forall>x \<in> set (stream (two_written 0)). fst x = 0" "written (two_written 0) 0 = [7, 8]"
    using pipe_fifo [OF two_written_reachable, of 0] e by simp_all
  then have "written (two_written 0) 0 = contents (px (two_written 0))"
    by (simp add: written_def)
  with F e show ?thesis by simp
qed

text \<open>C7: no process sleeps on a pipe without reason, with one exception: a process asleep in
  \<open>pipewrite\<close> sees a full buffer and an open read end, and a process asleep in \<open>piperead\<close> sees an
  empty buffer and an open write end unless, since the readers were last woken, a killed
  process has given up a write on a full buffer.\<close>

theorem pipe_no_lost_wakeup:
  assumes "pipe_reachable pa s" "k < length (procs (ptb s))" "state (proc_at (ptb s) k) = SLEEPING"
  shows "(chan (proc_at (ptb s) k) = Some (CPipeWrite pa) \<longrightarrow> length (contents (px s)) = 512 \<and> readopen (px s)) \<and>
    (chan (proc_at (ptb s) k) = Some (CPipeRead pa) \<longrightarrow> \<not> aborted s \<longrightarrow> contents (px s) = [] \<and> writeopen (px s))"
  using pipe_invD(3,4) [OF conjunct1 [OF pipe_inv_reachable [OF assms(1)]] assms(2,3)]
  by (metis length_contents length_0_conv)

definition reader_asleep :: "uint \<Rightarrow> pipesys" where
  "reader_asleep pa = do_read pa 0 (\<lambda>_. 0) 0 1 two_running pipe_start"

lemma reader_asleep_eq: "reader_asleep pa = pipe_start\<lparr>
    ptb := sleep_enter 0 (CPipeRead pa) two_running, calls := (\<lambda>_. NoCall)(0 := Reading (\<lambda>_. 0) 0 1)\<rparr>"
  by (simp add: reader_asleep_def do_read_def piperead_def pipe_start_def pipe_new_def two_running_def proc0_def)

lemma reader_asleep_reachable: "pipe_reachable pa (reader_asleep pa)"
proof -
  have "pipe_step pa pipe_start (do_read pa 0 (\<lambda>_. 0) 0 1 (ptb pipe_start) pipe_start)"
    by (rule pipe_step.rd) (simp_all add: pipe_start_def two_running_def running_def pipe_new_def)
  then show ?thesis using pipe_reachable.step [OF pipe_start_reachable]
    by (simp add: pipe_start_def reader_asleep_def)
qed

theorem pipe_no_lost_wakeup_witness:
  "state (proc_at (ptb (reader_asleep 0)) 0) = SLEEPING \<and> contents (px (reader_asleep 0)) = [] \<and>
   writeopen (px (reader_asleep 0))"
proof -
  have s: "0 < length (procs (ptb (reader_asleep 0)))" "state (proc_at (ptb (reader_asleep 0)) 0) = SLEEPING"
    "chan (proc_at (ptb (reader_asleep 0)) 0) = Some (CPipeRead 0)" "\<not> aborted (reader_asleep 0)"
    by (simp_all add: reader_asleep_eq sleep_enter_def two_running_def upd_proc_def pipe_start_def)
  with pipe_no_lost_wakeup [OF reader_asleep_reachable s(1,2)] show ?thesis by blast
qed

text \<open>C37: the exception: when a writer that has been killed finds the buffer full after it has put
  bytes in, \<open>pipewrite\<close> returns without waking the readers.  A state is reachable in which the
  buffer is full, both ends are open, no call is under way but that of a reader, and the
  reader is asleep.\<close>

theorem killed_writer_strands_reader:
  "\<exists>s. pipe_reachable pa s \<and> length (contents (px s)) = 512 \<and> readopen (px s) \<and> writeopen (px s) \<and>
     state (proc_at (ptb s) 0) = SLEEPING \<and> chan (proc_at (ptb s) 0) = Some (CPipeRead pa) \<and>
     calls s = (\<lambda>_. NoCall)(0 := Reading (\<lambda>_. 0) 0 1)"
proof -
  define s1 where "s1 = reader_asleep pa"
  define s2 where "s2 = s1\<lparr>ptb := snd (kill 2 (ptb s1))\<rparr>"
  define s3 where "s3 = do_write pa 1 0 (\<lambda>_. 7) 0 600 0 (ptb s2) (start_write 1 (\<lambda>_. 7) 0 600 s2)"
  have t: "ptb s2 = two_running\<lparr>procs := [proc0\<lparr>state := SLEEPING, pid := 1, chan := Some (CPipeRead pa)\<rparr>,
      proc0\<lparr>state := RUNNING, pid := 2, killed := True\<rparr>]\<rparr>"
    by (simp add: s2_def s1_def reader_asleep_eq sleep_enter_def two_running_def kill_def upd_proc_def)
  have e: "requests s2 = []" "px s2 = pipe_new (replicate 512 0)" "calls s2 = (\<lambda>_. NoCall)(0 := Reading (\<lambda>_. 0) 0 1)"
    by (simp_all add: s2_def s1_def reader_asleep_eq pipe_start_def)
  have "pipe_reachable pa s2" unfolding s2_def s1_def
    by (rule pipe_reachable.step [OF reader_asleep_reachable pipe_step.kill])
  moreover have "pipe_step pa s2 s3" unfolding s3_def
    using pipe_step.wr [of 1 s2 600 pa "\<lambda>_. 7" 0] by (simp add: running_def t e pipe_new_def)
  ultimately have r: "pipe_reachable pa s3" by (rule pipe_reachable.step)
  obtain v p' t' where w: "pipewrite 1 pa (\<lambda>_. 7) 0 600 0 (px s2) (ptb s2) = (v, p', t')" by (metis prod_cases3)
  have "pipe_ok (px s2)" by (simp add: e pipe_new_def pipe_ok_def fill_def)
  with w obtain k where o: "write_outcome 1 pa (\<lambda>_. 7) 0 600 0 (px s2) (ptb s2) k v p' t'"
    using pipewrite_outcome by blast
  have "fill (px s2) = 0" by (simp add: e pipe_new_def fill_def)
  with o have "v = Ret (-1) \<and> fill p' = 512 \<and> t' = ptb s2 \<and> readopen p' \<and> writeopen p'"
    by (auto simp: write_outcome_def t pipe_ok_def e pipe_new_def split: pres.splits)
  moreover from this have "px s3 = p'" "ptb s3 = ptb s2" "calls s3 = calls s2"
    unfolding s3_def do_write_def using w by (auto simp: e start_write_def)
  ultimately show ?thesis using r by (intro exI [of _ s3]) (simp add: e t)
qed

end
