(* ===== verification/Xv6_Bio.thy ===== *)
theory Xv6_Bio
  imports Xv6_Sched
begin

text \<open>
  The buffer cache (Xv6-Syscall/src/bio.c) on the memory disk (memide.c).  A buffer pointer
  is its index in \<open>bcache.buf\<close>; \<open>bhead\<close> is the list head.  The \<open>prev\<close> and \<open>next\<close> pointers are
  kept as the code keeps them, and the list is walked through them.

  The routines are given as one process runs them: a buffer whose sleep lock is taken by
  another process makes them block.  The state also has the trace of the disk writes, in
  the order in which they reach the disk, which the crash theorems of the log use.

  First part: the routines.  Second part: the doubly linked list as a list of indices,
  most recently used first.  Third part: the invariant of the cache and what \<open>bread\<close>,
  \<open>bwrite\<close> and \<open>brelse\<close> do to the contents of the blocks.
\<close>

section \<open>Data\<close>

definition BSIZE :: nat where "BSIZE = 512"
definition MAXOPBLOCKS :: int where "MAXOPBLOCKS = 10"
definition NBUF :: nat where "NBUF = 30"
definition B_VALID :: uint where "B_VALID = 2"
definition B_DIRTY :: uint where "B_DIRTY = 4"

record buf =
  bflags :: uint
  bdev :: uint
  bblockno :: uint
  block :: sleeplock
  brefcnt :: uint
  bprev :: nat
  bnext :: nat
  bqnext :: "nat option"
  bdata :: "uchar list"

text \<open>The process table and the running process come along because releasing a sleep lock
  wakes processes.\<close>

record bio =
  pt :: ptable
  cur :: nat
  bufs :: "buf list"
  disk :: "uchar list list"
  writes :: "(nat \<times> uchar list) list"

definition bhead :: nat where "bhead = NBUF"

definition me :: "'b bio_scheme \<Rightarrow> int" where
  "me s = pid (proc_at (pt s) (cur s))"

definition upd_buf :: "nat \<Rightarrow> (buf \<Rightarrow> buf) \<Rightarrow> 'b bio_scheme \<Rightarrow> 'b bio_scheme" where
  "upd_buf b f s = s\<lparr>bufs := (bufs s)[b := f (bufs s ! b)]\<rparr>"

abbreviation buf_at :: "'b bio_scheme \<Rightarrow> nat \<Rightarrow> buf" where
  "buf_at s b \<equiv> bufs s ! b"

section \<open>The memory disk\<close>

text \<open>memide.c: the disk is the list of its blocks, \<open>disksize\<close> its length.\<close>

definition iderw :: "nat \<Rightarrow> 'b bio_scheme \<Rightarrow> 'b bio_scheme res" where
  "iderw b s =
     (if \<not> holdingsleep (me s) (block (buf_at s b)) then panic ''iderw: buf not locked''
      else if bflags (buf_at s b) AND (B_VALID OR B_DIRTY) = B_VALID then panic ''iderw: nothing to do''
      else if bdev (buf_at s b) \<noteq> 1 then panic ''iderw: request not for disk 1''
      else if unat (bblockno (buf_at s b)) \<ge> length (disk s) then panic ''iderw: block out of range''
      else let n = unat (bblockno (buf_at s b));
             s = (if bflags (buf_at s b) AND B_DIRTY \<noteq> 0 then
                    let s = upd_buf b (\<lambda>x. x\<lparr>bflags := bflags x AND NOT B_DIRTY\<rparr>) s in
                    s\<lparr>disk := (disk s)[n := bdata (buf_at s b)],
                      writes := writes s @ [(n, bdata (buf_at s b))]\<rparr>
                  else upd_buf b (\<lambda>x. x\<lparr>bdata := disk s ! n\<rparr>) s)
           in Inr (upd_buf b (\<lambda>x. x\<lparr>bflags := bflags x OR B_VALID\<rparr>) s))"

section \<open>The buffer cache\<close>

text \<open>The list surgery of \<open>binit\<close> and \<open>brelse\<close>: put \<open>b\<close> right after the head; take \<open>b\<close> out.\<close>

definition link_front :: "nat \<Rightarrow> buf list \<Rightarrow> buf list" where
  "link_front b bs =
     (let bs = bs[b := (bs ! b)\<lparr>bnext := bnext (bs ! bhead), bprev := bhead\<rparr>];
          h = bnext (bs ! bhead);
          bs = bs[h := (bs ! h)\<lparr>bprev := b\<rparr>]
      in bs[bhead := (bs ! bhead)\<lparr>bnext := b\<rparr>])"

definition unlink :: "nat \<Rightarrow> buf list \<Rightarrow> buf list" where
  "unlink b bs =
     (let n = bnext (bs ! b);
          bs = bs[n := (bs ! n)\<lparr>bprev := bprev (bs ! b)\<rparr>];
          p = bprev (bs ! b)
      in bs[p := (bs ! p)\<lparr>bnext := bnext (bs ! b)\<rparr>])"

definition binit1 :: "nat \<Rightarrow> buf list \<Rightarrow> buf list" where
  "binit1 b bs = link_front b (bs[b := (bs ! b)\<lparr>block := initsleeplock (block (bs ! b))\<rparr>])"

definition binit :: "'b bio_scheme \<Rightarrow> 'b bio_scheme" where
  "binit s =
     (let bs = (bufs s)[bhead := (buf_at s bhead)\<lparr>bprev := bhead, bnext := bhead\<rparr>]
      in s\<lparr>bufs := fold binit1 [0..<NBUF] bs\<rparr>)"

text \<open>A walk over the list along \<open>bnext\<close> or \<open>bprev\<close> to the first buffer with a property.  The
  list has \<open>NBUF\<close> buffers, so \<open>NBUF\<close> steps are enough; a list that does not come back to the
  head in that many steps is not the list the code builds.\<close>

fun bscan :: "nat \<Rightarrow> (buf \<Rightarrow> nat) \<Rightarrow> (buf \<Rightarrow> bool) \<Rightarrow> buf list \<Rightarrow> nat \<Rightarrow> nat option res" where
  "bscan fuel step P bs b =
     (if b = bhead then Inr None
      else if P (bs ! b) then Inr (Some b)
      else case fuel of 0 \<Rightarrow> Inl (Undef ''bcache list'')
        | Suc fuel \<Rightarrow> bscan fuel step P bs (step (bs ! b)))"

declare bscan.simps [simp del]

definition block_buf :: "nat \<Rightarrow> 'b bio_scheme \<Rightarrow> (nat \<times> 'b bio_scheme) res" where
  "block_buf b s = bindE (acquiresleep (me s) (block (buf_at s b)))
     (\<lambda>lk. Inr (b, upd_buf b (\<lambda>x. x\<lparr>block := lk\<rparr>) s))"

definition bget :: "uint \<Rightarrow> uint \<Rightarrow> 'b bio_scheme \<Rightarrow> (nat \<times> 'b bio_scheme) res" where
  "bget dev blockno s =
     bindE (bscan NBUF bnext (\<lambda>x. bdev x = dev \<and> bblockno x = blockno) (bufs s) (bnext (buf_at s bhead)))
       (\<lambda>r. case r of
          Some b \<Rightarrow> block_buf b (upd_buf b (\<lambda>x. x\<lparr>brefcnt := brefcnt x + 1\<rparr>) s)
        | None \<Rightarrow>
            bindE (bscan NBUF bprev (\<lambda>x. brefcnt x = 0 \<and> bflags x AND B_DIRTY = 0) (bufs s) (bprev (buf_at s bhead)))
              (\<lambda>r. case r of
                 Some b \<Rightarrow> block_buf b (upd_buf b (\<lambda>x. x\<lparr>bdev := dev, bblockno := blockno,
                              bflags := 0, brefcnt := 1\<rparr>) s)
               | None \<Rightarrow> panic ''bget: no buffers''))"

definition bread :: "uint \<Rightarrow> uint \<Rightarrow> 'b bio_scheme \<Rightarrow> (nat \<times> 'b bio_scheme) res" where
  "bread dev blockno s =
     bindE (bget dev blockno s) (\<lambda>(b, s).
       if bflags (buf_at s b) AND B_VALID = 0 then bindE (iderw b s) (\<lambda>s. Inr (b, s))
       else Inr (b, s))"

definition bwrite :: "nat \<Rightarrow> 'b bio_scheme \<Rightarrow> 'b bio_scheme res" where
  "bwrite b s =
     (if \<not> holdingsleep (me s) (block (buf_at s b)) then panic ''bwrite''
      else iderw b (upd_buf b (\<lambda>x. x\<lparr>bflags := bflags x OR B_DIRTY\<rparr>) s))"

definition brelse :: "nat \<Rightarrow> 'b bio_scheme \<Rightarrow> 'b bio_scheme res" where
  "brelse b s =
     (if \<not> holdingsleep (me s) (block (buf_at s b)) then panic ''brelse''
      else let (lk, t) = releasesleep b (block (buf_at s b)) (pt s);
             s = upd_buf b (\<lambda>x. x\<lparr>block := lk, brefcnt := brefcnt x - 1\<rparr>) (s\<lparr>pt := t\<rparr>)
           in Inr (if brefcnt (buf_at s b) = 0 then s\<lparr>bufs := link_front b (unlink b (bufs s))\<rparr> else s))"

section \<open>The doubly linked list\<close>

text \<open>\<open>path g a xs z\<close>: following \<open>g\<close> from \<open>a\<close> meets the nodes \<open>xs\<close> and then \<open>z\<close>.\<close>

fun path :: "(nat \<Rightarrow> nat) \<Rightarrow> nat \<Rightarrow> nat list \<Rightarrow> nat \<Rightarrow> bool" where
  "path g a [] z \<longleftrightarrow> g a = z"
| "path g a (x # xs) z \<longleftrightarrow> g a = x \<and> path g x xs z"

lemma path_append: "path g a (xs @ y # ys) z \<longleftrightarrow> path g a xs y \<and> path g y ys z"
  by (induction xs arbitrary: a) auto

lemma path_cong: "(\<And>k. k \<in> set (a # xs) \<Longrightarrow> g k = h k) \<Longrightarrow> path g a xs z \<longleftrightarrow> path h a xs z"
  by (induction xs arbitrary: a) auto

lemma path_fun_upd: "k \<notin> set (a # xs) \<Longrightarrow> path (g(k := v)) a xs z \<longleftrightarrow> path g a xs z"
  by (rule path_cong) auto

lemma path_redirect:
  "path g a xs y \<Longrightarrow> distinct (a # xs) \<Longrightarrow> path (g(last (a # xs) := z)) a xs z"
proof (induction xs arbitrary: a)
  case (Cons x xs)
  have "path (g(last (x # xs) := z)) x xs z" by (rule Cons.IH) (use Cons.prems in auto)
  moreover have "last (x # xs) \<noteq> a" using Cons.prems(2) by (metis distinct.simps(2) last_in_set list.distinct(1))
  moreover have "last (a # x # xs) = last (x # xs)" by simp
  ultimately show ?case using Cons.prems(1) by (simp add: fun_upd_def del: last.simps)
qed simp

lemma path_step: "path g a xs z \<Longrightarrow> g a = hd (xs @ [z])"
  by (cases xs) auto

lemma path_last: "path g a xs z \<Longrightarrow> g (last (a # xs)) = z"
  by (induction xs arbitrary: a) auto

lemma path_unlink:
  assumes "path g h (xs @ b # ys) h" "distinct (h # xs @ b # ys)"
  shows "path (g(last (h # xs) := g b)) h (xs @ ys) h"
proof -
  have p: "path g h xs b" "path g b ys h" using assms(1) by (simp_all add: path_append)
  have r: "path (g(last (h # xs) := z)) h xs z" for z using path_redirect [OF p(1)] assms(2) by simp
  have l: "last (h # xs) \<in> set (h # xs)" by (rule last_in_set) simp
  show ?thesis
  proof (cases ys)
    case Nil
    with p(2) r show ?thesis by simp
  next
    case (Cons y zs)
    then have gb: "g b = y" "path g y zs h" using p(2) by auto
    moreover have "path (g(last (h # xs) := y)) y zs h"
      using gb(2) l assms(2) Cons by (subst path_fun_upd) auto
    ultimately show ?thesis using r [of y] Cons by (simp add: path_append)
  qed
qed

lemma path_link:
  assumes "path g h xs z" "distinct (h # b # xs)"
  shows "path (g(b := g h, h := b)) h (b # xs) z"
proof -
  have "path (g(b := g h, h := b)) b xs z"
  proof (cases xs)
    case Nil then show ?thesis using assms by auto
  next
    case (Cons x ys)
    then have "path g x ys z" "g h = x" using assms(1) by auto
    with assms(2) Cons show ?thesis by (simp add: path_fun_upd)
  qed
  with assms(2) show ?thesis by simp
qed

lemma path_link_last:
  assumes "path g h xs h" "distinct (h # b # xs)"
  shows "path (g(b := h, last (h # xs) := b)) h (xs @ [b]) h"
proof -
  have l: "last (h # xs) \<in> set (h # xs)" by (rule last_in_set) simp
  then have "last (h # xs) \<noteq> b" using assms(2) by auto
  then have "g(b := h, last (h # xs) := b) = (g(last (h # xs) := b))(b := h)" by (rule fun_upd_twist [symmetric])
  moreover have "path (g(last (h # xs) := b)) h xs b" using path_redirect [OF assms(1)] assms(2) by simp
  ultimately show ?thesis using assms(2) by (simp add: path_append path_fun_upd)
qed

text \<open>The list of the cache: the indices from the most to the least recently used.\<close>

definition nx :: "buf list \<Rightarrow> nat \<Rightarrow> nat" where "nx bs k = bnext (bs ! k)"
definition pv :: "buf list \<Rightarrow> nat \<Rightarrow> nat" where "pv bs k = bprev (bs ! k)"

definition ring :: "buf list \<Rightarrow> nat list \<Rightarrow> bool" where
  "ring bs ls \<longleftrightarrow> length bs = Suc NBUF \<and> set ls \<subseteq> {..<NBUF} \<and> distinct ls \<and>
     path (nx bs) bhead ls bhead \<and> path (pv bs) bhead (rev ls) bhead"

lemma ring_bounds:
  assumes "ring bs ls"
  shows "length bs = Suc NBUF" "distinct (bhead # ls)" "k \<in> set (bhead # ls) \<Longrightarrow> k < length bs"
  using assms by (auto simp: ring_def bhead_def)

lemma unlink_nx:
  assumes "ring bs (xs @ b # ys)"
  shows "k < length bs \<Longrightarrow> nx (unlink b bs) k = ((nx bs)(last (bhead # xs) := nx bs b)) k"
    and "k < length bs \<Longrightarrow> pv (unlink b bs) k = ((pv bs)(last (bhead # rev ys) := pv bs b)) k"
    and "length (unlink b bs) = length bs"
proof -
  note d = ring_bounds [OF assms]
  have p: "pv bs b = last (bhead # xs)" "nx bs b = last (bhead # rev ys)"
  proof -
    have "path (pv bs) b (rev xs) bhead" "path (nx bs) b ys bhead"
      using assms by (simp_all add: ring_def path_append)
    then show "pv bs b = last (bhead # xs)" "nx bs b = last (bhead # rev ys)"
      using path_step by (fastforce simp: hd_append hd_rev last_rev)+
  qed
  have m: "pv bs b \<in> set (bhead # xs)" "nx bs b \<in> set (bhead # rev ys)" unfolding p by (rule last_in_set, simp)+
  then have ne: "pv bs b \<noteq> b" "nx bs b \<noteq> b" using d(2) by auto
  have r: "pv bs b < length bs" "nx bs b < length bs" using m d(3) by auto
  show "nx (unlink b bs) k = ((nx bs)(last (bhead # xs) := nx bs b)) k" if "k < length bs"
    using that ne r p(1) [symmetric] by (auto simp: unlink_def nx_def pv_def nth_list_update Let_def)
  show "pv (unlink b bs) k = ((pv bs)(last (bhead # rev ys) := pv bs b)) k" if "k < length bs"
    using that ne r p(2) [symmetric] by (auto simp: unlink_def nx_def pv_def nth_list_update Let_def)
  show "length (unlink b bs) = length bs" by (simp add: unlink_def Let_def)
qed

lemma ring_unlink:
  assumes "ring bs (xs @ b # ys)"
  shows "ring (unlink b bs) (xs @ ys)"
proof -
  note d = ring_bounds [OF assms] and u = unlink_nx [OF assms]
  have b: "\<And>k. k \<in> set (bhead # xs @ ys) \<Longrightarrow> k < length bs" using d(3) by auto
  have "path ((nx bs)(last (bhead # xs) := nx bs b)) bhead (xs @ ys) bhead"
    using assms d(2) by (intro path_unlink) (simp_all add: ring_def)
  then have "path (nx (unlink b bs)) bhead (xs @ ys) bhead"
    using u(1) b by (subst path_cong [where h = "(nx bs)(last (bhead # xs) := nx bs b)"]) blast+
  moreover have "path ((pv bs)(last (bhead # rev ys) := pv bs b)) bhead (rev ys @ rev xs) bhead"
    using assms d(2) by (intro path_unlink) (auto simp: ring_def)
  then have "path (pv (unlink b bs)) bhead (rev ys @ rev xs) bhead"
    using u(2) b by (subst path_cong [where h = "(pv bs)(last (bhead # rev ys) := pv bs b)"]) auto
  ultimately show ?thesis using assms u(3) by (auto simp: ring_def)
qed

lemma ring_link_front:
  assumes "ring bs ls" "b < NBUF" "b \<notin> set ls"
  shows "ring (link_front b bs) (b # ls)"
proof -
  note d = ring_bounds [OF assms(1)]
  have h: "nx bs bhead = last (bhead # rev ls)"
  proof -
    have "path (nx bs) bhead ls bhead" using assms by (simp add: ring_def)
    then show ?thesis using path_step by (fastforce simp: hd_append hd_rev last_rev)
  qed
  have "nx bs bhead \<in> set (bhead # rev ls)" unfolding h by (rule last_in_set) simp
  then have r: "nx bs bhead < length bs" "nx bs bhead \<noteq> b" using d(3) assms by (auto simp: bhead_def)
  have nb: "b \<noteq> bhead" "b < length bs" "bhead < length bs" using assms(2) d(1) by (auto simp: bhead_def)
  have n: "nx (link_front b bs) k = ((nx bs)(b := nx bs bhead, bhead := b)) k" if "k < length bs" for k
    using that r nb by (auto simp: link_front_def nx_def nth_list_update Let_def)
  have p: "pv (link_front b bs) k = ((pv bs)(b := bhead, last (bhead # rev ls) := b)) k" if "k < length bs" for k
    using that r nb unfolding h [symmetric] by (auto simp: link_front_def pv_def nx_def nth_list_update Let_def)
  have dd: "distinct (bhead # b # ls)" using d(2) assms(3) nb by auto
  have "path ((nx bs)(b := nx bs bhead, bhead := b)) bhead (b # ls) bhead"
    using assms(1) dd by (intro path_link) (simp_all add: ring_def)
  then have "path (nx (link_front b bs)) bhead (b # ls) bhead"
    using n d(3) nb by (subst path_cong [where h = "(nx bs)(b := nx bs bhead, bhead := b)"]) auto
  moreover have "path ((pv bs)(b := bhead, last (bhead # rev ls) := b)) bhead (rev ls @ [b]) bhead"
    using assms(1) dd by (intro path_link_last) (auto simp: ring_def)
  then have "path (pv (link_front b bs)) bhead (rev ls @ [b]) bhead"
    using p d(3) nb by (subst path_cong [where h = "(pv bs)(b := bhead, last (bhead # rev ls) := b)"]) auto
  ultimately show ?thesis using assms by (auto simp: ring_def link_front_def Let_def)
qed

lemma bscan_path:
  assumes "path (\<lambda>k. step (bs ! k)) a xs bhead" "bhead \<notin> set xs" "length xs \<le> fuel"
  shows "bscan fuel step P bs (step (bs ! a)) = Inr (find (\<lambda>k. P (bs ! k)) xs)"
  using assms
proof (induction xs arbitrary: a fuel)
  case Nil
  then show ?case by (simp add: bscan.simps)
next
  case (Cons x xs)
  then obtain f where f: "fuel = Suc f" by (cases fuel) auto
  with Cons show ?case by (auto simp: bscan.simps [of "Suc f"])
qed

section \<open>The cache invariant\<close>

definition valid :: "buf \<Rightarrow> bool" where "valid x \<longleftrightarrow> bflags x AND B_VALID \<noteq> 0"
definition dirty :: "buf \<Rightarrow> bool" where "dirty x \<longleftrightarrow> bflags x AND B_DIRTY \<noteq> 0"

text \<open>The buffer is locked by the process with the given pid; nobody uses it; it caches block \<open>n\<close>.\<close>

definition held :: "int \<Rightarrow> buf \<Rightarrow> bool" where
  "held i x \<longleftrightarrow> brefcnt x = 1 \<and> block x = \<lparr>sl_locked = True, sl_pid = i\<rparr>"

definition unused :: "buf \<Rightarrow> bool" where
  "unused x \<longleftrightarrow> brefcnt x = 0 \<and> \<not> sl_locked (block x)"

definition for_block :: "nat \<Rightarrow> buf \<Rightarrow> bool" where
  "for_block n x \<longleftrightarrow> bdev x = 1 \<and> unat (bblockno x) = n"

definition buf_ok :: "int \<Rightarrow> uchar list list \<Rightarrow> buf \<Rightarrow> bool" where
  "buf_ok i d x \<longleftrightarrow> length (bdata x) = BSIZE \<and> (held i x \<or> unused x) \<and>
     (dirty x \<longrightarrow> valid x \<and> bdev x = 1) \<and> (held i x \<longrightarrow> valid x \<and> bdev x = 1) \<and>
     (valid x \<and> bdev x = 1 \<longrightarrow> unat (bblockno x) < length d) \<and>
     (valid x \<and> bdev x = 1 \<and> \<not> dirty x \<and> \<not> held i x \<longrightarrow> bdata x = d ! unat (bblockno x))"

definition bio_ok :: "'b bio_scheme \<Rightarrow> bool" where
  "bio_ok s \<longleftrightarrow> (\<exists>ls. ring (bufs s) ls \<and> set ls = {..<NBUF}) \<and>
     (\<forall>b < NBUF. buf_ok (me s) (disk s) (buf_at s b)) \<and>
     (\<forall>b < NBUF. \<forall>c < NBUF. \<forall>n. for_block n (buf_at s b) \<longrightarrow> for_block n (buf_at s c) \<longrightarrow> b = c) \<and>
     (\<forall>d \<in> set (disk s). length d = BSIZE) \<and> cur s < length (procs (pt s))"

lemma bio_okD:
  assumes "bio_ok s"
  shows "\<exists>ls. ring (bufs s) ls \<and> set ls = {..<NBUF}"
    "b < NBUF \<Longrightarrow> buf_ok (me s) (disk s) (buf_at s b)"
    "b < NBUF \<Longrightarrow> c < NBUF \<Longrightarrow> for_block n (buf_at s b) \<Longrightarrow> for_block n (buf_at s c) \<Longrightarrow> b = c"
    "d \<in> set (disk s) \<Longrightarrow> length d = BSIZE" "cur s < length (procs (pt s))" "length (bufs s) = Suc NBUF"
  using assms unfolding bio_ok_def ring_def by blast+

lemma bio_okI:
  assumes "ring (bufs s) ls" "set ls = {..<NBUF}"
    "\<And>b. b < NBUF \<Longrightarrow> buf_ok (me s) (disk s) (buf_at s b)"
    "\<And>b c n. b < NBUF \<Longrightarrow> c < NBUF \<Longrightarrow> for_block n (buf_at s b) \<Longrightarrow> for_block n (buf_at s c) \<Longrightarrow> b = c"
    "\<And>d. d \<in> set (disk s) \<Longrightarrow> length d = BSIZE" "cur s < length (procs (pt s))"
  shows "bio_ok s"
  using assms unfolding bio_ok_def by blast

text \<open>What the cache stands for: the contents of a block, the blocks whose change is not on the
  disk yet, and the blocks the process has locked, with their buffers.\<close>

definition cont :: "'b bio_scheme \<Rightarrow> nat \<Rightarrow> uchar list" where
  "cont s n = (case find (\<lambda>b. for_block n (buf_at s b) \<and> valid (buf_at s b)) [0..<NBUF] of
     Some b \<Rightarrow> bdata (buf_at s b) | None \<Rightarrow> disk s ! n)"

definition pinned :: "'b bio_scheme \<Rightarrow> nat set" where
  "pinned s = {n. \<exists>b < NBUF. for_block n (buf_at s b) \<and> dirty (buf_at s b)}"

definition hb :: "'b bio_scheme \<Rightarrow> nat \<Rightarrow> nat option" where
  "hb s n = find (\<lambda>b. for_block n (buf_at s b) \<and> held (me s) (buf_at s b)) [0..<NBUF]"

lemma find_upt_Some: "find P [0..<n] = Some b \<Longrightarrow> b < n \<and> P b"
  by (auto simp: find_Some_iff)

lemma find_upt_None: "find P [0..<n] = None \<longleftrightarrow> (\<forall>b < n. \<not> P b)"
  by (auto simp: find_None_iff)

lemma find_upt_unique:
  assumes "b < n" "P b" "\<And>c. c < n \<Longrightarrow> P c \<Longrightarrow> c = b"
  shows "find P [0..<n] = Some b"
proof (cases "find P [0..<n]")
  case None
  with assms(1,2) find_upt_None [of P n] show ?thesis by blast
next
  case (Some c)
  with find_upt_Some [OF Some] assms(3) show ?thesis by simp
qed

lemma cont_cached:
  assumes "bio_ok s" "b < NBUF" "for_block n (buf_at s b)" "valid (buf_at s b)"
  shows "cont s n = bdata (buf_at s b)"
proof -
  have "find (\<lambda>b. for_block n (buf_at s b) \<and> valid (buf_at s b)) [0..<NBUF] = Some b"
    by (rule find_upt_unique) (use assms in \<open>auto intro: bio_okD(3)\<close>)
  then show ?thesis by (simp add: cont_def)
qed

lemma cont_uncached:
  "(\<And>b. b < NBUF \<Longrightarrow> for_block n (buf_at s b) \<Longrightarrow> \<not> valid (buf_at s b)) \<Longrightarrow> cont s n = disk s ! n"
  using find_upt_None [of "\<lambda>b. for_block n (buf_at s b) \<and> valid (buf_at s b)" NBUF] by (auto simp: cont_def split: option.splits)

lemma hb_eq:
  assumes "bio_ok s"
  shows "hb s n = Some b \<longleftrightarrow> b < NBUF \<and> for_block n (buf_at s b) \<and> held (me s) (buf_at s b)"
proof
  assume "hb s n = Some b"
  then show "b < NBUF \<and> for_block n (buf_at s b) \<and> held (me s) (buf_at s b)"
    unfolding hb_def by (rule find_upt_Some)
next
  assume "b < NBUF \<and> for_block n (buf_at s b) \<and> held (me s) (buf_at s b)"
  then show "hb s n = Some b" unfolding hb_def
    by (intro find_upt_unique) (use assms in \<open>auto intro: bio_okD(3)\<close>)
qed

lemma hb_None: "hb s n = None \<longleftrightarrow> (\<forall>b < NBUF. for_block n (buf_at s b) \<longrightarrow> \<not> held (me s) (buf_at s b))"
  by (auto simp: hb_def find_upt_None)

text \<open>Exchanging the contents of one buffer.\<close>

lemma ring_upd:
  assumes "ring bs ls" "b < length bs" "bnext x = bnext (bs ! b)" "bprev x = bprev (bs ! b)"
  shows "ring (bs[b := x]) ls"
proof -
  have "nx (bs[b := x]) = nx bs" "pv (bs[b := x]) = pv bs"
    using assms(2-) by (auto simp: nx_def pv_def nth_list_update fun_eq_iff)
  with assms(1) show ?thesis by (simp add: ring_def)
qed

lemma me_upd [simp]: "me (s\<lparr>bufs := bs\<rparr>) = me s" "me (s\<lparr>disk := d\<rparr>) = me s" "me (s\<lparr>writes := w\<rparr>) = me s"
  by (simp_all add: me_def)

lemma bio_ok_upd:
  assumes "bio_ok s" "b < NBUF" "bnext x = bnext (buf_at s b)" "bprev x = bprev (buf_at s b)"
    "buf_ok (me s) (disk s) x" "\<And>n c. c < NBUF \<Longrightarrow> c \<noteq> b \<Longrightarrow> for_block n x \<Longrightarrow> \<not> for_block n (buf_at s c)"
  shows "bio_ok (s\<lparr>bufs := (bufs s)[b := x]\<rparr>)"
proof -
  note I = bio_okD [OF assms(1)]
  obtain ls where ls: "ring (bufs s) ls" "set ls = {..<NBUF}" using I(1) by blast
  have at: "(bufs s)[b := x] ! c = (if c = b then x else buf_at s c)" if "c < NBUF" for c
    using that I(6) assms(2) by (simp add: nth_list_update)
  let ?s = "s\<lparr>bufs := (bufs s)[b := x]\<rparr>"
  have at': "buf_at ?s c = (if c = b then x else buf_at s c)" if "c < NBUF" for c using at [OF that] by simp
  show ?thesis
  proof (rule bio_okI [where ls = ls])
    show "ring (bufs ?s) ls" using ring_upd [OF ls(1) _ assms(3,4)] I(6) assms(2) by simp
    show "buf_ok (me ?s) (disk ?s) (buf_at ?s c)" if "c < NBUF" for c
      using that I(2) assms(5) unfolding at' [OF that] by simp
    show "c = d" if "c < NBUF" "d < NBUF" "for_block n (buf_at ?s c)" "for_block n (buf_at ?s d)" for c d n
      using that(3,4) assms(6) [of c n] assms(6) [of d n] I(3) [OF that(1,2), of n] that(1,2) unfolding at' [OF that(1)] at' [OF that(2)]
      by (auto split: if_splits)
  qed (use ls I in auto)
qed

lemma buf_at_upd:
  assumes "bio_ok s" "b < NBUF"
  shows "buf_at (s\<lparr>bufs := (bufs s)[b := x]\<rparr>) c = (if c = b then x else buf_at s c)"
  using bio_okD(6) [OF assms(1)] assms(2) by (simp add: nth_list_update)

lemma view_upd:
  assumes "bio_ok s" "b < NBUF" "bio_ok (s\<lparr>bufs := (bufs s)[b := x]\<rparr>)"
  shows "cont (s\<lparr>bufs := (bufs s)[b := x]\<rparr>) n =
      (if for_block n x \<and> valid x then bdata x else if for_block n (buf_at s b) then disk s ! n else cont s n)"
    and "n \<in> pinned (s\<lparr>bufs := (bufs s)[b := x]\<rparr>) \<longleftrightarrow>
      for_block n x \<and> dirty x \<or> n \<in> pinned s \<and> \<not> for_block n (buf_at s b)"
    and "hb (s\<lparr>bufs := (bufs s)[b := x]\<rparr>) n =
      (if for_block n x \<and> held (me s) x then Some b else if for_block n (buf_at s b) then None else hb s n)"
proof -
  let ?s = "s\<lparr>bufs := (bufs s)[b := x]\<rparr>"
  note at = buf_at_upd [OF assms(1,2), of x]
  note u = bio_okD(3) [OF assms(1), of b] and u' = bio_okD(3) [OF assms(3), of b, unfolded at, OF assms(2)]
  have nofor: "\<not> for_block n (buf_at s c)" if "for_block n x \<or> for_block n (buf_at s b)" "c \<noteq> b" "c < NBUF" for c
    using that u [OF assms(2) that(3), of n] u' [OF that(3), of n] by auto
  show "cont ?s n = (if for_block n x \<and> valid x then bdata x else if for_block n (buf_at s b) then disk s ! n else cont s n)"
  proof (cases "for_block n x \<and> valid x")
    case True
    then show ?thesis using cont_cached [OF assms(3,2), of n] by (simp only: at) simp
  next
    case F: False
    show ?thesis
    proof (cases "for_block n x \<or> for_block n (buf_at s b)")
      case True
      have "cont ?s n = disk ?s ! n" by (rule cont_uncached, unfold at) (use F True nofor in \<open>auto split: if_splits\<close>)
      moreover have "cont s n = disk s ! n" if "\<not> for_block n (buf_at s b)"
        by (rule cont_uncached) (use that True nofor in metis)
      ultimately show ?thesis using F by auto
    next
      case False
      then have fe: "find (\<lambda>c. for_block n (buf_at ?s c) \<and> valid (buf_at ?s c)) [0..<NBUF] =
          find (\<lambda>c. for_block n (buf_at s c) \<and> valid (buf_at s c)) [0..<NBUF]"
        unfolding at by (intro find_cong) auto
      have "cont ?s n = cont s n"
      proof (cases "find (\<lambda>c. for_block n (buf_at s c) \<and> valid (buf_at s c)) [0..<NBUF]")
        case None then show ?thesis unfolding cont_def fe by simp
      next
        case (Some c)
        then have "c \<noteq> b" using find_upt_Some [OF Some] False by auto
        moreover have "cont ?s n = bdata (buf_at ?s c)" unfolding cont_def fe Some option.case ..
        moreover have "cont s n = bdata (buf_at s c)" unfolding cont_def Some by simp
        ultimately show ?thesis unfolding at by simp
      qed
      then show ?thesis using False by simp
    qed
  qed
  show "n \<in> pinned ?s \<longleftrightarrow> for_block n x \<and> dirty x \<or> n \<in> pinned s \<and> \<not> for_block n (buf_at s b)"
  proof -
    have "n \<in> pinned ?s \<longleftrightarrow> for_block n x \<and> dirty x \<or> (\<exists>c < NBUF. c \<noteq> b \<and> for_block n (buf_at s c) \<and> dirty (buf_at s c))"
      unfolding pinned_def mem_Collect_eq at using assms(2) by (auto intro: exI [of _ b])
    also have "(\<exists>c < NBUF. c \<noteq> b \<and> for_block n (buf_at s c) \<and> dirty (buf_at s c)) \<longleftrightarrow>
        n \<in> pinned s \<and> \<not> for_block n (buf_at s b)"
      unfolding pinned_def mem_Collect_eq using nofor by blast
    finally show ?thesis .
  qed
  show "hb ?s n = (if for_block n x \<and> held (me s) x then Some b else if for_block n (buf_at s b) then None else hb s n)"
  proof (cases "hb ?s n")
    case None
    then have "\<forall>c < NBUF. for_block n (buf_at ?s c) \<longrightarrow> \<not> held (me s) (buf_at ?s c)" unfolding hb_None by simp
    then have N: "\<forall>c < NBUF. for_block n (if c = b then x else buf_at s c) \<longrightarrow> \<not> held (me s) (if c = b then x else buf_at s c)"
      unfolding at .
    then have "\<not> (for_block n x \<and> held (me s) x)" using assms(2) by auto
    moreover have "hb s n = None" if "\<not> for_block n (buf_at s b)" unfolding hb_None using N that by metis
    ultimately show ?thesis using None by auto
  next
    case (Some c)
    then have c: "c < NBUF" "for_block n (buf_at ?s c)" "held (me s) (buf_at ?s c)"
      using hb_eq [OF assms(3), of n c] by simp_all
    show ?thesis
    proof (cases "c = b")
      case True
      with c have "for_block n x \<and> held (me s) x" unfolding at by simp
      with Some True show ?thesis by simp
    next
      case False
      with c have d: "for_block n (buf_at s c)" "held (me s) (buf_at s c)" unfolding at by simp_all
      then have "\<not> for_block n x" "\<not> for_block n (buf_at s b)" using nofor False c(1) by blast+
      moreover have "hb s n = Some c" unfolding hb_eq [OF assms(1)] using c(1) d by simp
      ultimately show ?thesis using Some by simp
    qed
  qed
qed

lemma bscan_next: "ring bs ls \<Longrightarrow> length ls \<le> NBUF \<Longrightarrow>
    bscan NBUF bnext P bs (bnext (bs ! bhead)) = Inr (find (\<lambda>k. P (bs ! k)) ls)"
  using bscan_path [of bnext bs bhead ls NBUF P] ring_bounds(2) [of bs ls] by (simp add: ring_def nx_def [abs_def])

lemma bscan_prev: "ring bs ls \<Longrightarrow> length ls \<le> NBUF \<Longrightarrow>
    bscan NBUF bprev P bs (bprev (bs ! bhead)) = Inr (find (\<lambda>k. P (bs ! k)) (rev ls))"
  using bscan_path [of bprev bs bhead "rev ls" NBUF P] ring_bounds(2) [of bs ls] by (simp add: ring_def pv_def [abs_def])

section \<open>What the routines do to the contents\<close>

lemma flag_bits:
  "f AND B_VALID \<noteq> 0 \<longleftrightarrow> bit f 1" "f AND B_DIRTY \<noteq> 0 \<longleftrightarrow> bit f 2"
  "f AND (B_VALID OR B_DIRTY) = B_VALID \<longleftrightarrow> bit f 1 \<and> \<not> bit f 2"
proof -
  have V: "B_VALID = 2 ^ 1" and D: "B_DIRTY = 2 ^ 2" by (simp_all add: B_VALID_def B_DIRTY_def)
  show "f AND B_VALID \<noteq> 0 \<longleftrightarrow> bit f 1" unfolding V by (simp only: and_exp_eq_0_iff_not_bit not_not)
  show "f AND B_DIRTY \<noteq> 0 \<longleftrightarrow> bit f 2" unfolding D by (simp only: and_exp_eq_0_iff_not_bit not_not)
  have "bit (f AND (B_VALID OR B_DIRTY)) n = bit B_VALID n \<longleftrightarrow> (n = 1 \<longrightarrow> bit f 1) \<and> (n = 2 \<longrightarrow> \<not> bit f 2)" for n
  proof -
    have "bit B_VALID n \<longleftrightarrow> n = 1" "bit B_DIRTY n \<longleftrightarrow> n = 2" unfolding V D bit_exp_iff by auto
    then show ?thesis by (auto simp: bit_and_iff bit_or_iff)
  qed
  then have "(\<forall>n. bit (f AND (B_VALID OR B_DIRTY)) n = bit B_VALID n) \<longleftrightarrow> bit f 1 \<and> \<not> bit f 2" by auto
  moreover have "x = y \<longleftrightarrow> (\<forall>n. bit x n = bit y n)" for x y :: uint by (auto intro: bit_eqI)
  ultimately show "f AND (B_VALID OR B_DIRTY) = B_VALID \<longleftrightarrow> bit f 1 \<and> \<not> bit f 2" by blast
qed

lemma flag_upd:
  "bit (f OR B_VALID) 1" "bit (f OR B_DIRTY) 2" "bit (f OR B_VALID) 2 = bit f 2" "bit (f OR B_DIRTY) 1 = bit f 1"
  "\<not> bit (f AND NOT B_DIRTY) 2" "bit (f AND NOT B_DIRTY) 1 = bit f 1" "\<not> bit (0 :: uint) k"
  by (auto simp: B_VALID_def B_DIRTY_def bit_simps)

lemma flags_nonzero: "B_VALID \<noteq> 0" "B_DIRTY \<noteq> 0"
  by (simp_all add: B_VALID_def B_DIRTY_def)

lemmas flags_simps = valid_def dirty_def flag_bits [unfolded One_nat_def] flag_upd [unfolded One_nat_def] flags_nonzero

text \<open>A buffer that can be recycled exists when fewer blocks than buffers are locked or waiting to
  be written.\<close>

lemma free_buffer:
  assumes "bio_ok s" "card (pinned s \<union> dom (hb s)) < NBUF"
  shows "\<exists>b < NBUF. unused (buf_at s b) \<and> \<not> dirty (buf_at s b)"
proof (rule ccontr)
  assume no: "\<not> ?thesis"
  let ?f = "\<lambda>b. unat (bblockno (buf_at s b))"
  have busy: "?f b \<in> pinned s \<union> dom (hb s) \<and> for_block (?f b) (buf_at s b)" if b: "b < NBUF" for b
  proof -
    have ok: "buf_ok (me s) (disk s) (buf_at s b)" using bio_okD(2) [OF assms(1) b] .
    with no b have h: "held (me s) (buf_at s b) \<or> dirty (buf_at s b)" by (auto simp: buf_ok_def)
    with ok have f: "for_block (?f b) (buf_at s b)" by (auto simp: buf_ok_def for_block_def)
    with h b show ?thesis using hb_eq [OF assms(1), of "?f b" b] by (auto simp: pinned_def)
  qed
  have fin: "finite (pinned s \<union> dom (hb s))"
  proof (rule finite_subset)
    show "pinned s \<union> dom (hb s) \<subseteq> ?f ` {..<NBUF}"
      using hb_eq [OF assms(1)] by (auto simp: pinned_def for_block_def)
  qed simp
  have "inj_on ?f {..<NBUF}"
  proof (rule inj_onI)
    fix b c assume "b \<in> {..<NBUF}" "c \<in> {..<NBUF}" "?f b = ?f c"
    with busy [of b] busy [of c] bio_okD(3) [OF assms(1), of b c "?f b"] show "b = c" by auto
  qed
  moreover have "?f ` {..<NBUF} \<subseteq> pinned s \<union> dom (hb s)" using busy by auto
  ultimately have "card {..<NBUF} \<le> card (pinned s \<union> dom (hb s))" using fin by (rule card_inj_on_le)
  with assms(2) show False by simp
qed

lemma hb_upd_other: "m \<noteq> n \<Longrightarrow> for_block n x \<Longrightarrow> \<not> for_block m x"
  by (simp add: for_block_def)

text \<open>Locking a buffer for block \<open>n\<close>, whatever was in it.\<close>

lemma lock_buf:
  assumes "bio_ok s" "b < NBUF" "unat n < length (disk s)" "hb s (unat n) = None" "unused (buf_at s b)"
    "for_block (unat n) (buf_at s b) \<or> \<not> dirty (buf_at s b) \<and> (\<forall>c < NBUF. \<not> for_block (unat n) (buf_at s c))"
    "bnext x = bnext (buf_at s b)" "bprev x = bprev (buf_at s b)" "held (me s) x" "bdev x = 1" "bblockno x = n"
    "valid x" "bdata x = cont s (unat n)" "length (bdata x) = BSIZE"
    "dirty x \<longleftrightarrow> for_block (unat n) (buf_at s b) \<and> dirty (buf_at s b)"
  shows "bio_ok (s\<lparr>bufs := (bufs s)[b := x]\<rparr>)" "hb (s\<lparr>bufs := (bufs s)[b := x]\<rparr>) = (hb s)(unat n := Some b)"
    "cont (s\<lparr>bufs := (bufs s)[b := x]\<rparr>) = cont s" "pinned (s\<lparr>bufs := (bufs s)[b := x]\<rparr>) = pinned s"
proof -
  let ?s = "s\<lparr>bufs := (bufs s)[b := x]\<rparr>"
  have fx: "for_block m x \<longleftrightarrow> m = unat n" for m using assms(10,11) by (auto simp: for_block_def)
  have x: "buf_ok (me s) (disk s) x"
    using assms(3,9-14) by (simp add: buf_ok_def)
  show ok: "bio_ok ?s"
  proof (rule bio_ok_upd [OF assms(1,2,7,8) x])
    fix m c assume "c < NBUF" "c \<noteq> b" "for_block m x"
    with assms(6) fx bio_okD(3) [OF assms(1,2), of c m] show "\<not> for_block m (buf_at s c)" by auto
  qed
  note v = view_upd [OF assms(1,2) ok]
  have ob: "buf_ok (me s) (disk s) (buf_at s b)" using bio_okD(2) [OF assms(1,2)] .
  have nh: "\<not> held (me s) (buf_at s b)" using assms(5) by (auto simp: unused_def held_def)
  show "hb ?s = (hb s)(unat n := Some b)"
  proof
    fix m
    have "hb s m = None" if "for_block m (buf_at s b)"
      using that nh hb_eq [OF assms(1), of m] bio_okD(3) [OF assms(1,2)] by (metis not_Some_eq)
    then show "hb ?s m = ((hb s)(unat n := Some b)) m" using v(3) [of m] fx assms(9) by auto
  qed
  show "cont ?s = cont s"
  proof
    fix m
    have "cont s m = disk s ! m" if "for_block m (buf_at s b)" "m \<noteq> unat n"
    proof (cases "valid (buf_at s b)")
      case True
      have "\<not> for_block (unat n) (buf_at s b)" using that by (auto simp: for_block_def)
      then have "\<not> dirty (buf_at s b)" using assms(6) by auto
      with True that(1) ob nh cont_cached [OF assms(1,2) that(1) True] show ?thesis
        by (simp add: buf_ok_def for_block_def)
    next
      case False
      with that(1) bio_okD(3) [OF assms(1,2)] show ?thesis by (intro cont_uncached) blast
    qed
    then show "cont ?s m = cont s m" using v(1) [of m] fx assms(12,13) by auto
  qed
  show "pinned ?s = pinned s"
  proof (rule set_eqI)
    fix m
    have "m \<notin> pinned s" if "for_block m (buf_at s b)" "\<not> dirty (buf_at s b)"
      using that bio_okD(3) [OF assms(1,2)] by (auto simp: pinned_def)
    moreover have "unat n \<in> pinned s" if "for_block (unat n) (buf_at s b)" "dirty (buf_at s b)"
      using that assms(2) by (auto simp: pinned_def)
    ultimately show "m \<in> pinned ?s \<longleftrightarrow> m \<in> pinned s"
      unfolding v(2) using fx assms(6,15) by (auto simp: for_block_def)
  qed
qed

lemma holdingsleep_held: "held i x \<Longrightarrow> holdingsleep i (block x)"
  by (simp add: held_def holdingsleep_def)

lemma upd_buf_bufs: "upd_buf b f (s\<lparr>bufs := (bufs s)[b := x]\<rparr>) = s\<lparr>bufs := (bufs s)[b := f x]\<rparr>"
  if "b < length (bufs s)"
  using that by (simp add: upd_buf_def)

lemma acquiresleep_free: "\<not> sl_locked lk \<Longrightarrow> acquiresleep i lk = Inr \<lparr>sl_locked = True, sl_pid = i\<rparr>"
  by (cases lk) (simp add: acquiresleep_def)

lemma bread_ok:
  assumes "bio_ok s" "unat n < length (disk s)" "hb s (unat n) = None"
    "unat n \<in> pinned s \<or> card (pinned s \<union> dom (hb s)) < NBUF"
  shows "\<exists>b x. bread 1 n s = Inr (b, s\<lparr>bufs := (bufs s)[b := x]\<rparr>) \<and> b < NBUF \<and> bdata x = cont s (unat n) \<and>
    bio_ok (s\<lparr>bufs := (bufs s)[b := x]\<rparr>) \<and> hb (s\<lparr>bufs := (bufs s)[b := x]\<rparr>) = (hb s)(unat n := Some b) \<and>
    cont (s\<lparr>bufs := (bufs s)[b := x]\<rparr>) = cont s \<and> pinned (s\<lparr>bufs := (bufs s)[b := x]\<rparr>) = pinned s"
proof -
  note I = bio_okD [OF assms(1)]
  obtain ls where ls: "ring (bufs s) ls" "set ls = {..<NBUF}" using I(1) by blast
  have "card (set ls) = NBUF" unfolding ls(2) by simp
  then have len: "length ls \<le> NBUF" using ls(1) distinct_card [of ls] by (simp add: ring_def)
  note scan = bscan_next [OF ls(1) len] bscan_prev [OF ls(1) len]
  have dl: "length (disk s ! unat n) = BSIZE" using I(4) assms(2) by simp
  let ?P = "\<lambda>k. bdev (buf_at s k) = 1 \<and> bblockno (buf_at s k) = n"
  have P: "?P k \<longleftrightarrow> for_block (unat n) (buf_at s k)" for k by (auto simp: for_block_def word_unat_eq_iff)
  show ?thesis
  proof (cases "find ?P ls")
    case (Some b)
    then have b: "b < NBUF" "?P b" "for_block (unat n) (buf_at s b)"
      using ls(2) P by (auto simp: find_Some_iff)
    then have lb: "b < length (bufs s)" using I(6) by simp
    have u: "unused (buf_at s b)" using I(2) [OF b(1)] b(1,3) assms(3) hb_None [of s "unat n"] by (auto simp: buf_ok_def)
    note lock = lock_buf [OF assms(1) b(1) assms(2,3) u disjI1 [OF b(3)]]
    let ?x = "(buf_at s b)\<lparr>brefcnt := brefcnt (buf_at s b) + 1, block := \<lparr>sl_locked = True, sl_pid = me s\<rparr>\<rparr>"
    have get: "bget 1 n s = Inr (b, s\<lparr>bufs := (bufs s)[b := ?x]\<rparr>)"
      using u lb by (simp add: bget_def scan Some block_buf_def upd_buf_def acquiresleep_free unused_def)
    have hx: "held (me s) ?x" using u by (simp add: held_def unused_def)
    show ?thesis
    proof (cases "valid (buf_at s b)")
      case True
      then have "bread 1 n s = Inr (b, s\<lparr>bufs := (bufs s)[b := ?x]\<rparr>)"
        using lb by (simp add: bread_def get valid_def)
      moreover have "bdata ?x = cont s (unat n)" using cont_cached [OF assms(1) b(1,3) True] by simp
      ultimately show ?thesis
        using lock [of ?x] hx b True I(2) [OF b(1)] by (intro exI [of _ b] exI [of _ ?x]) (simp add: valid_def dirty_def buf_ok_def)
    next
      case False
      let ?y = "?x\<lparr>bdata := disk s ! unat n, bflags := bflags (buf_at s b) OR B_VALID\<rparr>"
      have nd: "\<not> dirty (buf_at s b)" using False I(2) [OF b(1)] by (simp add: buf_ok_def)
      have "iderw b (s\<lparr>bufs := (bufs s)[b := ?x]\<rparr>) = Inr (s\<lparr>bufs := (bufs s)[b := ?y]\<rparr>)"
        using lb b(2) False nd assms(2) holdingsleep_held [OF hx] by (simp add: iderw_def flags_simps upd_buf_def)
      then have "bread 1 n s = Inr (b, s\<lparr>bufs := (bufs s)[b := ?y]\<rparr>)"
        using lb False by (simp add: bread_def get valid_def)
      moreover have "cont s (unat n) = disk s ! unat n"
        by (rule cont_uncached) (use False b(1,3) I(3) in metis)
      moreover have "valid ?y" "dirty ?y = dirty (buf_at s b)" "held (me s) ?y" using hx by (simp_all add: flags_simps held_def)
      ultimately show ?thesis
        using lock [of ?y] b dl by (intro exI [of _ b] exI [of _ ?y]) simp
    qed
  next
    case None
    then have no: "\<not> for_block (unat n) (buf_at s c)" if "c < NBUF" for c
      using that ls(2) P by (auto simp: find_None_iff)
    then have "unat n \<notin> pinned s" by (auto simp: pinned_def)
    then have "\<exists>b < NBUF. unused (buf_at s b) \<and> \<not> dirty (buf_at s b)" using free_buffer assms(1,4) by blast
    then obtain b' where b': "b' \<in> set ls" "unused (buf_at s b')" "\<not> dirty (buf_at s b')" using ls(2) by blast
    let ?Q = "\<lambda>k. brefcnt (buf_at s k) = 0 \<and> bflags (buf_at s k) AND B_DIRTY = 0"
    obtain b where fb: "find ?Q (rev ls) = Some b"
      using b' by (cases "find ?Q (rev ls)") (auto simp: find_None_iff unused_def dirty_def)
    then have b: "b < NBUF" "?Q b" using ls(2) by (auto simp: find_Some_iff) (metis lessThan_iff nth_mem set_rev length_rev)+
    then have lb: "b < length (bufs s)" using I(6) by simp
    have u: "unused (buf_at s b)" "\<not> dirty (buf_at s b)"
      using I(2) [OF b(1)] b(2) by (auto simp: buf_ok_def held_def dirty_def)
    let ?x = "(buf_at s b)\<lparr>bdev := 1, bblockno := n, bflags := 0, brefcnt := 1, block := \<lparr>sl_locked = True, sl_pid = me s\<rparr>\<rparr>"
    let ?y = "?x\<lparr>bdata := disk s ! unat n, bflags := 0 OR B_VALID\<rparr>"
    have get: "bget 1 n s = Inr (b, s\<lparr>bufs := (bufs s)[b := ?x]\<rparr>)"
      using u lb by (simp add: bget_def scan None fb block_buf_def upd_buf_def acquiresleep_free unused_def)
    have hx: "held (me s) ?x" by (simp add: held_def)
    have "iderw b (s\<lparr>bufs := (bufs s)[b := ?x]\<rparr>) = Inr (s\<lparr>bufs := (bufs s)[b := ?y]\<rparr>)"
      using lb assms(2) holdingsleep_held [OF hx] by (simp add: iderw_def flags_simps upd_buf_def)
    then have "bread 1 n s = Inr (b, s\<lparr>bufs := (bufs s)[b := ?y]\<rparr>)" using lb by (simp add: bread_def get)
    moreover have "cont s (unat n) = disk s ! unat n" by (rule cont_uncached) (use no in blast)
    moreover have "valid ?y" "\<not> dirty ?y" "held (me s) ?y" using hx by (simp_all add: flags_simps held_def B_VALID_def)
    ultimately show ?thesis
      using lock_buf [OF assms(1) b(1) assms(2,3) u(1), of ?y] no u(2) b dl by (intro exI [of _ b] exI [of _ ?y]) simp
  qed
qed

lemma held_buf:
  assumes "bio_ok s" "hb s n = Some b"
  shows "b < NBUF" "b < length (bufs s)" "for_block n (buf_at s b)" "held (me s) (buf_at s b)" "valid (buf_at s b)"
    "bdata (buf_at s b) = cont s n" "n < length (disk s)" "buf_ok (me s) (disk s) (buf_at s b)"
    "unat (bblockno (buf_at s b)) = n" "bdev (buf_at s b) = 1"
proof -
  show b: "b < NBUF" "for_block n (buf_at s b)" "held (me s) (buf_at s b)"
    using hb_eq [OF assms(1)] assms(2) by auto
  then show "b < length (bufs s)" using bio_okD(6) [OF assms(1)] by simp
  show ok: "buf_ok (me s) (disk s) (buf_at s b)" using bio_okD(2) [OF assms(1) b(1)] .
  with b show v: "valid (buf_at s b)" by (simp add: buf_ok_def)
  show "bdata (buf_at s b) = cont s n" using cont_cached [OF assms(1) b(1,2) v] by simp
  show "n < length (disk s)" "unat (bblockno (buf_at s b)) = n" "bdev (buf_at s b) = 1"
    using ok b v by (auto simp: buf_ok_def for_block_def)
qed

text \<open>Changing a locked buffer: its bytes, or its flags to dirty.\<close>

lemma held_upd:
  assumes "bio_ok s" "hb s n = Some b" "length d = BSIZE" "f = bflags (buf_at s b) \<or> f = bflags (buf_at s b) OR B_DIRTY"
  shows "bio_ok (s\<lparr>bufs := (bufs s)[b := (buf_at s b)\<lparr>bdata := d, bflags := f\<rparr>]\<rparr>)" (is "bio_ok ?s")
    "hb (s\<lparr>bufs := (bufs s)[b := (buf_at s b)\<lparr>bdata := d, bflags := f\<rparr>]\<rparr>) = hb s"
    "cont (s\<lparr>bufs := (bufs s)[b := (buf_at s b)\<lparr>bdata := d, bflags := f\<rparr>]\<rparr>) = (cont s)(n := d)"
    "pinned (s\<lparr>bufs := (bufs s)[b := (buf_at s b)\<lparr>bdata := d, bflags := f\<rparr>]\<rparr>) =
       (if f = bflags (buf_at s b) then pinned s else insert n (pinned s))"
proof -
  note h = held_buf [OF assms(1,2)]
  let ?x = "(buf_at s b)\<lparr>bdata := d, bflags := f\<rparr>"
  have fl: "valid ?x" "dirty ?x = (if f = bflags (buf_at s b) then dirty (buf_at s b) else True)"
    using assms(4) h(5) by (auto simp: flags_simps)
  have fx: "for_block m ?x = for_block m (buf_at s b)" "held i ?x = held i (buf_at s b)" for m i
    by (simp_all add: for_block_def held_def)
  have fn: "for_block m (buf_at s b) \<longleftrightarrow> m = n" for m using h(3) by (auto simp: for_block_def)
  have x: "buf_ok (me s) (disk s) ?x"
    using h(4,7,9,10) assms(3) fl(1) fx(2) by (simp add: buf_ok_def)
  show ok: "bio_ok ?s"
    by (rule bio_ok_upd [OF assms(1) h(1) _ _ x]) (use fx bio_okD(3) [OF assms(1) h(1)] in auto)
  note v = view_upd [OF assms(1) h(1) ok]
  show "hb ?s = hb s" using v(3) fx fn h(4) assms(2) by (auto simp: fun_eq_iff)
  show "cont ?s = (cont s)(n := d)" using v(1) fx fn fl(1) by (auto simp: fun_eq_iff)
  have "dirty (buf_at s b)" if "n \<in> pinned s"
    using that h(1,3) bio_okD(3) [OF assms(1) h(1)] by (auto simp: pinned_def)
  moreover have "n \<in> pinned s" if "dirty (buf_at s b)" using that h(1,3) by (auto simp: pinned_def)
  ultimately show "pinned ?s = (if f = bflags (buf_at s b) then pinned s else insert n (pinned s))"
    using v(2) fx fn fl(2) by (auto split: if_splits)
qed

text \<open>The link fields do not matter to what the cache stands for.\<close>

definition core :: "buf \<Rightarrow> buf" where "core x = x\<lparr>bnext := 0, bprev := 0\<rparr>"

lemma core_preds:
  assumes "core x = core y"
  shows "valid x = valid y" "dirty x = dirty y" "held i x = held i y" "for_block n x = for_block n y" "bdata x = bdata y"
    "buf_ok i d x = buf_ok i d y"
proof -
  have "bflags x = bflags y" "bdev x = bdev y" "bblockno x = bblockno y" "block x = block y" "brefcnt x = brefcnt y" "bdata x = bdata y"
    using assms unfolding core_def by (cases x; cases y; simp)+
  then show "valid x = valid y" "dirty x = dirty y" "held i x = held i y" "for_block n x = for_block n y" "bdata x = bdata y"
    "buf_ok i d x = buf_ok i d y"
    by (simp_all add: valid_def dirty_def held_def for_block_def buf_ok_def unused_def)
qed

lemma core_upd: "core y = core (bs ! i) \<Longrightarrow> k < length bs \<Longrightarrow> core (bs[i := y] ! k) = core (bs ! k)"
  by (cases "k = i") auto

lemma core_fields [simp]: "core (x\<lparr>bnext := a, bprev := c\<rparr>) = core x" "core (x\<lparr>bprev := c\<rparr>) = core x" "core (x\<lparr>bnext := a\<rparr>) = core x"
  by (simp_all add: core_def)

lemma core_links: "k < length bs \<Longrightarrow> core (link_front b bs ! k) = core (bs ! k)"
  "k < length bs \<Longrightarrow> core (unlink b bs ! k) = core (bs ! k)" "length (link_front b bs) = length bs" "length (unlink b bs) = length bs"
  by (simp_all only: link_front_def unlink_def Let_def core_upd core_fields length_list_update)

lemma view_core:
  assumes "\<And>k. k < NBUF \<Longrightarrow> core (buf_at s' k) = core (buf_at s k)" "disk s' = disk s" "me s' = me s"
  shows "cont s' = cont s" "pinned s' = pinned s" "hb s' = hb s"
proof -
  note c = core_preds [OF assms(1)]
  have fc: "find (\<lambda>b. for_block n (buf_at s' b) \<and> valid (buf_at s' b)) [0..<NBUF] =
      find (\<lambda>b. for_block n (buf_at s b) \<and> valid (buf_at s b)) [0..<NBUF]" for n
    by (rule find_cong) (use c in auto)
  show "cont s' = cont s"
    unfolding cont_def fun_eq_iff fc using c(5) find_upt_Some assms(2) by (auto split: option.splits)
  show "pinned s' = pinned s" unfolding pinned_def using c by blast
  show "hb s' = hb s" unfolding hb_def fun_eq_iff assms(3) by (intro allI find_cong) (use c in auto)
qed

lemma me_wakeup: "cur s < length (procs (pt s)) \<Longrightarrow> me (s\<lparr>pt := wakeup ch (pt s)\<rparr>) = me s"
  by (simp add: me_def wakeup_def proc_at_wakeup1)

lemma cont_find:
  "find (\<lambda>b. for_block n (buf_at s b) \<and> valid (buf_at s b)) [0..<NBUF] = None \<Longrightarrow> cont s n = disk s ! n"
  "find (\<lambda>b. for_block n (buf_at s b) \<and> valid (buf_at s b)) [0..<NBUF] = Some b \<Longrightarrow> cont s n = bdata (buf_at s b)"
  by (simp_all add: cont_def)

lemma bwrite_ok:
  assumes "bio_ok s" "hb s n = Some b"
  shows "\<exists>x. let s' = s\<lparr>bufs := (bufs s)[b := x], disk := (disk s)[n := cont s n], writes := writes s @ [(n, cont s n)]\<rparr> in
    bwrite b s = Inr s' \<and> bio_ok s' \<and> hb s' = hb s \<and> cont s' = cont s \<and> pinned s' = pinned s - {n}"
proof -
  note h = held_buf [OF assms] and I = bio_okD [OF assms(1)]
  let ?x = "(buf_at s b)\<lparr>bflags := ((bflags (buf_at s b) OR B_DIRTY) AND NOT B_DIRTY) OR B_VALID\<rparr>"
  let ?s1 = "s\<lparr>bufs := (bufs s)[b := ?x]\<rparr>"
  let ?s = "s\<lparr>bufs := (bufs s)[b := ?x], disk := (disk s)[n := cont s n], writes := writes s @ [(n, cont s n)]\<rparr>"
  have "bwrite b s = Inr ?s"
    using h(2,6,7,9,10) holdingsleep_held [OF h(4)]
    by (simp add: bwrite_def iderw_def upd_buf_def flags_simps holdingsleep_def me_def)
  moreover have fx: "for_block m ?x = for_block m (buf_at s b)" "held i ?x = held i (buf_at s b)" "valid ?x" "\<not> dirty ?x" for m i
    by (simp_all add: for_block_def held_def flags_simps)
  have fn: "for_block m (buf_at s b) \<longleftrightarrow> m = n" for m using h(3) by (auto simp: for_block_def)
  have at: "buf_at ?s c = (if c = b then ?x else buf_at s c)" for c using h(2) by (simp add: nth_list_update)
  have uniq: "\<not> for_block n (buf_at s c)" if "c < NBUF" "c \<noteq> b" for c using I(3) [OF h(1) that(1) h(3)] that by auto
  have ok: "bio_ok ?s"
  proof -
    obtain ls where ls: "ring (bufs s) ls" "set ls = {..<NBUF}" using I(1) by blast
    show ?thesis
    proof (rule bio_okI [where ls = ls])
      show "ring (bufs ?s) ls" using ring_upd [OF ls(1) h(2), of ?x] by simp
      show "buf_ok (me ?s) (disk ?s) (buf_at ?s c)" if c: "c < NBUF" for c
      proof (cases "c = b")
        case True
        with fx h(4,7,8) show ?thesis unfolding at by (simp add: buf_ok_def)
      next
        case False
        then show ?thesis unfolding at using I(2) [OF c] uniq [OF c] by (auto simp: buf_ok_def for_block_def)
      qed
      show "c = d" if "c < NBUF" "d < NBUF" "for_block m (buf_at ?s c)" "for_block m (buf_at ?s d)" for c d m
        using that(3,4) I(3) [OF that(1,2), of m] unfolding at by (auto simp: fx split: if_splits)
      show "length d = BSIZE" if "d \<in> set (disk ?s)" for d
        using that I(4) h(6,8) set_update_subset_insert [of "disk s" n "cont s n"] by (auto simp: buf_ok_def)
    qed (use ls I(5) in auto)
  qed
  moreover have "hb ?s = hb s"
    unfolding hb_def fun_eq_iff at by (auto simp: fx intro!: find_cong)
  moreover have "pinned ?s = pinned s - {n}"
  proof (rule set_eqI)
    fix m
    have "m \<in> pinned ?s \<longleftrightarrow> (\<exists>c < NBUF. c \<noteq> b \<and> for_block m (buf_at s c) \<and> dirty (buf_at s c))"
      unfolding pinned_def mem_Collect_eq at using fx(4) by (auto split: if_splits)
    also have "\<dots> \<longleftrightarrow> m \<in> pinned s - {n}"
      unfolding pinned_def using fn uniq by auto
    finally show "m \<in> pinned ?s \<longleftrightarrow> m \<in> pinned s - {n}" .
  qed
  moreover have "cont ?s = cont s"
  proof
    fix m
    have fe: "find (\<lambda>c. for_block m (buf_at ?s c) \<and> valid (buf_at ?s c)) [0..<NBUF] =
        find (\<lambda>c. for_block m (buf_at s c) \<and> valid (buf_at s c)) [0..<NBUF]"
      unfolding at by (rule find_cong) (use fx h(5) in auto)
    show "cont ?s m = cont s m"
    proof (cases "find (\<lambda>c. for_block m (buf_at s c) \<and> valid (buf_at s c)) [0..<NBUF]")
      case None
      then have "m \<noteq> n" using h(1,3,5) by (auto simp: find_upt_None)
      moreover have "cont ?s m = disk ?s ! m" by (rule cont_find(1) [OF fe [unfolded None]])
      moreover have "cont s m = disk s ! m" by (rule cont_find(1) [OF None])
      ultimately show ?thesis by simp
    next
      case (Some c)
      have "cont ?s m = bdata (buf_at ?s c)" by (rule cont_find(2) [OF fe [unfolded Some]])
      moreover have "cont s m = bdata (buf_at s c)" by (rule cont_find(2) [OF Some])
      ultimately show ?thesis unfolding at by simp
    qed
  qed
  ultimately show ?thesis by (intro exI [of _ ?x]) (simp add: Let_def)
qed

lemma brelse_ok:
  assumes "bio_ok s" "hb s n = Some b" "n \<in> pinned s \<or> cont s n = disk s ! n"
  shows "\<exists>bs t. let s' = s\<lparr>pt := t, bufs := bs\<rparr> in brelse b s = Inr s' \<and> bio_ok s' \<and>
    hb s' = (hb s)(n := None) \<and> cont s' = cont s \<and> pinned s' = pinned s"
proof -
  note h = held_buf [OF assms(1,2)] and I = bio_okD [OF assms(1)]
  let ?t = "wakeup (CSleeplock b) (pt s)"
  let ?x = "(buf_at s b)\<lparr>block := (block (buf_at s b))\<lparr>sl_locked := False, sl_pid := 0\<rparr>, brefcnt := 0\<rparr>"
  let ?s1 = "s\<lparr>bufs := (bufs s)[b := ?x]\<rparr>"
  let ?bs = "link_front b (unlink b ((bufs s)[b := ?x]))"
  let ?s = "s\<lparr>pt := ?t, bufs := ?bs\<rparr>"
  have "brelse b s = Inr ?s"
    using h(2,4) holdingsleep_held [OF h(4)]
    by (simp add: brelse_def releasesleep_def upd_buf_def held_def Let_def)
  have fn: "for_block m (buf_at s b) \<longleftrightarrow> m = n" for m using h(3) by (auto simp: for_block_def)
  have fx: "for_block m ?x = for_block m (buf_at s b)" "\<not> held i ?x" "unused ?x" "valid ?x" "dirty ?x = dirty (buf_at s b)" for m i
    using h(5) by (simp_all add: for_block_def held_def unused_def valid_def dirty_def)
  have pd: "n \<in> pinned s \<longleftrightarrow> dirty (buf_at s b)"
    using h(1,3) I(3) [OF h(1)] by (auto simp: pinned_def)
  have x: "buf_ok (me s) (disk s) ?x"
    using h(6,7,8,9,10) fx assms(3) pd by (auto simp: buf_ok_def)
  have ok1: "bio_ok ?s1"
    by (rule bio_ok_upd [OF assms(1) h(1) _ _ x]) (use fx I(3) [OF h(1)] in auto)
  note v = view_upd [OF assms(1) h(1) ok1]
  have v1: "hb ?s1 = (hb s)(n := None)" "cont ?s1 = cont s" "pinned ?s1 = pinned s"
    using v fx fn h(6) pd assms(2) by (auto simp: fun_eq_iff)
  have core: "core (buf_at ?s k) = core (buf_at ?s1 k)" if "k < NBUF" for k
    using that I(6) by (simp add: core_links)
  have me: "me ?s = me ?s1" using me_wakeup [OF I(5)] by (simp add: me_def)
  note w = view_core [OF core _ me, simplified]
  obtain ls where ls: "ring (bufs ?s1) ls" "set ls = {..<NBUF}" using bio_okD(1) [OF ok1] by blast
  then obtain xs ys where sp: "ls = xs @ b # ys" using h(1) split_list [of b ls] by auto
  have "distinct ls" using ls(1) by (simp add: ring_def)
  then have r: "ring ?bs (b # xs @ ys)"
    using ring_link_front [OF ring_unlink [OF ls(1) [unfolded sp]] h(1)] sp by simp
  have "bio_ok ?s"
  proof (rule bio_okI [where ls = "b # xs @ ys"])
    show "ring (bufs ?s) (b # xs @ ys)" using r by simp
    show "set (b # xs @ ys) = {..<NBUF}" using ls(2) sp by auto
    show "buf_ok (me ?s) (disk ?s) (buf_at ?s k)" if "k < NBUF" for k
      using bio_okD(2) [OF ok1 that] core_preds(6) [OF core [OF that]] me by simp
    show "c = d" if "c < NBUF" "d < NBUF" "for_block m (buf_at ?s c)" "for_block m (buf_at ?s d)" for c d m
      using that(3,4) bio_okD(3) [OF ok1 that(1,2), of m] core_preds(4) [OF core [OF that(1)]] core_preds(4) [OF core [OF that(2)]] by simp
  qed (use I(4,5) in \<open>auto simp: wakeup_def\<close>)
  with \<open>brelse b s = Inr ?s\<close> w v1 show ?thesis
    by (intro exI [of _ ?bs] exI [of _ ?t]) (simp add: Let_def)
qed

section \<open>The cache at boot\<close>

text \<open>\<open>binit\<close> links every buffer, the last one first.\<close>

lemma binit1_ok:
  assumes "ring bs ls" "b < NBUF" "b \<notin> set ls"
  shows "ring (binit1 b bs) (b # ls)" "length (binit1 b bs) = length bs"
    "k < NBUF \<Longrightarrow> core (binit1 b bs ! k) = core (if k = b then (bs ! k)\<lparr>block := initsleeplock (block (bs ! k))\<rparr> else bs ! k)"
proof -
  let ?bs = "bs[b := (bs ! b)\<lparr>block := initsleeplock (block (bs ! b))\<rparr>]"
  have len: "length bs = Suc NBUF" using ring_bounds(1) [OF assms(1)] .
  have r: "ring ?bs ls" by (rule ring_upd [OF assms(1)]) (use len assms(2) in auto)
  show "ring (binit1 b bs) (b # ls)" unfolding binit1_def by (rule ring_link_front [OF r assms(2,3)])
  show "length (binit1 b bs) = length bs" by (simp add: binit1_def core_links)
  show "core (binit1 b bs ! k) = core (if k = b then (bs ! k)\<lparr>block := initsleeplock (block (bs ! k))\<rparr> else bs ! k)" if "k < NBUF"
    unfolding binit1_def using that len by (simp add: core_links nth_list_update)
qed

lemma binit_fold:
  assumes "ring bs []" "j \<le> NBUF"
  shows "ring (fold binit1 [0..<j] bs) (rev [0..<j]) \<and> (\<forall>k < NBUF. core (fold binit1 [0..<j] bs ! k) =
    core (if k < j then (bs ! k)\<lparr>block := initsleeplock (block (bs ! k))\<rparr> else bs ! k))"
  using assms(2)
proof (induction j)
  case 0
  with assms(1) show ?case by simp
next
  case (Suc j)
  let ?bs = "fold binit1 [0..<j] bs"
  have IH: "ring ?bs (rev [0..<j])" "\<And>k. k < NBUF \<Longrightarrow> core (?bs ! k) =
      core (if k < j then (bs ! k)\<lparr>block := initsleeplock (block (bs ! k))\<rparr> else bs ! k)"
    using Suc by auto
  have j: "j < NBUF" "j \<notin> set (rev [0..<j])" using Suc.prems by auto
  have cc: "core (x\<lparr>block := initsleeplock (block x)\<rparr>) = core (y\<lparr>block := initsleeplock (block y)\<rparr>)" if "core x = core y" for x y
    using that unfolding core_def by (cases x; cases y) simp
  show ?case using binit1_ok [OF IH(1) j] IH(2) cc [OF IH(2) [of j]] j(1) by (auto simp: less_Suc_eq)
qed

lemma binit_ok:
  assumes "length (bufs s) = Suc NBUF" "\<And>b. b < NBUF \<Longrightarrow> brefcnt (buf_at s b) = 0 \<and> bflags (buf_at s b) = 0 \<and>
      bdev (buf_at s b) = 0 \<and> length (bdata (buf_at s b)) = BSIZE"
    "\<And>d. d \<in> set (disk s) \<Longrightarrow> length d = BSIZE" "cur s < length (procs (pt s))"
  shows "bio_ok (binit s)" "hb (binit s) = Map.empty" "pinned (binit s) = {}" "cont (binit s) = (\<lambda>m. disk s ! m)"
proof -
  let ?bs = "(bufs s)[bhead := (buf_at s bhead)\<lparr>bprev := bhead, bnext := bhead\<rparr>]"
  have "ring ?bs []" using assms(1) by (simp add: ring_def nx_def pv_def bhead_def)
  note f = binit_fold [OF this order_refl]
  have bs: "bufs (binit s) = fold binit1 [0..<NBUF] ?bs" by (simp add: binit_def)
  have sel: "disk (binit s) = disk s" "pt (binit s) = pt s" "cur (binit s) = cur s" by (simp_all add: binit_def)
  have c: "core (buf_at (binit s) k) = core ((buf_at s k)\<lparr>block := initsleeplock (block (buf_at s k))\<rparr>)" if "k < NBUF" for k
    using f that unfolding bs by (auto simp: bhead_def)
  have fb: "\<not> for_block n (buf_at (binit s) k)" if "k < NBUF" for k n
    unfolding core_preds(4) [OF c [OF that]] using assms(2) [OF that] by (simp add: for_block_def)
  show "bio_ok (binit s)"
  proof (rule bio_okI [where ls = "rev [0..<NBUF]"])
    show "ring (bufs (binit s)) (rev [0..<NBUF])" using f bs by simp
    show "set (rev [0..<NBUF]) = {..<NBUF}" by auto
    show "buf_ok (me (binit s)) (disk (binit s)) (buf_at (binit s) b)" if "b < NBUF" for b
      unfolding core_preds(6) [OF c [OF that]] using assms(2) [OF that]
      by (simp add: buf_ok_def held_def unused_def valid_def dirty_def initsleeplock_def)
  qed (use fb assms(3,4) sel in auto)
  show "hb (binit s) = Map.empty" using fb by (auto simp: fun_eq_iff hb_None)
  show "pinned (binit s) = {}" using fb by (auto simp: pinned_def)
  show "cont (binit s) = (\<lambda>m. disk s ! m)" using fb cont_uncached [of _ "binit s"] sel(1) by (simp add: fun_eq_iff)
qed

end
