(* ===== verification/Xv6_Disk.thy ===== *)
theory Xv6_Disk
  imports Xv6_Bio
begin

text \<open>
  The on-disk format of the file system (Xv6-Syscall/src/fs.h): little-endian numbers in
  the bytes of a block, the super block, the inode and the directory entry, each with the
  place of its fields and a pair of functions between the bytes and the record.
\<close>

section \<open>Numbers in blocks\<close>

definition rd16 :: "uchar list \<Rightarrow> nat \<Rightarrow> ushort" where
  "rd16 d i = ucast (d ! i) OR push_bit 8 (ucast (d ! (i + 1)))"

definition wr16 :: "nat \<Rightarrow> ushort \<Rightarrow> uchar list \<Rightarrow> uchar list" where
  "wr16 i v d = d[i := ucast v, i + 1 := ucast (drop_bit 8 v)]"

definition rd32 :: "uchar list \<Rightarrow> nat \<Rightarrow> uint" where
  "rd32 d i = ucast (d ! i) OR push_bit 8 (ucast (d ! (i + 1)))
     OR push_bit 16 (ucast (d ! (i + 2))) OR push_bit 24 (ucast (d ! (i + 3)))"

definition wr32 :: "nat \<Rightarrow> uint \<Rightarrow> uchar list \<Rightarrow> uchar list" where
  "wr32 i v d = d[i := ucast v, i + 1 := ucast (drop_bit 8 v),
     i + 2 := ucast (drop_bit 16 v), i + 3 := ucast (drop_bit 24 v)]"

lemma length_wr [simp]: "length (wr16 i w d) = length d" "length (wr32 i v d) = length d"
  by (simp_all add: wr16_def wr32_def)

lemma rd16_wr16 [simp]: "i + 1 < length d \<Longrightarrow> rd16 (wr16 i v d) i = v"
proof (rule bit_word_eqI)
  fix n assume "i + 1 < length d" "n < LENGTH(16)"
  then show "bit (rd16 (wr16 i v d) i) n = bit v n"
    by (cases "n < 8") (auto simp: rd16_def wr16_def bit_simps)
qed

lemma rd32_wr32 [simp]: "i + 3 < length d \<Longrightarrow> rd32 (wr32 i v d) i = v"
proof (rule bit_word_eqI)
  fix n assume l: "i + 3 < length d" and n: "n < LENGTH(32)"
  consider "n < 8" | "8 \<le> n" "n < 16" | "16 \<le> n" "n < 24" | "24 \<le> n" by linarith
  then show "bit (rd32 (wr32 i v d) i) n = bit v n"
    using n l by cases (auto simp: rd32_def wr32_def bit_simps)
qed

lemma rd32_wr32_other [simp]:
  "i + 3 < j \<or> j + 3 < i \<Longrightarrow> rd32 (wr32 i v d) j = rd32 d j"
  by (auto simp: rd32_def wr32_def)

section \<open>fs.h\<close>

definition ROOTINO :: uint where "ROOTINO = 1"
definition ROOTDEV :: uint where "ROOTDEV = 1"
definition NDIRECT :: nat where "NDIRECT = 12"
definition NINDIRECT :: nat where "NINDIRECT = 128"
definition MAXFILE :: nat where "MAXFILE = NDIRECT + NINDIRECT"
definition DIRSIZ :: nat where "DIRSIZ = 14"
definition IPB :: nat where "IPB = 8"
definition BPB :: nat where "BPB = 4096"

record superblock =
  sb_size :: uint
  sb_nblocks :: uint
  sb_ninodes :: uint
  sb_nlog :: uint
  sb_logstart :: uint
  sb_inodestart :: uint
  sb_bmapstart :: uint

definition sb_of_bytes :: "uchar list \<Rightarrow> superblock" where
  "sb_of_bytes d = \<lparr>sb_size = rd32 d 0, sb_nblocks = rd32 d 4, sb_ninodes = rd32 d 8, sb_nlog = rd32 d 12,
     sb_logstart = rd32 d 16, sb_inodestart = rd32 d 20, sb_bmapstart = rd32 d 24\<rparr>"

text \<open>\<open>struct dinode\<close>, 64 bytes: four shorts, the size, thirteen block addresses.\<close>

record dinode =
  d_type :: ushort
  d_major :: ushort
  d_minor :: ushort
  d_nlink :: ushort
  d_size :: uint
  d_addrs :: "uint list"

definition rd_addrs :: "uchar list \<Rightarrow> nat \<Rightarrow> nat \<Rightarrow> uint list" where
  "rd_addrs d at n = map (\<lambda>i. rd32 d (at + 4 * i)) [0..<n]"

fun wr_addrs :: "nat \<Rightarrow> uint list \<Rightarrow> uchar list \<Rightarrow> uchar list" where
  "wr_addrs at [] d = d"
| "wr_addrs at (a # as) d = wr_addrs (at + 4) as (wr32 at a d)"

definition rd_dinode :: "uchar list \<Rightarrow> nat \<Rightarrow> dinode" where
  "rd_dinode d at = \<lparr>d_type = rd16 d at, d_major = rd16 d (at + 2), d_minor = rd16 d (at + 4),
     d_nlink = rd16 d (at + 6), d_size = rd32 d (at + 8), d_addrs = rd_addrs d (at + 12) (NDIRECT + 1)\<rparr>"

definition wr_dinode :: "nat \<Rightarrow> dinode \<Rightarrow> uchar list \<Rightarrow> uchar list" where
  "wr_dinode at x d = wr_addrs (at + 12) (d_addrs x) (wr32 (at + 8) (d_size x) (wr16 (at + 6) (d_nlink x)
     (wr16 (at + 4) (d_minor x) (wr16 (at + 2) (d_major x) (wr16 at (d_type x) d)))))"

definition IBLOCK :: "uint \<Rightarrow> superblock \<Rightarrow> uint" where
  "IBLOCK i sb = i div of_nat IPB + sb_inodestart sb"

definition BBLOCK :: "uint \<Rightarrow> superblock \<Rightarrow> uint" where
  "BBLOCK b sb = b div of_nat BPB + sb_bmapstart sb"

text \<open>\<open>struct dirent\<close>, 16 bytes.\<close>

record dirent =
  de_inum :: ushort
  de_name :: "uchar list"

definition dirent_size :: nat where "dirent_size = 16"

definition dirent_of_bytes :: "uchar list \<Rightarrow> dirent" where
  "dirent_of_bytes d = \<lparr>de_inum = rd16 d 0, de_name = take DIRSIZ (drop 2 d)\<rparr>"

definition dirent_to_bytes :: "dirent \<Rightarrow> uchar list" where
  "dirent_to_bytes de = wr16 0 (de_inum de) [0, 0] @ de_name de"

end
