(* ===== verification/Xv6_Log.thy ===== *)
theory Xv6_Log
  imports Xv6_Disk
begin

text \<open>
  The write-ahead log (Xv6-Syscall/src/log.c).  A block number is kept as the 32-bit value
  that is both stored in the header and passed to \<open>bread\<close>; the other fields are C ints.
\<close>

definition LOGSIZE :: int where "LOGSIZE = MAXOPBLOCKS * 3"

record lg = bio +
  lstart :: int
  lsize :: int
  outstanding :: int
  committing :: bool
  ldev :: uint
  lh_n :: int
  lh_block :: "uint list"

section \<open>Reading the super block\<close>

text \<open>fs.c: \<open>readsb\<close>.\<close>

definition readsb :: "uint \<Rightarrow> 'b bio_scheme \<Rightarrow> (superblock \<times> 'b bio_scheme) res" where
  "readsb dev s =
     bindE (bread dev 1 s) (\<lambda>(bp, s).
     let sb = sb_of_bytes (bdata (buf_at s bp)) in
     bindE (brelse bp s) (\<lambda>s. Inr (sb, s)))"

section \<open>Commit and recovery\<close>

definition upd_data :: "nat \<Rightarrow> (uchar list \<Rightarrow> uchar list) \<Rightarrow> 'b bio_scheme \<Rightarrow> 'b bio_scheme" where
  "upd_data b f s = upd_buf b (\<lambda>x. x\<lparr>bdata := f (bdata x)\<rparr>) s"

definition install_one :: "nat \<Rightarrow> 'b lg_scheme \<Rightarrow> 'b lg_scheme res" where
  "install_one tail s =
     bindE (bread (ldev s) (of_int (lstart s + int tail + 1)) s) (\<lambda>(lbuf, s).
     bindE (bread (ldev s) (lh_block s ! tail) s) (\<lambda>(dbuf, s).
     let s = upd_data dbuf (\<lambda>_. bdata (buf_at s lbuf)) s in
     bindE (bwrite dbuf s) (\<lambda>s.
     bindE (brelse lbuf s) (brelse dbuf))))"

definition install_trans :: "'b lg_scheme \<Rightarrow> 'b lg_scheme res" where
  "install_trans s = foldE install_one [0..<nat (lh_n s)] s"

text \<open>\<open>read_head\<close>: a count above \<open>LOGSIZE\<close> writes past the end of \<open>log.lh.block\<close>.\<close>

definition read_head :: "'b lg_scheme \<Rightarrow> 'b lg_scheme res" where
  "read_head s =
     bindE (bread (ldev s) (of_int (lstart s)) s) (\<lambda>(bp, s).
     let d = bdata (buf_at s bp); n = sint (rd32 d 0) in
     if n > LOGSIZE then Inl (Undef ''read_head'')
     else brelse bp (s\<lparr>lh_n := n,
       lh_block := rd_addrs d 4 (nat n) @ drop (nat n) (lh_block s)\<rparr>))"

definition write_head :: "'b lg_scheme \<Rightarrow> 'b lg_scheme res" where
  "write_head s =
     bindE (bread (ldev s) (of_int (lstart s)) s) (\<lambda>(bp, s).
     let s = upd_data bp (\<lambda>d. wr_addrs 4 (take (nat (lh_n s)) (lh_block s)) (wr32 0 (of_int (lh_n s)) d)) s in
     bindE (bwrite bp s) (brelse bp))"

definition recover_from_log :: "'b lg_scheme \<Rightarrow> 'b lg_scheme res" where
  "recover_from_log s =
     bindE (read_head s) (\<lambda>s.
     bindE (install_trans s) (\<lambda>s.
     write_head (s\<lparr>lh_n := 0\<rparr>)))"

text \<open>The size test at the start of \<open>initlog\<close> compares constants and never fails: the header
  takes 124 bytes.\<close>

definition initlog :: "uint \<Rightarrow> 'b lg_scheme \<Rightarrow> 'b lg_scheme res" where
  "initlog dev s =
     bindE (readsb dev s) (\<lambda>(sb, s).
     recover_from_log (s\<lparr>lstart := sint (sb_logstart sb), lsize := sint (sb_nlog sb), ldev := dev\<rparr>))"

definition write_log_one :: "nat \<Rightarrow> 'b lg_scheme \<Rightarrow> 'b lg_scheme res" where
  "write_log_one tail s =
     bindE (bread (ldev s) (of_int (lstart s + int tail + 1)) s) (\<lambda>(to, s).
     bindE (bread (ldev s) (lh_block s ! tail) s) (\<lambda>(from, s).
     let s = upd_data to (\<lambda>_. bdata (buf_at s from)) s in
     bindE (bwrite to s) (\<lambda>s.
     bindE (brelse from s) (brelse to))))"

definition write_log :: "'b lg_scheme \<Rightarrow> 'b lg_scheme res" where
  "write_log s = foldE write_log_one [0..<nat (lh_n s)] s"

definition commit :: "'b lg_scheme \<Rightarrow> 'b lg_scheme res" where
  "commit s =
     (if lh_n s > 0 then
        bindE (write_log s) (\<lambda>s.
        bindE (write_head s) (\<lambda>s.
        bindE (install_trans s) (\<lambda>s.
        write_head (s\<lparr>lh_n := 0\<rparr>))))
      else Inr s)"

section \<open>Operations of a system call\<close>

text \<open>As one process runs them; \<open>begin_op\<close> blocks where the code sleeps on the log.\<close>

definition begin_op :: "'b lg_scheme \<Rightarrow> 'b lg_scheme res" where
  "begin_op s =
     (if committing s then Inl (Block ''log'')
      else if lh_n s + (outstanding s + 1) * MAXOPBLOCKS > LOGSIZE then Inl (Block ''log'')
      else Inr (s\<lparr>outstanding := outstanding s + 1\<rparr>))"

definition end_op :: "'b lg_scheme \<Rightarrow> 'b lg_scheme res" where
  "end_op s =
     (let s = s\<lparr>outstanding := outstanding s - 1\<rparr> in
      if committing s then panic ''log.committing''
      else if outstanding s = 0 then
        bindE (commit (s\<lparr>committing := True\<rparr>)) (\<lambda>s.
        Inr (s\<lparr>committing := False, pt := wakeup CLog (pt s)\<rparr>))
      else Inr (s\<lparr>pt := wakeup CLog (pt s)\<rparr>))"

definition log_slot :: "uint \<Rightarrow> 'b lg_scheme \<Rightarrow> nat" where
  "log_slot b s = (case find_index (\<lambda>x. x = b) (take (nat (lh_n s)) (lh_block s)) of
     Some i \<Rightarrow> i | None \<Rightarrow> nat (lh_n s))"

definition log_write :: "nat \<Rightarrow> 'b lg_scheme \<Rightarrow> 'b lg_scheme res" where
  "log_write b s =
     (if lh_n s \<ge> LOGSIZE \<or> lh_n s \<ge> lsize s - 1 then panic ''too big a transaction''
      else if outstanding s < 1 then panic ''log_write outside of trans''
      else let i = log_slot (bblockno (buf_at s b)) s;
             s = s\<lparr>lh_block := (lh_block s)[i := bblockno (buf_at s b)]\<rparr>;
             s = (if int i = lh_n s then s\<lparr>lh_n := lh_n s + 1\<rparr> else s)
           in Inr (upd_buf b (\<lambda>x. x\<lparr>bflags := bflags x OR B_DIRTY\<rparr>) s))"

end
