(* ===== verification/Xv6_Crash.thy ===== *)
theory Xv6_Crash
  imports Xv6_Log
begin

text \<open>
  Correctness of the log (Xv6-Syscall/src/log.c) under crashes.  The disk after a crash is
  the disk before it with some prefix of the writes carried out.  What a disk stands for is
  its image: the blocks as recovery will leave them, a block that the log header names being
  taken from the log.  Every prefix of the writes of \<open>commit\<close> has the old image or the new
  one, and no prefix of the writes of recovery changes the image.
\<close>

section \<open>Copying a block through the cache\<close>

text \<open>Only the buffer cache, the disk and the process table change.\<close>

definition bstep :: "'b bio_scheme \<Rightarrow> 'b bio_scheme \<Rightarrow> bool" where
  "bstep s s' \<longleftrightarrow> s' = s\<lparr>pt := pt s', bufs := bufs s', disk := disk s', writes := writes s'\<rparr>"

lemma bstep_refl: "bstep s s"
  by (simp add: bstep_def)

lemma bstep_trans: "bstep s t \<Longrightarrow> bstep t u \<Longrightarrow> bstep s u"
  by (cases s; cases t; cases u) (auto simp: bstep_def)

lemma bstep_upd:
  "bstep s (s\<lparr>bufs := a\<rparr>)" "bstep s (s\<lparr>pt := t, bufs := a\<rparr>)" "bstep s (s\<lparr>bufs := a, disk := d, writes := w\<rparr>)"
  by (simp_all add: bstep_def)

text \<open>A block that is neither locked nor waiting to be written is the same on the disk.\<close>

lemma clean_disk:
  assumes "bio_ok s" "n \<notin> pinned s" "hb s n = None"
  shows "cont s n = disk s ! n"
proof (cases "\<exists>b < NBUF. for_block n (buf_at s b) \<and> valid (buf_at s b)")
  case True
  then obtain b where b: "b < NBUF" "for_block n (buf_at s b)" "valid (buf_at s b)" by blast
  have "\<not> dirty (buf_at s b)" using assms(2) b by (auto simp: pinned_def)
  moreover have "\<not> held (me s) (buf_at s b)" using assms(3) b hb_None [of s n] by blast
  ultimately have "bdata (buf_at s b) = disk s ! n"
    using b bio_okD(2) [OF assms(1) b(1)] by (auto simp: buf_ok_def for_block_def)
  with cont_cached [OF assms(1) b] show ?thesis by simp
next
  case False
  then show ?thesis by (intro cont_uncached) blast
qed

text \<open>The routines of the cache by what they do to its contents.\<close>

lemma bread_view:
  assumes "bio_ok s" "unat n < length (disk s)" "hb s (unat n) = None"
    "unat n \<in> pinned s \<or> card (pinned s \<union> dom (hb s)) < NBUF"
  shows "\<exists>b s'. bread 1 n s = Inr (b, s') \<and> bstep s s' \<and> bio_ok s' \<and> hb s' = (hb s)(unat n := Some b) \<and>
    cont s' = cont s \<and> pinned s' = pinned s \<and> disk s' = disk s \<and> writes s' = writes s \<and> bdata (buf_at s' b) = cont s (unat n)"
proof -
  obtain b x where r: "bread 1 n s = Inr (b, s\<lparr>bufs := (bufs s)[b := x]\<rparr>)" "b < NBUF" "bdata x = cont s (unat n)"
    "bio_ok (s\<lparr>bufs := (bufs s)[b := x]\<rparr>)" "hb (s\<lparr>bufs := (bufs s)[b := x]\<rparr>) = (hb s)(unat n := Some b)"
    "cont (s\<lparr>bufs := (bufs s)[b := x]\<rparr>) = cont s" "pinned (s\<lparr>bufs := (bufs s)[b := x]\<rparr>) = pinned s"
    using bread_ok [OF assms] by blast
  have "bdata (buf_at (s\<lparr>bufs := (bufs s)[b := x]\<rparr>) b) = cont s (unat n)"
    unfolding buf_at_upd [OF assms(1) r(2)] using r(3) by simp
  with r show ?thesis by (intro exI [of _ b] exI [of _ "s\<lparr>bufs := (bufs s)[b := x]\<rparr>"]) (simp add: bstep_upd)
qed

lemma bwrite_view:
  assumes "bio_ok s" "hb s n = Some b"
  shows "\<exists>s'. bwrite b s = Inr s' \<and> bstep s s' \<and> bio_ok s' \<and> hb s' = hb s \<and> cont s' = cont s \<and>
    pinned s' = pinned s - {n} \<and> disk s' = (disk s)[n := cont s n] \<and> writes s' = writes s @ [(n, cont s n)]"
proof -
  obtain x where "let s' = s\<lparr>bufs := (bufs s)[b := x], disk := (disk s)[n := cont s n], writes := writes s @ [(n, cont s n)]\<rparr> in
    bwrite b s = Inr s' \<and> bio_ok s' \<and> hb s' = hb s \<and> cont s' = cont s \<and> pinned s' = pinned s - {n}"
    using bwrite_ok [OF assms] by blast
  then show ?thesis unfolding Let_def
    by (intro exI [of _ "s\<lparr>bufs := (bufs s)[b := x], disk := (disk s)[n := cont s n], writes := writes s @ [(n, cont s n)]\<rparr>"])
      (auto simp: bstep_upd)
qed

lemma brelse_view:
  assumes "bio_ok s" "hb s n = Some b" "n \<in> pinned s \<or> cont s n = disk s ! n"
  shows "\<exists>s'. brelse b s = Inr s' \<and> bstep s s' \<and> bio_ok s' \<and> hb s' = (hb s)(n := None) \<and> cont s' = cont s \<and>
    pinned s' = pinned s \<and> disk s' = disk s \<and> writes s' = writes s"
proof -
  obtain bs t where "let s' = s\<lparr>pt := t, bufs := bs\<rparr> in brelse b s = Inr s' \<and> bio_ok s' \<and>
    hb s' = (hb s)(n := None) \<and> cont s' = cont s \<and> pinned s' = pinned s"
    using brelse_ok [OF assms] by blast
  then show ?thesis unfolding Let_def
    by (intro exI [of _ "s\<lparr>pt := t, bufs := bs\<rparr>"]) (auto simp: bstep_upd)
qed

lemma upd_data_view:
  assumes "bio_ok s" "hb s n = Some b" "length d = BSIZE"
  shows "\<exists>s'. upd_data b (\<lambda>_. d) s = s' \<and> bstep s s' \<and> bio_ok s' \<and> hb s' = hb s \<and> cont s' = (cont s)(n := d) \<and>
    pinned s' = pinned s \<and> disk s' = disk s \<and> writes s' = writes s"
proof -
  have e: "upd_data b (\<lambda>_. d) s = s\<lparr>bufs := (bufs s)[b := (buf_at s b)\<lparr>bdata := d, bflags := bflags (buf_at s b)\<rparr>]\<rparr>"
    by (simp add: upd_data_def upd_buf_def)
  show ?thesis unfolding e
    by (rule exI, rule conjI, rule refl) (use held_upd [OF assms disjI1 [OF refl]] in \<open>simp add: bstep_upd\<close>)
qed

definition after_write :: "'b bio_scheme \<Rightarrow> 'b bio_scheme \<Rightarrow> nat \<Rightarrow> uchar list \<Rightarrow> bool" where
  "after_write s s' t d \<longleftrightarrow> bstep s s' \<and> bio_ok s' \<and> cont s' = (cont s)(t := d) \<and> disk s' = (disk s)[t := d] \<and>
     writes s' = writes s @ [(t, d)] \<and> pinned s' = pinned s - {t}"

lemma write_held:
  assumes "bio_ok s" "hb s t = Some b" "length d = BSIZE"
  shows "\<exists>s'. bwrite b (upd_data b (\<lambda>_. d) s) = Inr s' \<and> after_write s s' t d \<and> hb s' = hb s"
proof -
  obtain s1 where u: "upd_data b (\<lambda>_. d) s = s1" "bstep s s1" "bio_ok s1" "hb s1 = hb s" "cont s1 = (cont s)(t := d)"
    "pinned s1 = pinned s" "disk s1 = disk s" "writes s1 = writes s"
    using upd_data_view [OF assms] by blast
  have "hb s1 t = Some b" using u(4) assms(2) by simp
  then obtain s' where "bwrite b s1 = Inr s'" "bstep s1 s'" "bio_ok s'" "hb s' = hb s1" "cont s' = cont s1"
    "pinned s' = pinned s1 - {t}" "disk s' = (disk s1)[t := cont s1 t]" "writes s' = writes s1 @ [(t, cont s1 t)]"
    using bwrite_view [OF u(3)] by blast
  with u show ?thesis
    by (intro exI [of _ s']) (auto simp: after_write_def intro: bstep_trans)
qed

lemma copy_tail:
  assumes "bio_ok s" "hb s t = Some bt" "hb s a = Some ba" "t \<noteq> a" "a \<in> pinned s \<or> cont s a = disk s ! a"
  shows "\<exists>s'. bindE (bwrite bt (upd_data bt (\<lambda>_. bdata (buf_at s ba)) s)) (\<lambda>s. bindE (brelse ba s) (brelse bt)) = Inr s' \<and>
    after_write s s' t (cont s a) \<and> hb s' = (hb s)(a := None, t := None)"
proof -
  note ha = held_buf [OF assms(1,3)] and ht = held_buf [OF assms(1,2)]
  have len: "length (cont s a) = BSIZE" using ha(6,8) by (simp add: buf_ok_def)
  obtain s1 where w: "bwrite bt (upd_data bt (\<lambda>_. cont s a) s) = Inr s1" "after_write s s1 t (cont s a)" "hb s1 = hb s"
    using write_held [OF assms(1,2) len] by blast
  then have o1: "bio_ok s1" "cont s1 = (cont s)(t := cont s a)" "disk s1 = (disk s)[t := cont s a]" "pinned s1 = pinned s - {t}" "bstep s s1"
    "writes s1 = writes s @ [(t, cont s a)]"
    by (simp_all add: after_write_def)
  have "a \<in> pinned s1 \<or> cont s1 a = disk s1 ! a" "hb s1 a = Some ba" using assms(3,4,5) o1 w(3) by auto
  then obtain s2 where r1: "brelse ba s1 = Inr s2" "bstep s1 s2" "bio_ok s2" "hb s2 = (hb s1)(a := None)" "cont s2 = cont s1"
    "pinned s2 = pinned s1" "disk s2 = disk s1" "writes s2 = writes s1"
    using brelse_view [OF o1(1)] by blast
  have "hb s2 t = Some bt" "cont s2 t = disk s2 ! t" using r1 w(3) assms(2,4) o1 ht(7) by simp_all
  then obtain s3 where r2: "brelse bt s2 = Inr s3" "bstep s2 s3" "bio_ok s3" "hb s3 = (hb s2)(t := None)" "cont s3 = cont s2"
    "pinned s3 = pinned s2" "disk s3 = disk s2" "writes s3 = writes s2"
    using brelse_view [OF r1(3)] by blast
  have "bstep s s3" using o1(5) r1(2) r2(2) bstep_trans by blast
  then show ?thesis using w(1,3) r1 r2 o1 ha(6) by (intro exI [of _ s3]) (simp add: after_write_def)
qed

section \<open>Sequences of block writes\<close>

definition apply_writes :: "(nat \<times> uchar list) list \<Rightarrow> uchar list list \<Rightarrow> uchar list list" where
  "apply_writes ws d = fold (\<lambda>(n, b) d. d[n := b]) ws d"

definition put_writes :: "(nat \<times> uchar list) list \<Rightarrow> (nat \<Rightarrow> uchar list) \<Rightarrow> nat \<Rightarrow> uchar list" where
  "put_writes ws c = fold (\<lambda>(n, b) c. c(n := b)) ws c"

text \<open>The code has gone from one state to the other by writing the given blocks, with no buffer
  locked before or after.\<close>

definition wrote :: "'b bio_scheme \<Rightarrow> 'b bio_scheme \<Rightarrow> (nat \<times> uchar list) list \<Rightarrow> bool" where
  "wrote s s' ws \<longleftrightarrow> bstep s s' \<and> bio_ok s' \<and> hb s' = Map.empty \<and> writes s' = writes s @ ws \<and>
     disk s' = apply_writes ws (disk s) \<and> cont s' = put_writes ws (cont s) \<and> pinned s' = pinned s - fst ` set ws"

lemma writes_append:
  "apply_writes (ws @ vs) d = apply_writes vs (apply_writes ws d)" "put_writes (ws @ vs) c = put_writes vs (put_writes ws c)"
  by (simp_all add: apply_writes_def put_writes_def)

lemma writes_Nil [simp]: "apply_writes [] d = d" "put_writes [] c = c"
  by (simp_all add: apply_writes_def put_writes_def)

lemma writes_Cons [simp]: "apply_writes ((n, b) # ws) d = apply_writes ws (d[n := b])" "put_writes ((n, b) # ws) c = put_writes ws (c(n := b))"
  by (simp_all add: apply_writes_def put_writes_def)

lemma length_apply_writes [simp]: "length (apply_writes ws d) = length d"
  by (induction ws arbitrary: d) (auto simp: apply_writes_def)

lemma put_writes_other: "m \<notin> fst ` set ws \<Longrightarrow> put_writes ws c m = c m"
  by (induction ws arbitrary: c) auto

lemma apply_writes_other: "m \<notin> fst ` set ws \<Longrightarrow> apply_writes ws d ! m = d ! m"
  by (induction ws arbitrary: d) auto

lemma apply_writes_at:
  "distinct (map fst ws) \<Longrightarrow> (m, b) \<in> set ws \<Longrightarrow> m < length d \<Longrightarrow> apply_writes ws d ! m = b"
proof (induction ws arbitrary: d)
  case (Cons w ws)
  obtain n c where w: "w = (n, c)" by fastforce
  show ?case
  proof (cases "(m, b) = w")
    case True
    then have "m \<notin> fst ` set ws" using Cons.prems(1) w by (force simp: image_iff)
    then have "apply_writes ws (d[n := c]) ! m = d[n := c] ! m" by (rule apply_writes_other)
    then show ?thesis using True w Cons.prems(3) by simp
  qed (use Cons w in auto)
qed simp

lemma put_writes_at: "distinct (map fst ws) \<Longrightarrow> (m, b) \<in> set ws \<Longrightarrow> put_writes ws c m = b"
proof (induction ws arbitrary: c)
  case (Cons w ws)
  obtain n e where w: "w = (n, e)" by fastforce
  show ?case
  proof (cases "(m, b) = w")
    case True
    then have "m \<notin> fst ` set ws" using Cons.prems(1) w by (force simp: image_iff)
    then have "put_writes ws (c(n := e)) m = (c(n := e)) m" by (rule put_writes_other)
    then show ?thesis using True w by simp
  qed (use Cons w in auto)
qed simp

lemma wrote_refl: "bio_ok s \<Longrightarrow> hb s = Map.empty \<Longrightarrow> wrote s s []"
  by (simp add: wrote_def bstep_refl)

lemma wrote_trans: "wrote s t ws \<Longrightarrow> wrote t u vs \<Longrightarrow> wrote s u (ws @ vs)"
  by (auto simp: wrote_def writes_append intro: bstep_trans)

lemma after_write_wrote: "after_write s s' t d \<Longrightarrow> hb s' = Map.empty \<Longrightarrow> wrote s s' [(t, d)]"
  by (simp add: after_write_def wrote_def)

lemma bstep_lg:
  assumes "bstep s (s' :: 'b lg_scheme)"
  shows "ldev s' = ldev s" "lstart s' = lstart s" "lh_n s' = lh_n s" "lh_block s' = lh_block s" "lsize s' = lsize s"
    "outstanding s' = outstanding s" "committing s' = committing s" "cur s' = cur s"
  using assms unfolding bstep_def by (cases s; cases s'; auto)+

section \<open>The steps of commit and recovery\<close>

definition lpos :: "'b lg_scheme \<Rightarrow> nat \<Rightarrow> nat" where
  "lpos s i = nat (lstart s) + i"

definition geometry :: "'b lg_scheme \<Rightarrow> nat \<Rightarrow> bool" where
  "geometry s n \<longleftrightarrow> bio_ok s \<and> hb s = Map.empty \<and> ldev s = 1 \<and> 0 \<le> lstart s \<and> lpos s n < length (disk s) \<and> length (disk s) < 2 ^ 31"

lemma unat_lpos:
  assumes "geometry s n" "i \<le> n"
  shows "unat (of_int (lstart s + int i) :: uint) = lpos s i" "lpos s i < length (disk s)"
proof -
  show l: "lpos s i < length (disk s)" using assms by (simp add: geometry_def lpos_def)
  then have "nat (lstart s) + i < 2 ^ 32" using assms by (simp add: geometry_def lpos_def)
  moreover have "lstart s + int i = int (nat (lstart s) + i)" using assms by (simp add: geometry_def)
  ultimately show "unat (of_int (lstart s + int i) :: uint) = lpos s i"
    unfolding lpos_def by (simp only: of_int_of_nat_eq unat_of_nat) simp
qed

lemma pinned_range: "bio_ok s \<Longrightarrow> n \<in> pinned s \<Longrightarrow> n < length (disk s)"
  using bio_okD(2) by (fastforce simp: pinned_def buf_ok_def for_block_def)

lemma pinned_finite: "finite (pinned s)"
proof (rule finite_subset)
  show "pinned s \<subseteq> (\<lambda>b. unat (bblockno (buf_at s b))) ` {..<NBUF}" by (auto simp: pinned_def for_block_def)
qed simp

text \<open>Two buffers are read, the second block being pinned or a free buffer being left, and the
  first or the second is written with the contents of the other.\<close>

lemma read_two:
  assumes "bio_ok s" "hb s = Map.empty" "unat x < length (disk s)" "unat y < length (disk s)" "unat x \<noteq> unat y"
    "card (pinned s) < NBUF" "unat y \<in> pinned s \<or> card (pinned s) + 1 < NBUF"
  shows "\<exists>bx by s1 s2. bread 1 x s = Inr (bx, s1) \<and> bread 1 y s1 = Inr (by, s2) \<and> bstep s s1 \<and> bstep s s2 \<and> bio_ok s2 \<and>
    hb s2 = Map.empty(unat x := Some bx, unat y := Some by) \<and> cont s2 = cont s \<and> pinned s2 = pinned s \<and> disk s2 = disk s \<and> writes s2 = writes s"
proof -
  have "hb s (unat x) = None" "card (pinned s \<union> dom (hb s)) < NBUF" using assms(2,6) by simp_all
  then obtain bx s1 where r: "bread 1 x s = Inr (bx, s1)" "bstep s s1" "bio_ok s1" "hb s1 = (hb s)(unat x := Some bx)"
    "cont s1 = cont s" "pinned s1 = pinned s" "disk s1 = disk s" "writes s1 = writes s"
    using bread_view [OF assms(1,3)] by blast
  have "card (pinned s1 \<union> dom (hb s1)) \<le> card (pinned s) + 1"
    using r(4,6) assms(2) card_insert_le_m1 pinned_finite [of s] by (simp add: card_insert_if)
  then have "hb s1 (unat y) = None" "unat y < length (disk s1)" "unat y \<in> pinned s1 \<or> card (pinned s1 \<union> dom (hb s1)) < NBUF"
    using r assms(2,4,5,7) by auto
  then obtain by' s2 where "bread 1 y s1 = Inr (by', s2)" "bstep s1 s2" "bio_ok s2" "hb s2 = (hb s1)(unat y := Some by')"
    "cont s2 = cont s1" "pinned s2 = pinned s1" "disk s2 = disk s1" "writes s2 = writes s1"
    using bread_view [OF r(3)] by blast
  with r assms(2) show ?thesis by (intro exI [of _ bx] exI [of _ by'] exI [of _ s1] exI [of _ s2]) (auto intro: bstep_trans)
qed

lemma write_log_one_ok:
  assumes "geometry s n" "i < n" "unat (lh_block s ! i) \<in> pinned s" "lpos s (Suc i) \<notin> pinned s" "card (pinned s) < NBUF"
  shows "\<exists>s'. write_log_one i s = Inr s' \<and> wrote s s' [(lpos s (Suc i), cont s (unat (lh_block s ! i)))]"
proof -
  let ?x = "of_int (lstart s + int (Suc i)) :: uint" and ?y = "lh_block s ! i"
  have g: "bio_ok s" "hb s = Map.empty" "ldev s = 1" using assms(1) by (simp_all add: geometry_def)
  note l = unat_lpos [OF assms(1), of "Suc i"]
  have x: "unat ?x = lpos s (Suc i)" "unat ?x < length (disk s)" using l assms(2) by simp_all
  have y: "unat ?y < length (disk s)" using pinned_range [OF g(1) assms(3)] .
  have ne: "unat ?x \<noteq> unat ?y" using x(1) assms(3,4) by auto
  obtain bt ba s1 s2 where r: "bread 1 ?x s = Inr (bt, s1)" "bread 1 ?y s1 = Inr (ba, s2)" "bstep s s1" "bstep s s2" "bio_ok s2"
    "hb s2 = Map.empty(unat ?x := Some bt, unat ?y := Some ba)" "cont s2 = cont s" "pinned s2 = pinned s" "disk s2 = disk s" "writes s2 = writes s"
    using read_two [OF g(1,2) x(2) y ne assms(5) disjI1 [OF assms(3)]] by blast
  have h: "hb s2 (unat ?x) = Some bt" "hb s2 (unat ?y) = Some ba" "unat ?y \<in> pinned s2" using r(6,8) ne assms(3) by auto
  obtain s' where c: "bindE (bwrite bt (upd_data bt (\<lambda>_. bdata (buf_at s2 ba)) s2)) (\<lambda>s. bindE (brelse ba s) (brelse bt)) = Inr s'"
    "after_write s2 s' (unat ?x) (cont s2 (unat ?y))" "hb s' = (hb s2)(unat ?y := None, unat ?x := None)"
    using copy_tail [OF r(5) h(1,2) ne disjI1 [OF h(3)]] by (elim exE conjE) (rule that)
  have "write_log_one i s = Inr s'"
    using r(1,2) c(1) g(3) bstep_lg [OF r(3)] by (simp add: write_log_one_def ac_simps)
  moreover have "wrote s s' [(lpos s (Suc i), cont s (unat ?y))]"
    using c(2,3) r x(1) by (auto simp: wrote_def after_write_def intro: bstep_trans)
  ultimately show ?thesis by blast
qed

lemma install_one_ok:
  assumes "geometry s n" "i < n" "unat (lh_block s ! i) < length (disk s)" "unat (lh_block s ! i) \<noteq> lpos s (Suc i)"
    "lpos s (Suc i) \<notin> pinned s" "card (pinned s) < NBUF" "unat (lh_block s ! i) \<in> pinned s \<or> card (pinned s) + 1 < NBUF"
  shows "\<exists>s'. install_one i s = Inr s' \<and> wrote s s' [(unat (lh_block s ! i), cont s (lpos s (Suc i)))]"
proof -
  let ?x = "of_int (lstart s + int (Suc i)) :: uint" and ?y = "lh_block s ! i"
  have g: "bio_ok s" "hb s = Map.empty" "ldev s = 1" using assms(1) by (simp_all add: geometry_def)
  note l = unat_lpos [OF assms(1), of "Suc i"]
  have x: "unat ?x = lpos s (Suc i)" "unat ?x < length (disk s)" using l assms(2) by simp_all
  have ne: "unat ?x \<noteq> unat ?y" using x(1) assms(4) by auto
  obtain ba bt s1 s2 where r: "bread 1 ?x s = Inr (ba, s1)" "bread 1 ?y s1 = Inr (bt, s2)" "bstep s s1" "bstep s s2" "bio_ok s2"
    "hb s2 = Map.empty(unat ?x := Some ba, unat ?y := Some bt)" "cont s2 = cont s" "pinned s2 = pinned s" "disk s2 = disk s" "writes s2 = writes s"
    using read_two [OF g(1,2) x(2) assms(3) ne assms(6,7)] by blast
  have d: "cont s2 (unat ?x) = disk s2 ! unat ?x" using clean_disk [OF g(1), of "unat ?x"] g(2) r(7,9) x(1) assms(5) by simp
  have h: "hb s2 (unat ?x) = Some ba" "hb s2 (unat ?y) = Some bt" using r(6) ne by auto
  obtain s' where c: "bindE (bwrite bt (upd_data bt (\<lambda>_. bdata (buf_at s2 ba)) s2)) (\<lambda>s. bindE (brelse ba s) (brelse bt)) = Inr s'"
    "after_write s2 s' (unat ?y) (cont s2 (unat ?x))" "hb s' = (hb s2)(unat ?x := None, unat ?y := None)"
    using copy_tail [OF r(5) h(2,1) ne [symmetric] disjI2 [OF d]] by (elim exE conjE) (rule that)
  have "install_one i s = Inr s'"
    using r(1,2) c(1) g(3) bstep_lg [OF r(3)] by (simp add: install_one_def ac_simps)
  moreover have "wrote s s' [(unat ?y, cont s (lpos s (Suc i)))]"
    using c(2,3) r x(1) by (auto simp: wrote_def after_write_def intro: bstep_trans)
  ultimately show ?thesis by blast
qed

text \<open>The header block.\<close>

lemma length_wr_addrs [simp]: "length (wr_addrs at as d) = length d"
  by (induction at as d rule: wr_addrs.induct) auto

lemma rd32_wr_addrs_below: "j + 3 < at \<Longrightarrow> rd32 (wr_addrs at as d) j = rd32 d j"
  by (induction at as d rule: wr_addrs.induct) auto

lemma rd32_wr_addrs: "i < length as \<Longrightarrow> at + 4 * length as \<le> length d \<Longrightarrow> rd32 (wr_addrs at as d) (at + 4 * i) = as ! i"
proof (induction at as d arbitrary: i rule: wr_addrs.induct)
  case (2 at a as d)
  show ?case
  proof (cases i)
    case 0
    with 2(3) show ?thesis by (simp add: rd32_wr_addrs_below)
  next
    case (Suc k)
    with 2(1) [of k] 2(2,3) show ?thesis by (simp add: algebra_simps)
  qed
qed simp

definition header :: "'b lg_scheme \<Rightarrow> uchar list \<Rightarrow> uchar list" where
  "header s d = wr_addrs 4 (take (nat (lh_n s)) (lh_block s)) (wr32 0 (of_int (lh_n s)) d)"

lemma write_head_ok:
  assumes "geometry s n" "lpos s 0 \<notin> pinned s" "card (pinned s) < NBUF"
  shows "\<exists>s'. write_head s = Inr s' \<and> wrote s s' [(lpos s 0, header s (cont s (lpos s 0)))]"
proof -
  let ?x = "of_int (lstart s) :: uint"
  have g: "bio_ok s" "hb s = Map.empty" "ldev s = 1" using assms(1) by (simp_all add: geometry_def)
  have x: "unat ?x = lpos s 0" "unat ?x < length (disk s)" using unat_lpos [OF assms(1), of 0] by simp_all
  have "hb s (unat ?x) = None" "card (pinned s \<union> dom (hb s)) < NBUF" using g(2) assms(3) by simp_all
  then obtain b s1 where r: "bread 1 ?x s = Inr (b, s1)" "bstep s s1" "bio_ok s1" "hb s1 = (hb s)(unat ?x := Some b)"
    "cont s1 = cont s" "pinned s1 = pinned s" "disk s1 = disk s" "writes s1 = writes s" "bdata (buf_at s1 b) = cont s (unat ?x)"
    using bread_view [OF g(1) x(2)] by blast
  have h1: "hb s1 (unat ?x) = Some b" using r(4) by simp
  have len: "length (header s (cont s (unat ?x))) = BSIZE"
    using held_buf(8) [OF r(3) h1] r(9) by (simp add: header_def buf_ok_def)
  obtain s2 where w: "bwrite b (upd_data b (\<lambda>_. header s (cont s (unat ?x))) s1) = Inr s2"
    "after_write s1 s2 (unat ?x) (header s (cont s (unat ?x)))" "hb s2 = hb s1"
    using write_held [OF r(3) h1 len] by blast
  then have "bio_ok s2" "hb s2 (unat ?x) = Some b" "cont s2 (unat ?x) = disk s2 ! unat ?x"
    using h1 x(2) r(7) by (simp_all add: after_write_def)
  then obtain s3 where f: "brelse b s2 = Inr s3" "bstep s2 s3" "bio_ok s3" "hb s3 = (hb s2)(unat ?x := None)" "cont s3 = cont s2"
    "pinned s3 = pinned s2" "disk s3 = disk s2" "writes s3 = writes s2"
    using brelse_view by blast
  have "upd_data b (\<lambda>d. wr_addrs 4 (take (nat (lh_n s1)) (lh_block s1)) (wr32 0 (of_int (lh_n s1)) d)) s1 =
      upd_data b (\<lambda>_. header s (cont s (unat ?x))) s1"
    using r(9) bstep_lg [OF r(2)] by (simp add: upd_data_def upd_buf_def header_def)
  then have "write_head s = Inr s3" using r(1) w(1) f(1) g(3) by (simp add: write_head_def)
  moreover have "wrote s s3 [(lpos s 0, header s (cont s (lpos s 0)))]"
    using w(2,3) f r x(1) g(2) by (auto simp: wrote_def after_write_def intro: bstep_trans)
  ultimately show ?thesis by blast
qed

section \<open>The loops of the log\<close>

definition blk :: "'b lg_scheme \<Rightarrow> nat \<Rightarrow> nat" where
  "blk s i = unat (lh_block s ! i)"

text \<open>The blocks of the transaction in the header in memory lie on the disk, outside the log, each
  once.\<close>

definition blks_ok :: "'b lg_scheme \<Rightarrow> nat \<Rightarrow> bool" where
  "blks_ok s n \<longleftrightarrow> (\<forall>i < n. blk s i < length (disk s) \<and> blk s i \<notin> lpos s ` {..n}) \<and> inj_on (blk s) {..<n}"

lemma blks_okD:
  assumes "blks_ok s n" "i < n"
  shows "blk s i < length (disk s)" "j \<le> n \<Longrightarrow> blk s i \<noteq> lpos s j" "j < n \<Longrightarrow> blk s i = blk s j \<longleftrightarrow> i = j"
  using assms by (auto simp: blks_ok_def inj_on_def)

lemma wrote_keep:
  assumes "wrote s s' ws"
  shows "geometry s n \<Longrightarrow> geometry s' n" "lpos s' = lpos s" "blk s' = blk s" "lh_n s' = lh_n s" "length (disk s') = length (disk s)"
    "blks_ok s n \<Longrightarrow> blks_ok s' n" "lh_block s' = lh_block s" "ldev s' = ldev s" "lstart s' = lstart s"
    "outstanding s' = outstanding s"
proof -
  have b: "ldev s' = ldev s" "lstart s' = lstart s" "lh_n s' = lh_n s" "lh_block s' = lh_block s"
    using assms bstep_lg [of s s'] by (auto simp: wrote_def)
  have l: "lpos s' = lpos s" "blk s' = blk s" using b by (simp_all add: lpos_def blk_def fun_eq_iff)
  have d: "length (disk s') = length (disk s)" "bio_ok s'" "hb s' = Map.empty" using assms by (simp_all add: wrote_def)
  show "geometry s n \<Longrightarrow> geometry s' n" "blks_ok s n \<Longrightarrow> blks_ok s' n"
    using b l d by (simp_all add: geometry_def blks_ok_def)
qed (use assms bstep_lg [of s s'] in \<open>auto simp: wrote_def lpos_def blk_def fun_eq_iff\<close>)

lemma wrote_card: "wrote s s' ws \<Longrightarrow> card (pinned s') \<le> card (pinned s)"
  by (simp add: wrote_def card_mono pinned_finite)

definition logw :: "'b lg_scheme \<Rightarrow> nat \<Rightarrow> (nat \<times> uchar list) list" where
  "logw s k = map (\<lambda>i. (lpos s (Suc i), cont s (blk s i))) [0..<k]"

definition instw :: "'b lg_scheme \<Rightarrow> nat \<Rightarrow> (nat \<times> uchar list) list" where
  "instw s k = map (\<lambda>i. (blk s i, cont s (lpos s (Suc i)))) [0..<k]"

lemma fst_logw [simp]: "fst ` set (logw s k) = (\<lambda>i. lpos s (Suc i)) ` {..<k}" "map fst (logw s k) = map (\<lambda>i. lpos s (Suc i)) [0..<k]"
  by (force simp: logw_def)+

lemma fst_instw [simp]: "fst ` set (instw s k) = blk s ` {..<k}" "map fst (instw s k) = map (blk s) [0..<k]"
  by (force simp: instw_def)+

lemma length_logw [simp]: "length (logw s k) = k" "length (instw s k) = k"
  by (simp_all add: logw_def instw_def)

lemma write_log_ok:
  assumes "geometry s n" "blks_ok s n" "blk s ` {..<n} \<subseteq> pinned s" "lpos s ` {..n} \<inter> pinned s = {}" "card (pinned s) < NBUF"
  shows "k \<le> n \<Longrightarrow> \<exists>s'. foldE write_log_one [0..<k] s = Inr s' \<and> wrote s s' (logw s k)"
proof (induction k)
  case 0
  then show ?case using assms(1) by (simp add: logw_def wrote_refl geometry_def)
next
  case (Suc k)
  then obtain s1 where s1: "foldE write_log_one [0..<k] s = Inr s1" "wrote s s1 (logw s k)" by auto
  note keep = wrote_keep [OF s1(2)]
  have p: "pinned s1 = pinned s - (\<lambda>i. lpos s (Suc i)) ` {..<k}" using s1(2) by (simp add: wrote_def)
  have "blk s k \<noteq> lpos s (Suc i)" if "i < k" for i using that Suc.prems by (intro blks_okD(2) [OF assms(2)]) auto
  then have out: "blk s k \<notin> (\<lambda>i. lpos s (Suc i)) ` {..<k}" by blast
  have h: "unat (lh_block s1 ! k) \<in> pinned s1" "lpos s1 (Suc k) \<notin> pinned s1" "card (pinned s1) < NBUF" "k < n"
    using p out assms(3-5) Suc.prems keep(2,7) wrote_card [OF s1(2)] by (auto simp: blk_def)
  obtain s2 where s2: "write_log_one k s1 = Inr s2" "wrote s1 s2 [(lpos s1 (Suc k), cont s1 (unat (lh_block s1 ! k)))]"
    using write_log_one_ok [OF keep(1) [OF assms(1)] h(4,1-3)] by blast
  have "cont s1 (blk s k) = cont s (blk s k)" using s1(2) out by (simp add: wrote_def put_writes_other)
  then have "logw s (Suc k) = logw s k @ [(lpos s1 (Suc k), cont s1 (unat (lh_block s1 ! k)))]"
    using keep(2,7) by (simp add: logw_def blk_def)
  then show ?case using s1(1) s2(1) wrote_trans [OF s1(2) s2(2)] by (simp add: foldE_append)
qed

lemma install_ok:
  assumes "geometry s n" "blks_ok s n" "lpos s ` {..n} \<inter> pinned s = {}" "card (pinned s) < NBUF"
    "blk s ` {..<n} \<subseteq> pinned s \<or> card (pinned s) + 1 < NBUF"
  shows "k \<le> n \<Longrightarrow> \<exists>s'. foldE install_one [0..<k] s = Inr s' \<and> wrote s s' (instw s k)"
proof (induction k)
  case 0
  then show ?case using assms(1) by (simp add: instw_def wrote_refl geometry_def)
next
  case (Suc k)
  then obtain s1 where s1: "foldE install_one [0..<k] s = Inr s1" "wrote s s1 (instw s k)" by auto
  note keep = wrote_keep [OF s1(2)] and b = blks_okD [OF assms(2), of k]
  have p: "pinned s1 = pinned s - blk s ` {..<k}" using s1(2) by (simp add: wrote_def)
  have "blk s k \<noteq> blk s i" if "i < k" for i using that Suc.prems b(3) [of i] by simp
  then have out: "blk s k \<notin> blk s ` {..<k}" by blast
  have "lpos s (Suc k) \<noteq> blk s i" if "i < k" for i using that Suc.prems by (intro blks_okD(2) [OF assms(2), symmetric]) auto
  then have lout: "lpos s (Suc k) \<notin> blk s ` {..<k}" by blast
  have h: "unat (lh_block s1 ! k) < length (disk s1)" "unat (lh_block s1 ! k) \<noteq> lpos s1 (Suc k)" "k < n"
    using keep(2,5,7) b Suc.prems by (auto simp: blk_def)
  have p: "lpos s1 (Suc k) \<notin> pinned s1" "card (pinned s1) < NBUF" "unat (lh_block s1 ! k) \<in> pinned s1 \<or> card (pinned s1) + 1 < NBUF"
    using p out assms(3-5) Suc.prems keep(2,7) wrote_card [OF s1(2)] by (auto simp: blk_def)
  obtain s2 where s2: "install_one k s1 = Inr s2" "wrote s1 s2 [(unat (lh_block s1 ! k), cont s1 (lpos s1 (Suc k)))]"
    using install_one_ok [OF keep(1) [OF assms(1)] h(3,1,2) p] by blast
  have "cont s1 (lpos s (Suc k)) = cont s (lpos s (Suc k))" using s1(2) lout by (simp add: wrote_def put_writes_other)
  then have "instw s (Suc k) = instw s k @ [(unat (lh_block s1 ! k), cont s1 (lpos s1 (Suc k)))]"
    using keep(2,7) by (simp add: instw_def blk_def)
  then show ?case using s1(1) s2(1) wrote_trans [OF s1(2) s2(2)] by (simp add: foldE_append)
qed

section \<open>What a disk stands for\<close>

text \<open>The blocks that the header names, the writes that installing them makes, and the blocks as
  recovery leaves them.\<close>

definition hblocks :: "uchar list \<Rightarrow> nat list" where
  "hblocks h = map unat (rd_addrs h 4 (nat (sint (rd32 h 0))))"

definition logwrites :: "nat \<Rightarrow> uchar list list \<Rightarrow> (nat \<times> uchar list) list" where
  "logwrites l d = (let bs = hblocks (d ! l) in map (\<lambda>i. (bs ! i, d ! (l + Suc i))) [0..<length bs])"

definition image :: "nat \<Rightarrow> uchar list list \<Rightarrow> nat \<Rightarrow> uchar list" where
  "image l d = put_writes (logwrites l d) (\<lambda>m. d ! m)"

definition hdr_ok :: "nat \<Rightarrow> uchar list list \<Rightarrow> bool" where
  "hdr_ok l d \<longleftrightarrow> (let bs = hblocks (d ! l) in sint (rd32 (d ! l) 0) \<le> LOGSIZE \<and> l + length bs < length d \<and> distinct bs \<and>
     (\<forall>b \<in> set bs. b < length d \<and> \<not> (l \<le> b \<and> b \<le> l + length bs)))"

lemma hblocks_0: "rd32 h 0 = 0 \<Longrightarrow> hblocks h = []"
  by (simp add: hblocks_def rd_addrs_def)

lemma fst_logwrites: "fst ` set (logwrites l d) = set (hblocks (d ! l))" "map fst (logwrites l d) = hblocks (d ! l)"
proof -
  show *: "map fst (logwrites l d) = hblocks (d ! l)" by (auto simp: logwrites_def Let_def o_def map_nth)
  show "fst ` set (logwrites l d) = set (hblocks (d ! l))" unfolding * [symmetric] by simp
qed

lemma image_empty: "rd32 (d ! l) 0 = 0 \<Longrightarrow> image l d m = d ! m"
  by (simp add: image_def logwrites_def hblocks_0)

lemma image_other: "m \<notin> set (hblocks (d ! l)) \<Longrightarrow> image l d m = d ! m"
  by (simp add: image_def put_writes_other fst_logwrites)

lemma image_at: "distinct (hblocks (d ! l)) \<Longrightarrow> i < length (hblocks (d ! l)) \<Longrightarrow> image l d (hblocks (d ! l) ! i) = d ! (l + Suc i)"
  unfolding image_def by (rule put_writes_at) (auto simp: fst_logwrites, auto simp: logwrites_def Let_def)

text \<open>The writes of a commit and of a recovery.\<close>

definition commitw :: "nat \<Rightarrow> nat list \<Rightarrow> (nat \<Rightarrow> uchar list) \<Rightarrow> uchar list \<Rightarrow> uchar list \<Rightarrow> (nat \<times> uchar list) list" where
  "commitw l bs c h h0 = map (\<lambda>i. (l + Suc i, c (bs ! i))) [0..<length bs] @ (l, h) # map (\<lambda>b. (b, c b)) bs @ [(l, h0)]"

definition recoverw :: "nat \<Rightarrow> uchar list list \<Rightarrow> (nat \<times> uchar list) list" where
  "recoverw l d = logwrites l d @ [(l, wr32 0 0 (d ! l))]"

lemma take_three:
  obtains "k \<le> length xs" "take k (xs @ y # ys @ [z]) = take k xs"
  | j where "length xs < k" "take k (xs @ y # ys @ [z]) = xs @ y # take j ys"
  | "length xs < k" "take k (xs @ y # ys @ [z]) = xs @ y # ys @ [z]"
proof (cases "k \<le> length xs")
  case False
  then obtain j where j: "k = length xs + Suc j" using less_imp_Suc_add [of "length xs" k] by auto
  show ?thesis by (cases "j \<le> length ys") (use that j False in \<open>auto simp: not_le Suc_le_eq\<close>)
qed (use that in auto)

lemma recover_image:
  assumes "hdr_ok l d" "length (d ! l) = BSIZE" "m < length d" "\<not> (l \<le> m \<and> m \<le> l + length (hblocks (d ! l)))"
  shows "image l (apply_writes (take k (recoverw l d)) d) m = image l d m"
    and "hdr_ok l (apply_writes (take k (recoverw l d)) d)"
    and "apply_writes (recoverw l d) d ! m = image l d m"
proof -
  let ?lw = "logwrites l d" and ?bs = "hblocks (d ! l)"
  have I: "l < length d" "distinct ?bs" "\<And>b. b \<in> set ?bs \<Longrightarrow> b < length d \<and> (b < l \<or> l + length ?bs < b)"
    using assms(1) by (auto simp: hdr_ok_def Let_def)
  have log: "apply_writes (take j ?lw) d ! p = d ! p" if "l \<le> p" "p \<le> l + length ?bs" for j p
  proof (rule apply_writes_other)
    have "p \<notin> fst ` set ?lw" unfolding fst_logwrites using that I(3) by force
    then show "p \<notin> fst ` set (take j ?lw)" using set_take_subset by fast
  qed
  have img: "image l (apply_writes (take j ?lw) d) m = image l d m" for j
  proof (cases "m \<in> set ?bs")
    case True
    then obtain i where i: "i < length ?bs" "m = ?bs ! i" by (auto simp: in_set_conv_nth)
    then show ?thesis using image_at [of "apply_writes (take j ?lw) d" l i] image_at [of d l i] I(2) log [of l j] log [of "l + Suc i" j] by simp
  next
    case False
    then have "m \<notin> fst ` set (take j ?lw)" using set_take_subset [of j ?lw] fst_logwrites(1) by fast
    then show ?thesis using False log [of l j] by (simp add: image_other apply_writes_other)
  qed
  have all: "apply_writes ?lw d ! m = image l d m"
  proof (cases "m \<in> set ?bs")
    case True
    then obtain i where i: "i < length ?bs" "m = ?bs ! i" by (auto simp: in_set_conv_nth)
    moreover have "(?bs ! i, d ! (l + Suc i)) \<in> set ?lw" using i by (auto simp: logwrites_def Let_def)
    ultimately show ?thesis using apply_writes_at [of ?lw m "d ! (l + Suc i)" d] image_at [OF I(2) i(1)] I(2) assms(3) by (simp add: fst_logwrites)
  qed (simp add: image_other apply_writes_other fst_logwrites)
  have full: "apply_writes (recoverw l d) d = (apply_writes ?lw d)[l := wr32 0 0 (d ! l)]"
    by (simp add: recoverw_def writes_append)
  have z: "rd32 (apply_writes (recoverw l d) d ! l) 0 = 0" using I(1) assms(2) by (simp add: full BSIZE_def)
  have ml: "m \<noteq> l" using assms(4) by auto
  show "apply_writes (recoverw l d) d ! m = image l d m" using all ml by (simp add: full)
  then show "image l (apply_writes (take k (recoverw l d)) d) m = image l d m"
    using img [of k] z by (cases "k \<le> length ?lw") (auto simp: recoverw_def image_empty)
  have "hdr_ok l (apply_writes (take k ?lw) d)" using assms(1) log [of l k] by (simp add: hdr_ok_def)
  moreover have "hdr_ok l (apply_writes (recoverw l d) d)" using z I(1) by (simp add: hdr_ok_def hblocks_0 LOGSIZE_def MAXOPBLOCKS_def)
  ultimately show "hdr_ok l (apply_writes (take k (recoverw l d)) d)"
    by (cases "k \<le> length ?lw") (auto simp: recoverw_def)
qed

text \<open>A commit on the disk: the header write is the commit point.\<close>

definition commit_disk :: "nat \<Rightarrow> nat list \<Rightarrow> (nat \<Rightarrow> uchar list) \<Rightarrow> uchar list \<Rightarrow> uchar list \<Rightarrow> uchar list list \<Rightarrow> bool" where
  "commit_disk l bs c h h0 d \<longleftrightarrow> l + length bs < length d \<and> int (length bs) \<le> LOGSIZE \<and> distinct bs \<and>
     (\<forall>b \<in> set bs. b < length d \<and> (b < l \<or> l + length bs < b)) \<and> rd32 (d ! l) 0 = 0 \<and>
     hblocks h = bs \<and> sint (rd32 h 0) = int (length bs) \<and> rd32 h0 0 = 0 \<and> (\<forall>m < length d. m \<notin> set bs \<longrightarrow> c m = d ! m)"

lemma commit_diskD:
  assumes "commit_disk l bs c h h0 d"
  shows "l + length bs < length d" "int (length bs) \<le> LOGSIZE" "distinct bs" "b \<in> set bs \<Longrightarrow> b < length d \<and> (b < l \<or> l + length bs < b)"
    "rd32 (d ! l) 0 = 0" "hblocks h = bs" "sint (rd32 h 0) = int (length bs)" "rd32 h0 0 = 0" "m \<notin> set bs \<Longrightarrow> m < length d \<Longrightarrow> c m = d ! m"
  using assms unfolding commit_disk_def by blast+

definition copies :: "nat \<Rightarrow> nat list \<Rightarrow> (nat \<Rightarrow> uchar list) \<Rightarrow> (nat \<times> uchar list) list" where
  "copies l bs c = map (\<lambda>i. (l + Suc i, c (bs ! i))) [0..<length bs]"

definition installs :: "nat list \<Rightarrow> (nat \<Rightarrow> uchar list) \<Rightarrow> (nat \<times> uchar list) list" where
  "installs bs c = map (\<lambda>b. (b, c b)) bs"

lemma fst_copies: "fst ` set (take j (copies l bs c)) \<subseteq> {l<..l + length bs}"
proof -
  have "fst ` set (copies l bs c) \<subseteq> {l<..l + length bs}" by (auto simp: copies_def)
  then show ?thesis using set_take_subset [of j "copies l bs c"] by fast
qed

lemma fst_installs: "fst ` set (take j (installs bs c)) \<subseteq> set bs"
  unfolding installs_def take_map using set_take_subset [of j bs] by auto

lemma commit_before:
  assumes cd: "commit_disk l bs c h h0 d" and "\<not> (l \<le> m \<and> m \<le> l + length bs)"
  shows "image l (apply_writes (take j (copies l bs c)) d) m = d ! m" "hdr_ok l (apply_writes (take j (copies l bs c)) d)"
proof -
  have "apply_writes (take j (copies l bs c)) d ! p = d ! p" if "\<not> (l < p \<and> p \<le> l + length bs)" for p
    using that fst_copies [of j l bs c] by (intro apply_writes_other) auto
  then have "apply_writes (take j (copies l bs c)) d ! l = d ! l" "apply_writes (take j (copies l bs c)) d ! m = d ! m" using assms by auto
  then show "image l (apply_writes (take j (copies l bs c)) d) m = d ! m" "hdr_ok l (apply_writes (take j (copies l bs c)) d)"
    using commit_diskD(5) [OF cd] commit_diskD(1,2) [OF cd] by (simp_all add: image_empty hdr_ok_def hblocks_0)
qed

abbreviation middle :: "nat \<Rightarrow> nat list \<Rightarrow> (nat \<Rightarrow> uchar list) \<Rightarrow> uchar list \<Rightarrow> uchar list list \<Rightarrow> nat \<Rightarrow> uchar list list" where
  "middle l bs c h d j \<equiv> apply_writes (take j (installs bs c)) ((apply_writes (copies l bs c) d)[l := h])"

lemma middle_at:
  assumes cd: "commit_disk l bs c h h0 d"
  shows "middle l bs c h d j ! l = h" "i < length bs \<Longrightarrow> middle l bs c h d j ! (l + Suc i) = c (bs ! i)"
    "m \<notin> set bs \<Longrightarrow> \<not> (l \<le> m \<and> m \<le> l + length bs) \<Longrightarrow> middle l bs c h d j ! m = d ! m"
proof -
  have out: "middle l bs c h d j ! p = (apply_writes (copies l bs c) d)[l := h] ! p" if "l \<le> p" "p \<le> l + length bs" for p
    using that commit_diskD(4) [OF cd] fst_installs [of j bs c] by (intro apply_writes_other) force
  show "middle l bs c h d j ! l = h" using out [of l] commit_diskD(1,2) [OF cd] by simp
  show "middle l bs c h d j ! (l + Suc i) = c (bs ! i)" if "i < length bs"
  proof -
    have "apply_writes (copies l bs c) d ! (l + Suc i) = c (bs ! i)"
      by (rule apply_writes_at) (use that commit_diskD(1,2) [OF cd] in \<open>auto simp: copies_def o_def distinct_map inj_on_def\<close>)
    then show ?thesis using out [of "l + Suc i"] that by simp
  qed
  show "middle l bs c h d j ! m = d ! m" if "m \<notin> set bs" "\<not> (l \<le> m \<and> m \<le> l + length bs)"
  proof -
    have "middle l bs c h d j ! m = (apply_writes (copies l bs c) d)[l := h] ! m"
      using that fst_installs [of j bs c] by (intro apply_writes_other) auto
    moreover have "apply_writes (copies l bs c) d ! m = d ! m"
      using that fst_copies [of "length (copies l bs c)" l bs c] by (intro apply_writes_other) auto
    ultimately show ?thesis using that by (cases "m = l") auto
  qed
qed

lemma commit_after:
  assumes cd: "commit_disk l bs c h h0 d" and "\<not> (l \<le> m \<and> m \<le> l + length bs)" "m < length d"
  shows "image l (middle l bs c h d j) m = c m" "hdr_ok l (middle l bs c h d j)"
proof -
  have hb: "hblocks (middle l bs c h d j ! l) = bs" using commit_diskD(6) [OF cd] middle_at(1) [OF cd] by simp
  show "image l (middle l bs c h d j) m = c m"
  proof (cases "m \<in> set bs")
    case True
    then obtain i where "i < length bs" "m = bs ! i" by (auto simp: in_set_conv_nth)
    then show ?thesis using image_at [of "middle l bs c h d j" l i] hb commit_diskD(3) [OF cd] middle_at(2) [OF cd] by simp
  next
    case False
    then show ?thesis using image_other [of m "middle l bs c h d j" l] hb middle_at(3) [OF cd] assms commit_diskD(9) [OF cd] by simp
  qed
  show "hdr_ok l (middle l bs c h d j)" using hb commit_diskD(7) [OF cd] middle_at(1) [OF cd] commit_diskD(1,2) [OF cd] commit_diskD(3) [OF cd] commit_diskD(4) [OF cd] by (fastforce simp: hdr_ok_def)
qed

lemma commit_finished:
  assumes cd: "commit_disk l bs c h h0 d" and "\<not> (l \<le> m \<and> m \<le> l + length bs)" "m < length d"
  shows "(middle l bs c h d (length bs))[l := h0] ! m = c m" "image l ((middle l bs c h d (length bs))[l := h0]) m = c m" "hdr_ok l ((middle l bs c h d (length bs))[l := h0])"
proof -
  have "middle l bs c h d (length bs) ! m = c m"
  proof (cases "m \<in> set bs")
    case True
    have "take (length bs) (installs bs c) = (installs bs c)" by (simp add: installs_def)
    moreover have "apply_writes (installs bs c) ((apply_writes (copies l bs c) d)[l := h]) ! m = c m"
      by (rule apply_writes_at) (use True commit_diskD(3) [OF cd] assms in \<open>auto simp: installs_def o_def\<close>)
    ultimately show ?thesis by simp
  qed (use middle_at(3) [OF cd] assms commit_diskD(9) [OF cd] in simp)
  moreover have "m \<noteq> l" using assms by auto
  ultimately show v: "(middle l bs c h d (length bs))[l := h0] ! m = c m" by simp
  have "(middle l bs c h d (length bs))[l := h0] ! l = h0" using commit_diskD(1,2) [OF cd] by simp
  with v commit_diskD(1,2) [OF cd] commit_diskD(8) [OF cd] show "image l ((middle l bs c h d (length bs))[l := h0]) m = c m" "hdr_ok l ((middle l bs c h d (length bs))[l := h0])"
    by (simp_all add: image_empty hdr_ok_def hblocks_0 LOGSIZE_def MAXOPBLOCKS_def)
qed

lemma commit_image:
  assumes cd: "commit_disk l bs c h h0 d" and "\<not> (l \<le> m \<and> m \<le> l + length bs)" "m < length d"
  shows "image l (apply_writes (take k (commitw l bs c h h0)) d) m = (if k \<le> length bs then d ! m else c m)"
    "hdr_ok l (apply_writes (take k (commitw l bs c h h0)) d)"
proof -
  have w: "commitw l bs c h h0 = (copies l bs c) @ (l, h) # (installs bs c) @ [(l, h0)]" by (simp add: commitw_def copies_def installs_def)
  have len: "length (copies l bs c) = length bs" "take (length bs) (installs bs c) = (installs bs c)" by (simp_all add: copies_def installs_def)
  have "image l (apply_writes (take k (commitw l bs c h h0)) d) m = (if k \<le> length bs then d ! m else c m) \<and>
      hdr_ok l (apply_writes (take k (commitw l bs c h h0)) d)"
    by (rule take_three [of k "copies l bs c" "(l, h)" "installs bs c" "(l, h0)"])
      (use commit_before [OF assms(1,2), of k] commit_after [OF assms] commit_finished [OF assms] len in \<open>auto simp: w writes_append\<close>)
  then show "image l (apply_writes (take k (commitw l bs c h h0)) d) m = (if k \<le> length bs then d ! m else c m)"
    "hdr_ok l (apply_writes (take k (commitw l bs c h h0)) d)" by blast+
qed

section \<open>Commit\<close>

lemma lh_upd [simp]:
  fixes s :: "'b lg_scheme"
  shows "bio_ok (s\<lparr>lh_n := n\<rparr>) = bio_ok s" "hb (s\<lparr>lh_n := n\<rparr>) = hb s" "cont (s\<lparr>lh_n := n\<rparr>) = cont s" "pinned (s\<lparr>lh_n := n\<rparr>) = pinned s"
    "bio_ok (s\<lparr>lh_block := b\<rparr>) = bio_ok s" "hb (s\<lparr>lh_block := b\<rparr>) = hb s" "cont (s\<lparr>lh_block := b\<rparr>) = cont s"
    "pinned (s\<lparr>lh_block := b\<rparr>) = pinned s" "lpos (s\<lparr>lh_n := n\<rparr>) = lpos s" "lpos (s\<lparr>lh_block := b\<rparr>) = lpos s"
    "geometry (s\<lparr>lh_n := n\<rparr>) = geometry s"
  by (simp_all add: bio_ok_def hb_def cont_def pinned_def me_def lpos_def geometry_def fun_eq_iff split: option.split)

text \<open>A transaction ready to commit: the blocks of the header are exactly the changed ones, they fit
  into the cache with a buffer to spare, and the log on the disk is empty.\<close>

definition txn :: "'b lg_scheme \<Rightarrow> bool" where
  "txn s \<longleftrightarrow> (let n = nat (lh_n s) in geometry s n \<and> blks_ok s n \<and> pinned s = blk s ` {..<n} \<and> 0 < lh_n s \<and>
     n < NBUF \<and> n \<le> length (lh_block s) \<and> rd32 (disk s ! lpos s 0) 0 = 0)"

lemma txnD:
  assumes "txn s" "n = nat (lh_n s)"
  shows "geometry s n" "blks_ok s n" "pinned s = blk s ` {..<n}" "lh_n s = int n" "0 < n" "n < NBUF" "n \<le> length (lh_block s)"
    "rd32 (disk s ! lpos s 0) 0 = 0" "card (pinned s) < NBUF" "lpos s ` {..n} \<inter> pinned s = {}"
proof -
  show *: "geometry s n" "blks_ok s n" "pinned s = blk s ` {..<n}" "lh_n s = int n" "0 < n" "n < NBUF" "n \<le> length (lh_block s)"
    "rd32 (disk s ! lpos s 0) 0 = 0"
    using assms by (auto simp: txn_def Let_def)
  have "card (blk s ` {..<n}) \<le> n" using card_image_le [of "{..<n}" "blk s"] by simp
  then show "card (pinned s) < NBUF" using *(3,6) by simp
  show "lpos s ` {..n} \<inter> pinned s = {}" unfolding *(3) using blks_okD(2) [OF *(2)] by fastforce
qed

definition tblocks :: "'b lg_scheme \<Rightarrow> nat list" where
  "tblocks s = map (blk s) [0..<nat (lh_n s)]"

definition txn_writes :: "'b lg_scheme \<Rightarrow> (nat \<times> uchar list) list" where
  "txn_writes s = (let h = header s (cont s (lpos s 0)) in commitw (lpos s 0) (tblocks s) (cont s) h (wr32 0 0 h))"

lemma commit_run:
  assumes "txn s"
  shows "\<exists>s'. commit s = Inr s' \<and> bio_ok s' \<and> hb s' = Map.empty \<and> writes s' = writes s @ txn_writes s \<and>
    disk s' = apply_writes (txn_writes s) (disk s) \<and> cont s' = put_writes (txn_writes s) (cont s) \<and> pinned s' = {} \<and> lh_n s' = 0 \<and>
    outstanding s' = outstanding s"
proof -
  define n where "n = nat (lh_n s)"
  note T = txnD [OF assms n_def]
  let ?L = "lpos s 0" and ?h = "header s (cont s (lpos s 0))"
  have Lb: "?L \<noteq> blk s i" if "i < n" for i using blks_okD(2) [OF T(2) that, of 0] by simp
  obtain s1 where s1: "foldE write_log_one [0..<n] s = Inr s1" "wrote s s1 (logw s n)"
    using write_log_ok [OF T(1,2) _ T(10,9) order_refl] T(3) by blast
  note k1 = wrote_keep [OF s1(2)]
  have "(\<lambda>i. lpos s (Suc i)) ` {..<n} \<subseteq> lpos s ` {..n}" by force
  then have p1: "pinned s1 = pinned s" using s1(2) T(10) by (simp add: wrote_def) blast
  have "?L \<notin> fst ` set (logw s n)" by (auto simp: lpos_def)
  then have c1: "cont s1 ?L = cont s ?L" using s1(2) by (simp add: wrote_def put_writes_other)
  have "?L \<notin> pinned s" using T(10) by auto
  then obtain s2 where s2: "write_head s1 = Inr s2" "wrote s1 s2 [(?L, ?h)]"
    using write_head_ok [OF k1(1) [OF T(1)]] p1 c1 k1 T(9) by (auto simp: header_def)
  note w2 = wrote_trans [OF s1(2) s2(2)] and k2 = wrote_keep [OF wrote_trans [OF s1(2) s2(2)]]
  have p2: "pinned s2 = pinned s" using s2(2) p1 \<open>?L \<notin> pinned s\<close> by (simp add: wrote_def)
  obtain s3 where s3: "foldE install_one [0..<n] s2 = Inr s3" "wrote s2 s3 (instw s2 n)"
    using install_ok [OF k2(1) [OF T(1)] k2(6) [OF T(2)] _ _ _ order_refl] p2 k2(2,3) T(3,9,10) by auto
  have c2: "cont s2 (lpos s (Suc i)) = cont s (blk s i)" if "i < n" for i
  proof -
    have "cont s2 (lpos s (Suc i)) = put_writes (logw s n) (cont s) (lpos s (Suc i))"
      using w2 by (simp add: wrote_def writes_append lpos_def)
    moreover have "distinct (map fst (logw s n))" by (auto simp: distinct_map inj_on_def lpos_def)
    moreover have "(lpos s (Suc i), cont s (blk s i)) \<in> set (logw s n)" using that by (auto simp: logw_def)
    ultimately show ?thesis using put_writes_at by metis
  qed
  have i2: "instw s2 n = map (\<lambda>b. (b, cont s b)) (tblocks s)"
    using k2(2,3) c2 by (auto simp: instw_def tblocks_def n_def)
  note w3 = wrote_trans [OF w2 s3(2)] and k3 = wrote_keep [OF wrote_trans [OF w2 s3(2)]]
  have p3: "pinned s3 = {}" using s3(2) p2 T(3) k2(3) by (simp add: wrote_def)
  have "?L \<notin> fst ` set (instw s2 n)" using Lb k2(3) by auto
  then have "cont s3 ?L = cont s2 ?L" using s3(2) by (simp add: wrote_def put_writes_other)
  then have c3: "cont s3 ?L = ?h" using s2(2) by (simp add: wrote_def)
  have "\<exists>s'. write_head (s3\<lparr>lh_n := 0\<rparr>) = Inr s' \<and>
      wrote (s3\<lparr>lh_n := 0\<rparr>) s' [(lpos (s3\<lparr>lh_n := 0\<rparr>) 0, header (s3\<lparr>lh_n := 0\<rparr>) (cont (s3\<lparr>lh_n := 0\<rparr>) (lpos (s3\<lparr>lh_n := 0\<rparr>) 0)))]"
    by (rule write_head_ok) (use k3(1) [OF T(1)] p3 in \<open>auto simp: NBUF_def\<close>)
  then obtain s4 where s4: "write_head (s3\<lparr>lh_n := 0\<rparr>) = Inr s4" "wrote (s3\<lparr>lh_n := 0\<rparr>) s4 [(?L, wr32 0 0 ?h)]"
    using k3(2) c3 by (auto simp: header_def)
  have lw: "logw s n @ [(?L, ?h)] @ instw s2 n @ [(?L, wr32 0 0 ?h)] = txn_writes s"
    unfolding i2 by (auto simp: txn_writes_def Let_def commitw_def logw_def tblocks_def n_def lpos_def)
  have "commit s = Inr s4"
    using T(4,5) s1(1) s2(1) s3(1) s4(1) k2(4) by (simp add: commit_def write_log_def install_trans_def n_def [symmetric])
  moreover have "lh_n s4 = 0" "outstanding s4 = outstanding s" using wrote_keep(4,10) [OF s4(2)] k3(10) by simp_all
  ultimately show ?thesis using w3 s4(2) p3 unfolding lw [symmetric]
    by (intro exI [of _ s4]) (auto simp: wrote_def writes_append)
qed

lemma clean_block:
  assumes "geometry s n" "m \<notin> pinned s" "m < length (disk s)"
  shows "cont s m = disk s ! m" "length (cont s m) = BSIZE"
proof -
  show c: "cont s m = disk s ! m" using clean_disk [of s m] assms by (simp add: geometry_def)
  show "length (cont s m) = BSIZE" using bio_okD(4) [of s "disk s ! m"] assms unfolding c by (simp add: geometry_def)
qed

lemma txn_commit_disk:
  assumes "txn s"
  shows "let h = header s (cont s (lpos s 0)) in commit_disk (lpos s 0) (tblocks s) (cont s) h (wr32 0 0 h) (disk s)"
proof -
  define n where "n = nat (lh_n s)"
  note T = txnD [OF assms n_def]
  let ?h = "header s (cont s (lpos s 0))"
  have tb: "tblocks s = map (blk s) [0..<n]" "length (tblocks s) = n" by (simp_all add: tblocks_def n_def)
  have n30: "n < 30" using T(6) by (simp add: NBUF_def)
  have L: "lpos s 0 < length (disk s)" "lpos s 0 \<notin> pinned s" using unat_lpos(2) [OF T(1), of 0] T(10) by auto
  have len: "length (cont s (lpos s 0)) = 512" using clean_block(2) [OF T(1) L(2,1)] by (simp add: BSIZE_def)
  have sn: "sint (word_of_int (int n) :: uint) = int n"
    unfolding int_word_sint using n30 by simp
  have "rd32 ?h 0 = of_int (int n)" using len T(4) by (simp add: header_def rd32_wr_addrs_below)
  then have hn: "sint (rd32 ?h 0) = int n" using sn by simp
  have "rd_addrs ?h 4 n = take n (lh_block s)"
    by (rule nth_equalityI) (use T(7) n30 len in \<open>auto simp: rd_addrs_def header_def n_def [symmetric] rd32_wr_addrs\<close>)
  then have hb: "hblocks ?h = tblocks s"
    using T(7) hn by (auto simp: hblocks_def tb(1) blk_def intro!: nth_equalityI)
  have di: "distinct (tblocks s)" using T(2) by (simp add: tb distinct_map blks_ok_def atLeast0LessThan)
  have tg: "b < length (disk s) \<and> (b < lpos s 0 \<or> lpos s 0 + n < b)" if b: "b \<in> set (tblocks s)" for b
  proof -
    obtain i where i: "i < n" "b = blk s i" using b tb by auto
    have "b = lpos s (b - lpos s 0)" "b - lpos s 0 \<le> n" if "lpos s 0 \<le> b" "b \<le> lpos s 0 + n"
      using that by (simp_all add: lpos_def)
    then have "\<not> (lpos s 0 \<le> b \<and> b \<le> lpos s 0 + n)" using blks_okD(2) [OF T(2) i(1)] i(2) by blast
    then show ?thesis using blks_okD(1) [OF T(2) i(1)] i(2) by auto
  qed
  have cl: "cont s m = disk s ! m" if "m \<notin> set (tblocks s)" "m < length (disk s)" for m
    by (rule clean_block(1) [OF T(1)]) (use that T(3) tb in auto)
  have h0: "rd32 (wr32 0 0 ?h) 0 = 0" using len by (simp add: header_def)
  have room: "lpos s 0 + n < length (disk s)" using T(1) by (simp add: geometry_def lpos_def)
  show ?thesis unfolding Let_def commit_disk_def tb(2)
    using hb di tg cl h0 hn T(8) n30 room by (simp add: LOGSIZE_def MAXOPBLOCKS_def)
qed

section \<open>Recovery\<close>

lemma read_head_ok:
  assumes "geometry s 0" "pinned s = {}" "hdr_ok (lpos s 0) (disk s)"
  shows "\<exists>s'. read_head s = Inr s' \<and> bio_ok s' \<and> hb s' = Map.empty \<and> cont s' = cont s \<and> pinned s' = {} \<and> disk s' = disk s \<and>
    writes s' = writes s \<and> ldev s' = ldev s \<and> lstart s' = lstart s \<and> lh_n s' = sint (rd32 (disk s ! lpos s 0) 0) \<and>
    (\<forall>i < length (hblocks (disk s ! lpos s 0)). blk s' i = hblocks (disk s ! lpos s 0) ! i)"
proof -
  let ?x = "of_int (lstart s) :: uint" and ?h = "disk s ! lpos s 0"
  have g: "bio_ok s" "hb s = Map.empty" "ldev s = 1" using assms(1) by (simp_all add: geometry_def)
  have x: "unat ?x = lpos s 0" "unat ?x < length (disk s)" using unat_lpos [OF assms(1), of 0] by simp_all
  have "hb s (unat ?x) = None" "card (pinned s \<union> dom (hb s)) < NBUF" using g(2) assms(2) by (simp_all add: NBUF_def)
  then obtain b s1 where r: "bread 1 ?x s = Inr (b, s1)" "bstep s s1" "bio_ok s1" "hb s1 = (hb s)(unat ?x := Some b)"
    "cont s1 = cont s" "pinned s1 = pinned s" "disk s1 = disk s" "writes s1 = writes s" "bdata (buf_at s1 b) = cont s (unat ?x)"
    using bread_view [OF g(1) x(2)] by blast
  have c: "cont s (lpos s 0) = ?h" using clean_block(1) [OF assms(1)] assms(2) x by simp
  let ?n = "sint (rd32 ?h 0)"
  let ?t = "s1\<lparr>lh_n := ?n, lh_block := rd_addrs ?h 4 (nat ?n) @ drop (nat ?n) (lh_block s1)\<rparr>"
  have "bio_ok ?t" "hb ?t (lpos s 0) = Some b" "cont ?t (lpos s 0) = disk ?t ! lpos s 0" using r c x(1) by simp_all
  then obtain s2 where f: "brelse b ?t = Inr s2" "bstep ?t s2" "bio_ok s2" "hb s2 = (hb ?t)(lpos s 0 := None)" "cont s2 = cont ?t"
    "pinned s2 = pinned ?t" "disk s2 = disk ?t" "writes s2 = writes ?t"
    using brelse_view by blast
  note l = bstep_lg [OF r(2)] bstep_lg [OF f(2)]
  have "read_head s = Inr s2" using r(1,9) f(1) g(3) c x(1) assms(3) by (simp add: read_head_def hdr_ok_def Let_def)
  moreover have "blk s2 i = hblocks ?h ! i" if "i < length (hblocks ?h)" for i
    using that l by (simp add: blk_def hblocks_def nth_append rd_addrs_def)
  ultimately show ?thesis using f l r assms(2) g(2) x(1) by (intro exI [of _ s2]) simp
qed

lemma recover_run:
  assumes "geometry s 0" "pinned s = {}" "hdr_ok (lpos s 0) (disk s)"
  shows "\<exists>s'. recover_from_log s = Inr s' \<and> bio_ok s' \<and> hb s' = Map.empty \<and> pinned s' = {} \<and> lh_n s' = 0 \<and>
    writes s' = writes s @ recoverw (lpos s 0) (disk s) \<and> disk s' = apply_writes (recoverw (lpos s 0) (disk s)) (disk s)"
proof -
  let ?L = "lpos s 0"
  let ?bs = "hblocks (disk s ! ?L)"
  obtain s1 where s1: "read_head s = Inr s1" "bio_ok s1" "hb s1 = Map.empty" "cont s1 = cont s" "pinned s1 = {}" "disk s1 = disk s"
    "writes s1 = writes s" "ldev s1 = ldev s" "lstart s1 = lstart s" "lh_n s1 = sint (rd32 (disk s ! ?L) 0)"
    "\<And>i. i < length ?bs \<Longrightarrow> blk s1 i = ?bs ! i"
    using read_head_ok [OF assms] by blast
  define n where "n = length ?bs"
  have n: "nat (lh_n s1) = n" by (simp add: n_def s1(10) hblocks_def rd_addrs_def)
  have lp: "lpos s1 = lpos s" using s1(9) by (simp add: lpos_def fun_eq_iff)
  have H: "?L + n < length (disk s)" "distinct ?bs" "\<And>b. b \<in> set ?bs \<Longrightarrow> b < length (disk s) \<and> \<not> (?L \<le> b \<and> b \<le> ?L + n)"
    using assms(3) by (auto simp: hdr_ok_def Let_def n_def)
  have g1: "geometry s1 n" using assms(1) s1 H(1) by (simp add: geometry_def lpos_def)
  have b1: "blks_ok s1 n" unfolding blks_ok_def
  proof (intro conjI allI impI)
    show "blk s1 i < length (disk s1)" "blk s1 i \<notin> lpos s1 ` {..n}" if "i < n" for i
      using H(3) [of "?bs ! i"] s1(6,11) that lp by (auto simp: n_def lpos_def)
    show "inj_on (blk s1) {..<n}" using H(2) s1(11) by (auto simp: inj_on_def n_def nth_eq_iff_index_eq)
  qed
  obtain s2 where s2: "foldE install_one [0..<n] s1 = Inr s2" "wrote s1 s2 (instw s1 n)"
    using install_ok [OF g1 b1 _ _ _ order_refl] s1(5) by (auto simp: NBUF_def)
  note k2 = wrote_keep [OF s2(2)]
  have cl: "cont s1 m = disk s ! m" if "m < length (disk s)" for m
    using clean_block(1) [OF g1] that s1(5,6) by simp
  have iw: "instw s1 n = logwrites ?L (disk s)"
    using cl H(1) s1(11) lp by (auto simp: instw_def logwrites_def Let_def n_def lpos_def)
  have p2: "pinned s2 = {}" using s2(2) s1(5) by (simp add: wrote_def)
  have "?L \<notin> fst ` set (instw s1 n)" unfolding iw fst_logwrites using H(3) [of ?L] by auto
  then have c2: "cont s2 ?L = disk s ! ?L" using s2(2) cl [of ?L] H(1) by (simp add: wrote_def put_writes_other)
  have "\<exists>s'. write_head (s2\<lparr>lh_n := 0\<rparr>) = Inr s' \<and>
      wrote (s2\<lparr>lh_n := 0\<rparr>) s' [(lpos (s2\<lparr>lh_n := 0\<rparr>) 0, header (s2\<lparr>lh_n := 0\<rparr>) (cont (s2\<lparr>lh_n := 0\<rparr>) (lpos (s2\<lparr>lh_n := 0\<rparr>) 0)))]"
    by (rule write_head_ok) (use k2(1) [OF g1] p2 in \<open>auto simp: NBUF_def\<close>)
  then obtain s3 where s3: "write_head (s2\<lparr>lh_n := 0\<rparr>) = Inr s3" "wrote (s2\<lparr>lh_n := 0\<rparr>) s3 [(?L, wr32 0 0 (disk s ! ?L))]"
    using k2(2) lp c2 by (auto simp: header_def)
  have "recover_from_log s = Inr s3" using s1(1) s2(1) s3(1) n by (simp add: recover_from_log_def install_trans_def)
  moreover have "lh_n s3 = 0" using wrote_keep(4) [OF s3(2)] by simp
  ultimately show ?thesis using s2(2) s3(2) p2 s1(6,7) iw
    by (intro exI [of _ s3]) (auto simp: wrote_def writes_append recoverw_def)
qed

end
