(* ===== verification/Xv6_Txn.thy ===== *)
theory Xv6_Txn
  imports Xv6_Crash
begin

text \<open>
  Transactions (Xv6-Syscall/src/log.c): how \<open>log_write\<close> builds one up, and that it reaches the
  disk as a whole or not at all, whenever the machine stops and however often recovery is
  interrupted.
\<close>

section \<open>An open transaction\<close>

text \<open>The log area has \<open>lsize\<close> blocks: the header and the copies.  The changed blocks are the ones
  in the header, each once; they lie outside the log.\<close>

definition in_log :: "'b lg_scheme \<Rightarrow> nat \<Rightarrow> bool" where
  "in_log s m \<longleftrightarrow> lpos s 0 \<le> m \<and> m < lpos s (nat (lsize s))"

definition open_txn :: "'b lg_scheme \<Rightarrow> bool" where
  "open_txn s \<longleftrightarrow> (let n = nat (lh_n s) in bio_ok s \<and> ldev s = 1 \<and> 0 \<le> lstart s \<and> lpos s (nat (lsize s)) \<le> length (disk s) \<and>
     length (disk s) < 2 ^ 31 \<and> 0 \<le> lh_n s \<and> lh_n s < lsize s \<and> lsize s \<le> LOGSIZE \<and> length (lh_block s) = nat LOGSIZE \<and>
     pinned s = blk s ` {..<n} \<and> inj_on (blk s) {..<n} \<and> (\<forall>i < n. \<not> in_log s (blk s i)) \<and> rd32 (disk s ! lpos s 0) 0 = 0)"

lemma open_txnD:
  assumes "open_txn s" "n = nat (lh_n s)"
  shows "bio_ok s" "ldev s = 1" "0 \<le> lstart s" "lpos s (nat (lsize s)) \<le> length (disk s)" "length (disk s) < 2 ^ 31" "lh_n s = int n"
    "int n < lsize s" "lsize s \<le> LOGSIZE" "length (lh_block s) = nat LOGSIZE" "pinned s = blk s ` {..<n}" "inj_on (blk s) {..<n}"
    "i < n \<Longrightarrow> \<not> in_log s (blk s i)" "rd32 (disk s ! lpos s 0) 0 = 0" "n < NBUF" "n < length (lh_block s)" "card (pinned s) = n"
  using assms by (auto simp: open_txn_def Let_def LOGSIZE_def MAXOPBLOCKS_def NBUF_def card_image)

lemma open_txn_txn:
  assumes "open_txn s" "hb s = Map.empty" "0 < lh_n s"
  shows "txn s"
proof -
  define n where "n = nat (lh_n s)"
  note T = open_txnD [OF assms(1) n_def]
  have lt: "lpos s j < lpos s (nat (lsize s))" if "j \<le> n" for j using that T(7) by (simp add: lpos_def)
  have g: "geometry s n" using T(1-5) assms(2) lt [of n] by (simp add: geometry_def)
  have "blk s i < length (disk s) \<and> blk s i \<notin> lpos s ` {..n}" if i: "i < n" for i
  proof
    show "blk s i < length (disk s)" by (rule pinned_range [OF T(1)]) (use T(10) i in simp)
    have "blk s i \<noteq> lpos s j" if "j \<le> n" for j
      using T(12) [OF i] lt [OF that] by (auto simp: in_log_def lpos_def)
    then show "blk s i \<notin> lpos s ` {..n}" by auto
  qed
  then have "blks_ok s n" using T(11) by (simp add: blks_ok_def)
  with g T(10,13,14,15) assms(3) show ?thesis unfolding txn_def Let_def n_def [symmetric] by simp
qed

text \<open>The slot of a block in the header: where it is, or the first free one.\<close>

lemma log_slot_cases:
  assumes "nat (lh_n s) \<le> length (lh_block s)"
  obtains "log_slot x s < nat (lh_n s)" "lh_block s ! log_slot x s = x"
  | "log_slot x s = nat (lh_n s)" "\<And>i. i < nat (lh_n s) \<Longrightarrow> lh_block s ! i \<noteq> x"
proof (cases "find_index (\<lambda>y. y = x) (take (nat (lh_n s)) (lh_block s))")
  case None
  moreover have "lh_block s ! i \<in> set (take (nat (lh_n s)) (lh_block s))" if "i < nat (lh_n s)" for i
    using that assms by (auto simp: in_set_conv_nth)
  ultimately have "lh_block s ! i \<noteq> x" if "i < nat (lh_n s)" for i using that by fastforce
  moreover have "log_slot x s = nat (lh_n s)" using None by (simp only: log_slot_def option.case)
  ultimately show ?thesis using that(2) by blast
next
  case (Some i)
  with find_index_SomeD [OF Some] assms that(1) show ?thesis by (simp add: log_slot_def)
qed

lemma flags_record: "(x :: buf)\<lparr>bdata := bdata x, bflags := f\<rparr> = x\<lparr>bflags := f\<rparr>"
  by simp

text \<open>Marking a locked block dirty.\<close>

definition mark :: "nat \<Rightarrow> 'b bio_scheme \<Rightarrow> 'b bio_scheme" where
  "mark b s = s\<lparr>bufs := (bufs s)[b := (buf_at s b)\<lparr>bflags := bflags (buf_at s b) OR B_DIRTY\<rparr>]\<rparr>"

lemma mark_ok:
  assumes "bio_ok s" "hb s m = Some b"
  shows "bio_ok (mark b s)" "hb (mark b s) = hb s" "cont (mark b s) = cont s" "pinned (mark b s) = insert m (pinned s)"
proof -
  note h = held_buf [OF assms]
  have len: "length (bdata (buf_at s b)) = BSIZE" using h(8) by (simp add: buf_ok_def)
  note u = held_upd [OF assms len disjI2 [OF refl], unfolded flags_record, folded mark_def]
  show "bio_ok (mark b s)" "hb (mark b s) = hb s" "cont (mark b s) = cont s" using u h(6) by simp_all
  have "m \<in> pinned s" if "bflags (buf_at s b) OR B_DIRTY = bflags (buf_at s b)"
  proof -
    have "dirty ((buf_at s b)\<lparr>bflags := bflags (buf_at s b) OR B_DIRTY\<rparr>)" by (simp add: flags_simps)
    then have "dirty (buf_at s b)" using that by simp
    then show ?thesis using h(1,3) by (auto simp: pinned_def)
  qed
  then show "pinned (mark b s) = insert m (pinned s)" using u(4) by auto
qed

lemma mark_fields [simp]:
  "lh_n (mark b s) = lh_n s" "lh_block (mark b s) = lh_block s" "ldev (mark b s) = ldev s" "lstart (mark b s) = lstart s"
  "lsize (mark b s) = lsize s" "outstanding (mark b s) = outstanding s" "disk (mark b s) = disk s" "writes (mark b s) = writes s"
  "committing (mark b s) = committing s" "lpos (mark b s) = lpos s" "blk (mark b s) = blk s" "in_log (mark b s) = in_log s"
  by (simp_all add: mark_def lpos_def blk_def in_log_def fun_eq_iff)

lemma log_write_eq:
  assumes "lh_n s < LOGSIZE" "lh_n s < lsize s - 1" "1 \<le> outstanding s"
  shows "log_write b s = Inr (let i = log_slot (bblockno (buf_at s b)) s in
    (mark b s)\<lparr>lh_block := (lh_block s)[i := bblockno (buf_at s b)], lh_n := (if int i = lh_n s then lh_n s + 1 else lh_n s)\<rparr>)"
  using assms by (simp add: log_write_def mark_def upd_buf_def Let_def)

lemma log_write_ok:
  assumes "open_txn s" "hb s m = Some b" "\<not> in_log s m" "lh_n s < lsize s - 1" "1 \<le> outstanding s"
  shows "\<exists>s'. log_write b s = Inr s' \<and> open_txn s' \<and> hb s' = hb s \<and> cont s' = cont s \<and> pinned s' = insert m (pinned s) \<and>
    disk s' = disk s \<and> writes s' = writes s \<and> lstart s' = lstart s \<and> lsize s' = lsize s \<and> outstanding s' = outstanding s \<and>
    committing s' = committing s \<and> lh_n s' = (if m \<in> pinned s then lh_n s else lh_n s + 1)"
proof -
  define n where "n = nat (lh_n s)"
  note T = open_txnD [OF assms(1) n_def]
  note h = held_buf [OF T(1) assms(2)] and u = mark_ok [OF T(1) assms(2)]
  let ?x = "bblockno (buf_at s b)"
  have n: "nat (lh_n s) \<le> length (lh_block s)" using T(15) n_def by simp
  have lw: "log_write b s = Inr (let i = log_slot ?x s in
      (mark b s)\<lparr>lh_block := (lh_block s)[i := ?x], lh_n := (if int i = lh_n s then lh_n s + 1 else lh_n s)\<rparr>)"
    by (rule log_write_eq) (use T(6-8) assms(4,5) in auto)
  show ?thesis
  proof (rule log_slot_cases [OF n, of ?x])
    assume i: "log_slot ?x s < nat (lh_n s)" "lh_block s ! log_slot ?x s = ?x"
    then have "blk s (log_slot ?x s) = m" using h(9) by (simp add: blk_def)
    then have m: "m \<in> pinned s" using T(10) i(1) n_def by auto
    have "log_write b s = Inr (mark b s)" using lw i by (simp add: Let_def list_update_id [of "lh_block s" "log_slot ?x s", unfolded i(2)])
    moreover have "open_txn (mark b s)" using assms(1) u m by (simp add: open_txn_def insert_absorb Let_def)
    ultimately show ?thesis using u m by simp
  next
    assume i: "log_slot ?x s = nat (lh_n s)" "\<And>i. i < nat (lh_n s) \<Longrightarrow> lh_block s ! i \<noteq> ?x"
    let ?s = "(mark b s)\<lparr>lh_block := (lh_block s)[n := ?x], lh_n := lh_n s + 1\<rparr>"
    have e: "log_write b s = Inr ?s" unfolding lw Let_def i(1) n_def [symmetric] T(6) by simp
    have bl: "blk ?s j = (if j = n then m else blk s j)" for j using T(15) h(9) by (simp add: blk_def nth_list_update)
    have new: "blk s j \<noteq> m" if "j < n" for j
      using i(2) [of j] that h(9) n_def by (auto simp: blk_def word_unat_eq_iff)
    then have m: "m \<notin> pinned s" using T(10) by auto
    have il: "in_log ?s = in_log s" "lpos ?s = lpos s" by (simp_all add: in_log_def lpos_def fun_eq_iff)
    have nn: "nat (lh_n ?s) = Suc n" using T(6) by simp
    have "blk ?s ` {..<Suc n} = insert m (pinned s)" using bl T(10) by (auto simp: lessThan_Suc image_iff)
    moreover have "inj_on (blk ?s) {..<Suc n}"
      using T(11) new bl by (auto simp: inj_on_def less_Suc_eq) metis+
    moreover have "\<not> in_log s (blk ?s j)" if "j < Suc n" for j using that bl T(12) assms(3) by (auto simp: less_Suc_eq)
    ultimately have "open_txn ?s" unfolding open_txn_def Let_def nn il
      using u T assms(4) by simp
    then show ?thesis using e u m by simp
  qed
qed

text \<open>The buffer cache changes nothing of the log but the cached blocks.\<close>

lemma open_txn_step:
  assumes "open_txn s" "bstep s s'" "bio_ok s'" "pinned s' = pinned s" "disk s' = disk s"
  shows "open_txn s'"
proof -
  have "lpos s' = lpos s" "blk s' = blk s" "in_log s' = in_log s"
    using bstep_lg [OF assms(2)] by (simp_all add: lpos_def blk_def in_log_def fun_eq_iff)
  then show ?thesis using assms(1,3-5) bstep_lg [OF assms(2)] by (simp add: open_txn_def Let_def)
qed

text \<open>The way every system call changes a block: read it, change the bytes, put it in the log, let
  it go.\<close>

definition logged_update :: "uint \<Rightarrow> (uchar list \<Rightarrow> uchar list) \<Rightarrow> 'b lg_scheme \<Rightarrow> 'b lg_scheme res" where
  "logged_update m f s =
     bindE (bread (ldev s) m s) (\<lambda>(b, s). bindE (log_write b (upd_data b f s)) (brelse b))"

lemma logged_update_ok:
  assumes "open_txn s" "hb s = Map.empty" "unat m < length (disk s)" "\<not> in_log s (unat m)" "lh_n s < lsize s - 1"
    "1 \<le> outstanding s" "length (f (cont s (unat m))) = BSIZE"
  shows "\<exists>s'. logged_update m f s = Inr s' \<and> open_txn s' \<and> hb s' = Map.empty \<and> cont s' = (cont s)(unat m := f (cont s (unat m))) \<and>
    pinned s' = insert (unat m) (pinned s) \<and> disk s' = disk s \<and> writes s' = writes s \<and>
    lh_n s' = (if unat m \<in> pinned s then lh_n s else lh_n s + 1) \<and> outstanding s' = outstanding s \<and>
    lstart s' = lstart s \<and> lsize s' = lsize s \<and> committing s' = committing s"
proof -
  note T = open_txnD [OF assms(1) refl]
  let ?d = "f (cont s (unat m))"
  have "hb s (unat m) = None" "card (pinned s \<union> dom (hb s)) < NBUF" using assms(2) T(14,16) by simp_all
  then obtain b s1 where r: "bread 1 m s = Inr (b, s1)" "bstep s s1" "bio_ok s1" "hb s1 = (hb s)(unat m := Some b)"
    "cont s1 = cont s" "pinned s1 = pinned s" "disk s1 = disk s" "writes s1 = writes s" "bdata (buf_at s1 b) = cont s (unat m)"
    using bread_view [OF T(1) assms(3)] by blast
  have h1: "hb s1 (unat m) = Some b" using r(4) by simp
  obtain s2 where u: "upd_data b (\<lambda>_. ?d) s1 = s2" "bstep s1 s2" "bio_ok s2" "hb s2 = hb s1"
    "cont s2 = (cont s1)(unat m := ?d)" "pinned s2 = pinned s1" "disk s2 = disk s1" "writes s2 = writes s1"
    using upd_data_view [OF r(3) h1 assms(7)] by blast
  have e: "upd_data b f s1 = s2" using u(1) r(9) by (simp add: upd_data_def upd_buf_def)
  have b2: "bstep s s2" using bstep_trans [OF r(2) u(2)] .
  note l2 = bstep_lg [OF b2]
  have o2: "open_txn s2" by (rule open_txn_step [OF assms(1) b2 u(3)]) (use u r in auto)
  have pre: "hb s2 (unat m) = Some b" "\<not> in_log s2 (unat m)" "lh_n s2 < lsize s2 - 1" "1 \<le> outstanding s2"
    using u(4) h1 l2 assms(4-6) by (simp_all add: in_log_def lpos_def)
  obtain s3 where w: "log_write b s2 = Inr s3" "open_txn s3" "hb s3 = hb s2" "cont s3 = cont s2" "pinned s3 = insert (unat m) (pinned s2)"
    "disk s3 = disk s2" "writes s3 = writes s2" "lstart s3 = lstart s2" "lsize s3 = lsize s2" "outstanding s3 = outstanding s2" "committing s3 = committing s2"
    "lh_n s3 = (if unat m \<in> pinned s2 then lh_n s2 else lh_n s2 + 1)"
    using log_write_ok [OF o2 pre] by blast
  have "hb s3 (unat m) = Some b" "unat m \<in> pinned s3" using w(3,5) pre(1) by simp_all
  then obtain s4 where q: "brelse b s3 = Inr s4" "bstep s3 s4" "bio_ok s4" "hb s4 = (hb s3)(unat m := None)" "cont s4 = cont s3"
    "pinned s4 = pinned s3" "disk s4 = disk s3" "writes s4 = writes s3"
    using brelse_view [OF open_txnD(1) [OF w(2) refl]] by blast
  have "open_txn s4" by (rule open_txn_step [OF w(2) q(2,3,6,7)])
  moreover have "logged_update m f s = Inr s4" using r(1) e w(1) q(1) T(2) by (simp add: logged_update_def)
  ultimately show ?thesis using q w u r l2 bstep_lg [OF q(2)] assms(2) by (intro exI [of _ s4]) simp
qed

section \<open>A small disk\<close>

text \<open>Forty zero blocks, the log in blocks 2 to 31, one operation begun on a fresh cache; then
  block 35 changed in a transaction.\<close>

definition buf0 :: buf where
  "buf0 = \<lparr>bflags = 0, bdev = 0, bblockno = 0, block = \<lparr>sl_locked = False, sl_pid = 0\<rparr>, brefcnt = 0, bprev = 0, bnext = 0,
     bqnext = None, bdata = replicate BSIZE 0\<rparr>"

definition log0 :: lg where
  "log0 = binit \<lparr>pt = ptable0, cur = 0, bufs = replicate (Suc NBUF) buf0, disk = replicate 40 (replicate BSIZE 0), writes = [],
     lstart = 2, lsize = 30, outstanding = 1, committing = False, ldev = 1, lh_n = 0, lh_block = replicate 30 0\<rparr>"

definition log1 :: lg where
  "log1 = (case logged_update 35 (\<lambda>d. d[0 := 7]) log0 of Inr s \<Rightarrow> s | Inl _ \<Rightarrow> log0)"

lemma log0_fields:
  "disk log0 = replicate 40 (replicate BSIZE 0)" "writes log0 = []" "lstart log0 = 2" "lsize log0 = 30" "outstanding log0 = 1" "ldev log0 = 1"
  "lh_n log0 = 0" "lh_block log0 = replicate 30 0"
  by (simp_all add: log0_def binit_def)

lemma log0_ok: "bio_ok log0" "hb log0 = Map.empty" "pinned log0 = {}" "cont log0 = (\<lambda>m. replicate 40 (replicate BSIZE 0) ! m)"
  unfolding log0_def by (subst binit_ok; simp add: buf0_def ptable0_def NPROC_def nth_Cons' del: replicate_Suc)+

lemma open_log0: "open_txn log0"
  unfolding open_txn_def Let_def
  using log0_ok by (simp add: log0_fields lpos_def LOGSIZE_def MAXOPBLOCKS_def rd32_def BSIZE_def)

lemma update_log0:
  "logged_update 35 (\<lambda>d. d[0 := 7]) log0 = Inr log1" "open_txn log1" "hb log1 = Map.empty" "lh_n log1 = 1" "lstart log1 = 2"
  "disk log1 = replicate 40 (replicate BSIZE 0)" "cont log1 35 = (replicate BSIZE 0)[0 := 7]"
proof -
  have p: "unat (35 :: uint) < length (disk log0)" "\<not> in_log log0 (unat (35 :: uint))" "lh_n log0 < lsize log0 - 1" "1 \<le> outstanding log0"
    "length ((cont log0 (unat (35 :: uint)))[0 := 7]) = BSIZE"
    using log0_ok(4) by (simp_all add: log0_fields in_log_def lpos_def)
  obtain s' where s: "logged_update 35 (\<lambda>d. d[0 := 7]) log0 = Inr s'" "open_txn s'" "hb s' = Map.empty"
    "cont s' = (cont log0)(unat (35 :: uint) := (cont log0 (unat (35 :: uint)))[0 := 7])" "disk s' = disk log0"
    "lh_n s' = (if unat (35 :: uint) \<in> pinned log0 then lh_n log0 else lh_n log0 + 1)" "lstart s' = lstart log0"
    using logged_update_ok [where f = "\<lambda>d. d[0 := 7]" and m = 35, OF open_log0 log0_ok(2) p] by blast
  moreover have "log1 = s'" using s(1) by (simp add: log1_def)
  ultimately show "logged_update 35 (\<lambda>d. d[0 := 7]) log0 = Inr log1" "open_txn log1" "hb log1 = Map.empty" "lh_n log1 = 1" "lstart log1 = 2"
    "disk log1 = replicate 40 (replicate BSIZE 0)" "cont log1 35 = (replicate BSIZE 0)[0 := 7]"
    using log0_ok(3,4) log0_fields by simp_all
qed

section \<open>Crash safety\<close>

text \<open>The header on the disk during a commit names the blocks of the transaction or none.\<close>

lemma commit_hblocks:
  assumes cd: "commit_disk l bs c h h0 d"
  shows "length (hblocks (apply_writes (take k (commitw l bs c h h0)) d ! l)) \<le> length bs"
proof -
  have w: "commitw l bs c h h0 = copies l bs c @ (l, h) # installs bs c @ [(l, h0)]" by (simp add: commitw_def copies_def installs_def)
  have d: "apply_writes (take k (copies l bs c)) d ! l = d ! l"
    using fst_copies [of k l bs c] by (intro apply_writes_other) auto
  show ?thesis
  proof (rule take_three [of k "copies l bs c" "(l, h)" "installs bs c" "(l, h0)"])
    assume "take k (copies l bs c @ (l, h) # installs bs c @ [(l, h0)]) = take k (copies l bs c)"
    then show ?thesis using d commit_diskD(5) [OF cd] by (simp add: w hblocks_0)
  next
    fix j assume "take k (copies l bs c @ (l, h) # installs bs c @ [(l, h0)]) = copies l bs c @ (l, h) # take j (installs bs c)"
    then show ?thesis using middle_at(1) [OF cd, of j] commit_diskD(6) [OF cd] by (simp add: w writes_append)
  next
    assume "take k (copies l bs c @ (l, h) # installs bs c @ [(l, h0)]) = copies l bs c @ (l, h) # installs bs c @ [(l, h0)]"
    then show ?thesis using commit_diskD(1,8) [OF cd] by (simp add: w writes_append hblocks_0)
  qed
qed

lemma recover_hdr:
  assumes "hdr_ok l d" "length (d ! l) = BSIZE"
  shows "hdr_ok l (apply_writes (take k (recoverw l d)) d)" "length (hblocks (apply_writes (take k (recoverw l d)) d ! l)) \<le> length (hblocks (d ! l))"
proof -
  have I: "l < length d" "l \<notin> set (hblocks (d ! l))" using assms(1) by (auto simp: hdr_ok_def Let_def)
  have "l \<notin> fst ` set (take k (logwrites l d))" using I(2) set_take_subset [of k "logwrites l d"] fst_logwrites(1) [of l d] by fast
  then have e: "apply_writes (take k (logwrites l d)) d ! l = d ! l" by (rule apply_writes_other)
  have z: "rd32 (apply_writes (recoverw l d) d ! l) 0 = 0" using I(1) assms(2) by (simp add: recoverw_def writes_append BSIZE_def)
  show "hdr_ok l (apply_writes (take k (recoverw l d)) d)" "length (hblocks (apply_writes (take k (recoverw l d)) d ! l)) \<le> length (hblocks (d ! l))"
    using e z assms(1) I(1) by (cases "k \<le> length (logwrites l d)";
      simp add: recoverw_def hdr_ok_def hblocks_0 LOGSIZE_def MAXOPBLOCKS_def)+
qed

text \<open>The machine after a reboot: nothing cached, the disk as the crash left it.\<close>

definition at_boot :: "int \<Rightarrow> uchar list list \<Rightarrow> 'b lg_scheme \<Rightarrow> bool" where
  "at_boot l d t \<longleftrightarrow> bio_ok t \<and> hb t = Map.empty \<and> pinned t = {} \<and> ldev t = 1 \<and> lstart t = l \<and> disk t = d"

lemma recover_at_boot:
  assumes "at_boot l d t" "0 \<le> l" "nat l < length d" "length d < 2 ^ 31" "hdr_ok (nat l) d"
  shows "\<exists>t'. recover_from_log t = Inr t' \<and> writes t' = writes t @ recoverw (nat l) d \<and> disk t' = apply_writes (recoverw (nat l) d) d"
proof -
  have L: "lpos t 0 = nat l" using assms(1) by (simp add: at_boot_def lpos_def)
  have g: "geometry t 0" using assms L by (simp add: geometry_def at_boot_def)
  have d: "disk t = d" "pinned t = {}" using assms(1) by (simp_all add: at_boot_def)
  show ?thesis using recover_run [OF g] assms(5) unfolding L d by blast
qed

lemma disk_block_length: "at_boot l d t \<Longrightarrow> m < length d \<Longrightarrow> length (d ! m) = BSIZE"
  using bio_okD(4) [of t "d ! m"] by (simp add: at_boot_def)

text \<open>C1: A committed transaction is atomic under crashes.  From a transaction ready to commit, \<open>commit\<close>
  returns, with nothing left to write; and if the machine stops after any number \<open>k\<close> of the block
  writes that \<open>commit\<close> makes, recovery at the next boot returns and leaves every block outside the
  log as it was before the transaction when \<open>k\<close> does not get past the copies in the log, and as
  the transaction wants it from the header write on.\<close>

theorem commit_crash_atomic:
  assumes "txn s"
  shows "\<exists>s' ws. commit s = Inr s' \<and> writes s' = writes s @ ws \<and> pinned s' = {} \<and> lh_n s' = 0 \<and>
    (\<forall>k t. at_boot (lstart s) (apply_writes (take k ws) (disk s)) t \<longrightarrow>
      (\<exists>t'. recover_from_log t = Inr t' \<and>
        (\<forall>m < length (disk s). \<not> (lpos s 0 \<le> m \<and> m \<le> lpos s (nat (lh_n s))) \<longrightarrow>
          disk t' ! m = (if k \<le> nat (lh_n s) then disk s ! m else cont s m))))"
proof -
  define n where "n = nat (lh_n s)"
  note T = txnD [OF assms n_def]
  let ?L = "lpos s 0" and ?h = "header s (cont s (lpos s 0))"
  let ?d = "\<lambda>k. apply_writes (take k (txn_writes s)) (disk s)"
  have cd: "commit_disk ?L (tblocks s) (cont s) ?h (wr32 0 0 ?h) (disk s)" using txn_commit_disk [OF assms] by (simp add: Let_def)
  have tn: "length (tblocks s) = n" by (simp add: tblocks_def n_def)
  have img: "image ?L (?d k) m = (if k \<le> n then disk s ! m else cont s m)" "hdr_ok ?L (?d k)"
    if "\<not> (?L \<le> m \<and> m \<le> ?L + n)" "m < length (disk s)" for k m
    using commit_image [OF cd, unfolded tn, OF that] by (simp_all add: txn_writes_def Let_def)
  have "blk s 0 < length (disk s)" "\<not> (?L \<le> blk s 0 \<and> blk s 0 \<le> ?L + n)"
    using commit_diskD(4) [OF cd, of "blk s 0"] T(5) tn by (auto simp: tblocks_def n_def)
  then have hdr: "hdr_ok ?L (?d k)" for k using img(2) by blast
  have lens: "?L + length (hblocks (?d k ! ?L)) \<le> ?L + n" for k using commit_hblocks [OF cd] tn by (simp add: txn_writes_def Let_def)
  obtain s' where s': "commit s = Inr s'" "writes s' = writes s @ txn_writes s" "pinned s' = {}" "lh_n s' = 0"
    using commit_run [OF assms] by blast
  have L: "?L = nat (lstart s)" "0 \<le> lstart s" "nat (lstart s) < length (disk s)" "length (disk s) < 2 ^ 31"
    using T(1) by (simp_all add: geometry_def lpos_def)
  have "\<exists>t'. recover_from_log t = Inr t' \<and> (\<forall>m < length (disk s). \<not> (?L \<le> m \<and> m \<le> lpos s n) \<longrightarrow>
          disk t' ! m = (if k \<le> n then disk s ! m else cont s m))"
    if b: "at_boot (lstart s) (?d k) t" for k t
  proof -
    obtain t' where t': "recover_from_log t = Inr t'" "disk t' = apply_writes (recoverw ?L (?d k)) (?d k)"
      using recover_at_boot [OF b] L hdr [of k] by auto
    have "disk t' ! m = image ?L (?d k) m" if "m < length (disk s)" "\<not> (?L \<le> m \<and> m \<le> ?L + n)" for m
      unfolding t'(2) by (rule recover_image(3) [OF hdr]) (use that L disk_block_length [OF b, of ?L] lens [of k] in auto)
    then show ?thesis using t'(1) img(1) by (intro exI [of _ t']) (auto simp: lpos_def)
  qed
  then show ?thesis using s' unfolding n_def by blast
qed

lemma cont_length:
  assumes "bio_ok s" "m < length (disk s)"
  shows "length (cont s m) = BSIZE"
proof (cases "\<exists>b < NBUF. for_block m (buf_at s b) \<and> valid (buf_at s b)")
  case True
  then obtain b where b: "b < NBUF" "for_block m (buf_at s b)" "valid (buf_at s b)" by blast
  then show ?thesis using cont_cached [OF assms(1) b] bio_okD(2) [OF assms(1) b(1)] by (simp add: buf_ok_def)
next
  case False
  then have "cont s m = disk s ! m" by (intro cont_uncached) blast
  then show ?thesis using bio_okD(4) [OF assms(1)] assms(2) by simp
qed

lemma txn_writes_length:
  assumes "txn s" "(m, d) \<in> set (txn_writes s)"
  shows "length d = BSIZE"
proof -
  note T = txnD [OF assms(1) refl]
  have "bio_ok s" "lpos s 0 < length (disk s)" using T(1) by (auto simp: geometry_def lpos_def)
  then have h: "length (header s (cont s (lpos s 0))) = BSIZE" by (simp add: header_def cont_length)
  have "length (cont s (blk s i)) = BSIZE" if "i < nat (lh_n s)" for i
    using cont_length \<open>bio_ok s\<close> blks_okD(1) [OF T(2) that] by blast
  with h assms(2) show ?thesis by (auto simp: txn_writes_def Let_def commitw_def tblocks_def)
qed

lemma apply_writes_length:
  "(\<And>m d. (m, d) \<in> set ws \<Longrightarrow> length d = BSIZE) \<Longrightarrow> (\<And>b. b \<in> set d \<Longrightarrow> length b = BSIZE) \<Longrightarrow> b \<in> set (apply_writes ws d) \<Longrightarrow> length b = BSIZE"
proof (induction ws arbitrary: d)
  case (Cons w ws)
  obtain n c where w: "w = (n, c)" by fastforce
  have "length x = BSIZE" if "x \<in> set (d[n := c])" for x
    using that Cons.prems(1) [of n c] Cons.prems(2) set_update_subset_insert [of d n c] w by auto
  then show ?case using Cons.IH [of "d[n := c]"] Cons.prems w by auto
qed simp

lemma boot_log0:
  assumes "\<And>b. b \<in> set d \<Longrightarrow> length b = BSIZE"
  shows "at_boot 2 d (log0\<lparr>disk := d\<rparr>)"
proof -
  let ?s = "\<lparr>pt = ptable0, cur = 0, bufs = replicate (Suc NBUF) buf0, disk = d, writes = [],
     lstart = 2, lsize = 30, outstanding = 1, committing = False, ldev = 1, lh_n = 0, lh_block = replicate 30 0\<rparr>"
  have e: "log0\<lparr>disk := d\<rparr> = binit ?s" by (simp add: log0_def binit_def)
  have f: "ldev (binit ?s) = 1" "lstart (binit ?s) = 2" "disk (binit ?s) = d" by (simp_all add: binit_def)
  show ?thesis unfolding e at_boot_def f
    by (subst binit_ok; simp add: buf0_def ptable0_def NPROC_def nth_Cons' assms del: replicate_Suc)+
qed

lemma txn_log1: "txn log1"
  by (rule open_txn_txn) (simp_all add: update_log0(2-4))

text \<open>A crash after the copy in the log, and one after the header write.\<close>

theorem commit_crash_atomic_witness:
  "txn log1 \<and> (\<exists>s' ws t t'. commit log1 = Inr s' \<and> writes s' = writes log1 @ ws \<and>
     recover_from_log (log0\<lparr>disk := apply_writes (take 1 ws) (disk log1)\<rparr>) = Inr t \<and> disk t ! 35 = replicate BSIZE 0 \<and>
     recover_from_log (log0\<lparr>disk := apply_writes (take 2 ws) (disk log1)\<rparr>) = Inr t' \<and> disk t' ! 35 = (replicate BSIZE 0)[0 := 7])"
proof -
  obtain s' ws where c: "commit log1 = Inr s'" "writes s' = writes log1 @ ws"
    "\<And>k t. at_boot (lstart log1) (apply_writes (take k ws) (disk log1)) (t :: lg) \<Longrightarrow>
      \<exists>t'. recover_from_log t = Inr t' \<and> (\<forall>m < length (disk log1). \<not> (lpos log1 0 \<le> m \<and> m \<le> lpos log1 (nat (lh_n log1))) \<longrightarrow>
          disk t' ! m = (if k \<le> nat (lh_n log1) then disk log1 ! m else cont log1 m))"
    using commit_crash_atomic [OF txn_log1] by blast
  have ws: "ws = txn_writes log1" using commit_run [OF txn_log1] c(1,2) by auto
  have b: "length x = BSIZE" if "x \<in> set (apply_writes (take k ws) (disk log1))" for x k
    by (rule apply_writes_length [OF _ _ that]) (use txn_writes_length [OF txn_log1] ws update_log0(6) in \<open>auto dest: in_set_takeD\<close>)
  have "\<exists>t'. recover_from_log (log0\<lparr>disk := apply_writes (take k ws) (disk log1)\<rparr>) = Inr t' \<and>
      disk t' ! 35 = (if k \<le> 1 then replicate BSIZE 0 else (replicate BSIZE 0)[0 := 7])" for k
    using c(3) [of k] boot_log0 [OF b [of _ k]] update_log0 by (fastforce simp: lpos_def)
  from this [of 1] this [of 2] show ?thesis using txn_log1 c(1,2) by auto
qed

text \<open>C2: Recovery can be interrupted.  Booting on a disk whose header is well-formed, recovery returns
  and installs what the log holds; if the machine stops after any number \<open>k\<close> of the writes of
  recovery, recovery at the following boot returns too and leaves the same blocks.\<close>

theorem recovery_restartable:
  assumes "at_boot l d t" "0 \<le> l" "nat l < length d" "length d < 2 ^ 31" "hdr_ok (nat l) d"
  shows "\<exists>t' ws. recover_from_log t = Inr t' \<and> writes t' = writes t @ ws \<and>
    (\<forall>m < length d. \<not> (nat l \<le> m \<and> m \<le> nat l + length (hblocks (d ! nat l))) \<longrightarrow> disk t' ! m = image (nat l) d m) \<and>
    (\<forall>k u. at_boot l (apply_writes (take k ws) d) u \<longrightarrow>
      (\<exists>u'. recover_from_log u = Inr u' \<and>
        (\<forall>m < length d. \<not> (nat l \<le> m \<and> m \<le> nat l + length (hblocks (d ! nat l))) \<longrightarrow> disk u' ! m = disk t' ! m)))"
proof -
  let ?L = "nat l" and ?d = "\<lambda>k. apply_writes (take k (recoverw (nat l) d)) d"
  have len: "length (d ! ?L) = BSIZE" using disk_block_length [OF assms(1,3)] .
  obtain t' where t': "recover_from_log t = Inr t'" "writes t' = writes t @ recoverw ?L d" "disk t' = apply_writes (recoverw ?L d) d"
    using recover_at_boot [OF assms] by blast
  have R: "image ?L (?d k) m = image ?L d m" "hdr_ok ?L (?d k)" "disk t' ! m = image ?L d m"
    if "m < length d" "\<not> (?L \<le> m \<and> m \<le> ?L + length (hblocks (d ! ?L)))" for m k
    using recover_image [OF assms(5) len that] t'(3) by simp_all
  have "hdr_ok ?L (?d k)" "length (hblocks (?d k ! ?L)) \<le> length (hblocks (d ! ?L))" for k
    using recover_hdr [OF assms(5) len] by simp_all
  note H = this
  have "\<exists>u'. recover_from_log u = Inr u' \<and> (\<forall>m < length d. \<not> (?L \<le> m \<and> m \<le> ?L + length (hblocks (d ! ?L))) \<longrightarrow> disk u' ! m = disk t' ! m)"
    if b: "at_boot l (?d k) u" for k u
  proof -
    obtain u' where u': "recover_from_log u = Inr u'" "disk u' = apply_writes (recoverw ?L (?d k)) (?d k)"
      using recover_at_boot [OF b] assms(2-4) H(1) [of k] by auto
    have "disk u' ! m = image ?L (?d k) m" if "m < length d" "\<not> (?L \<le> m \<and> m \<le> ?L + length (hblocks (d ! ?L)))" for m
      unfolding u'(2) by (rule recover_image(3) [OF H(1)]) (use that assms(3) disk_block_length [OF b, of ?L] H(2) [of k] in auto)
    then show ?thesis using u'(1) R by (intro exI [of _ u']) auto
  qed
  then show ?thesis using t' R by (intro exI [of _ t'] exI [of _ "recoverw ?L d"]) auto
qed

text \<open>A disk as a crash after the header write leaves it: the header names block 35.\<close>

definition disk1 :: "uchar list list" where
  "disk1 = (replicate 40 (replicate BSIZE 0))[2 := wr32 4 35 (wr32 0 1 (replicate BSIZE 0)), 3 := (replicate BSIZE 0)[0 := 7]]"

lemma disk1_facts:
  "length disk1 = 40" "hblocks (disk1 ! 2) = [35]" "hdr_ok 2 disk1" "b \<in> set disk1 \<Longrightarrow> length b = BSIZE" "image 2 disk1 35 = (replicate BSIZE 0)[0 := 7]"
proof -
  show l: "length disk1 = 40" by (simp add: disk1_def)
  have d: "disk1 ! 2 = wr32 4 35 (wr32 0 1 (replicate BSIZE 0))" "disk1 ! 3 = (replicate BSIZE 0)[0 := 7]" by (simp_all add: disk1_def)
  have n: "rd32 (disk1 ! 2) 0 = 1" unfolding d by (simp add: BSIZE_def)
  show hb: "hblocks (disk1 ! 2) = [35]" unfolding hblocks_def n rd_addrs_def d by (simp add: BSIZE_def)
  show "hdr_ok 2 disk1" unfolding hdr_ok_def Let_def hb n l by (simp add: LOGSIZE_def MAXOPBLOCKS_def)
  show "length b = BSIZE" if "b \<in> set disk1"
    using that set_update_subset_insert unfolding disk1_def by (fastforce dest!: subsetD [OF set_update_subset_insert])
  show "image 2 disk1 35 = (replicate BSIZE 0)[0 := 7]"
    using image_at [of disk1 2 0] d(2) unfolding hb by simp
qed

theorem recovery_restartable_witness:
  "at_boot 2 disk1 (log0\<lparr>disk := disk1\<rparr>) \<and> hdr_ok 2 disk1 \<and> (\<exists>t ws u. recover_from_log (log0\<lparr>disk := disk1\<rparr>) = Inr t \<and>
     writes t = ws \<and> disk t ! 35 = (replicate BSIZE 0)[0 := 7] \<and>
     recover_from_log (log0\<lparr>disk := apply_writes (take 1 ws) disk1\<rparr>) = Inr u \<and> disk u ! 35 = (replicate BSIZE 0)[0 := 7])"
proof -
  note D = disk1_facts
  have b: "at_boot 2 disk1 (log0\<lparr>disk := disk1\<rparr>)" using boot_log0 D(4) by blast
  have g: "(0::int) \<le> 2" "nat 2 < length disk1" "length disk1 < 2 ^ 31" "hdr_ok (nat 2) disk1" using D(1,3) by simp_all
  obtain t ws where t: "recover_from_log (log0\<lparr>disk := disk1\<rparr>) = Inr t" "writes t = writes (log0\<lparr>disk := disk1\<rparr>) @ ws"
    "disk t ! 35 = image 2 disk1 35"
    "\<And>k u. at_boot 2 (apply_writes (take k ws) disk1) (u :: lg) \<Longrightarrow> \<exists>u'. recover_from_log u = Inr u' \<and> disk u' ! 35 = disk t ! 35"
    using recovery_restartable [OF b g] D(1,2) by fastforce
  have w: "writes t = ws" using t(2) log0_fields(2) by simp
  have ws: "ws = recoverw 2 disk1" using recover_at_boot [OF b g] t(1,2) by auto
  have "length x = BSIZE" if "(m, x) \<in> set ws" for m x
    using that D(2) D(4) [of "disk1 ! 2"] D(4) [of "disk1 ! 3"] D(1) unfolding ws by (auto simp: recoverw_def logwrites_def Let_def eval_nat_numeral)
  then have "length x = BSIZE" if "x \<in> set (apply_writes (take 1 ws) disk1)" for x
    by (intro apply_writes_length [OF _ D(4) that]) (auto dest: in_set_takeD)
  then have "at_boot 2 (apply_writes (take 1 ws) disk1) (log0\<lparr>disk := apply_writes (take 1 ws) disk1\<rparr>)" by (rule boot_log0)
  from t(4) [OF this] show ?thesis using b D(3,5) t(1,3) w by auto
qed

section \<open>A whole transaction\<close>

text \<open>The last operation ends: the transaction is committed, and the disk has the contents that the
  cache had.\<close>

lemma pt_upd_view:
  fixes s :: "'b lg_scheme"
  assumes "me (s\<lparr>committing := c, pt := t\<rparr>) = me s" "length (procs t) = length (procs (pt s))"
  shows "bio_ok (s\<lparr>committing := c, pt := t\<rparr>) = bio_ok s" "cont (s\<lparr>committing := c, pt := t\<rparr>) = cont s"
    "pinned (s\<lparr>committing := c, pt := t\<rparr>) = pinned s" "hb (s\<lparr>committing := c, pt := t\<rparr>) = hb s"
proof -
  have m: "me s = pid (procs t ! cur s)" using assms(1) by (simp add: me_def)
  show "bio_ok (s\<lparr>committing := c, pt := t\<rparr>) = bio_ok s" using assms m by (simp add: bio_ok_def)
  show "cont (s\<lparr>committing := c, pt := t\<rparr>) = cont s" by (simp add: cont_def fun_eq_iff split: option.split)
  show "pinned (s\<lparr>committing := c, pt := t\<rparr>) = pinned s" by (simp add: pinned_def)
  show "hb (s\<lparr>committing := c, pt := t\<rparr>) = hb s" using assms(1) by (simp add: hb_def fun_eq_iff)
qed

lemma commit_result:
  assumes "txn s" "m < length (disk s)" "\<not> (lpos s 0 \<le> m \<and> m \<le> lpos s (nat (lh_n s)))"
  shows "apply_writes (txn_writes s) (disk s) ! m = cont s m"
proof -
  let ?L = "lpos s 0" and ?h = "header s (cont s (lpos s 0))"
  have cd: "commit_disk ?L (tblocks s) (cont s) ?h (wr32 0 0 ?h) (disk s)" using txn_commit_disk [OF assms(1)] by (simp add: Let_def)
  have "\<not> (?L \<le> m \<and> m \<le> ?L + length (tblocks s))" using assms(3) by (simp add: tblocks_def lpos_def)
  note f = commit_finished(1) [OF cd this assms(2)]
  have "take (length (tblocks s)) (installs (tblocks s) (cont s)) = installs (tblocks s) (cont s)" by (simp add: installs_def)
  with f show ?thesis by (simp add: txn_writes_def Let_def commitw_def copies_def installs_def writes_append)
qed

lemma end_op_last:
  assumes "open_txn s" "hb s = Map.empty" "0 < lh_n s" "outstanding s = 1" "\<not> committing s"
  shows "\<exists>s'. end_op s = Inr s' \<and> outstanding s' = 0 \<and> \<not> committing s' \<and> lh_n s' = 0 \<and> pinned s' = {} \<and> hb s' = Map.empty \<and> bio_ok s' \<and>
    (\<forall>m < length (disk s). \<not> in_log s m \<longrightarrow> disk s' ! m = cont s m \<and> cont s' m = cont s m)"
proof -
  let ?s = "s\<lparr>outstanding := 0, committing := True\<rparr>"
  have v: "bio_ok ?s = bio_ok s" "cont ?s = cont s" "hb ?s = hb s" "pinned ?s = pinned s" "lpos ?s = lpos s" "blk ?s = blk s"
    by (simp_all add: bio_ok_def hb_def cont_def pinned_def me_def lpos_def blk_def fun_eq_iff split: option.split)
  have "txn s" by (rule open_txn_txn [OF assms(1-3)])
  then have t: "txn ?s" using v by (simp add: txn_def geometry_def blks_ok_def)
  obtain s1 where c: "commit ?s = Inr s1" "bio_ok s1" "hb s1 = Map.empty" "disk s1 = apply_writes (txn_writes ?s) (disk ?s)"
    "pinned s1 = {}" "lh_n s1 = 0" "outstanding s1 = 0"
    using commit_run [OF t] by auto
  let ?t = "s1\<lparr>committing := False, pt := wakeup CLog (pt s1)\<rparr>"
  have "me ?t = me s1" "length (procs (wakeup CLog (pt s1))) = length (procs (pt s1))"
    using me_wakeup [of s1 CLog] bio_okD(5) [OF c(2)] by (simp_all add: me_def wakeup_def)
  note p = pt_upd_view [OF this]
  have e: "end_op s = Inr ?t" using c(1) assms(4,5) by (simp add: end_op_def)
  have d: "disk s1 ! m = cont s m" "cont s1 m = cont s m" if "m < length (disk s)" "\<not> in_log s m" for m
  proof -
    have "nat (lh_n s) < nat (lsize s)" using open_txnD(7) [OF assms(1) refl] by linarith
    then have "\<not> (lpos s 0 \<le> m \<and> m \<le> lpos s (nat (lh_n s)))" using that(2) by (auto simp: in_log_def lpos_def)
    then show "disk s1 ! m = cont s m" using commit_result [OF t] that(1) v c(4) by simp
    then show "cont s1 m = cont s m" using clean_disk [OF c(2)] c(3,5) by simp
  qed
  show ?thesis using e c p d by (intro exI [of _ ?t]) simp
qed

text \<open>The updates of a system call, on the kernel's state and on the blocks they stand for.\<close>

definition run_updates :: "(uint \<times> (uchar list \<Rightarrow> uchar list)) list \<Rightarrow> 'b lg_scheme \<Rightarrow> 'b lg_scheme res" where
  "run_updates us s = foldE (\<lambda>(m, f). logged_update m f) us s"

definition spec_updates :: "(uint \<times> (uchar list \<Rightarrow> uchar list)) list \<Rightarrow> (nat \<Rightarrow> uchar list) \<Rightarrow> nat \<Rightarrow> uchar list" where
  "spec_updates us c = fold (\<lambda>(m, f) c. c(unat m := f (c (unat m)))) us c"

definition updates_ok :: "(uint \<times> (uchar list \<Rightarrow> uchar list)) list \<Rightarrow> 'b lg_scheme \<Rightarrow> bool" where
  "updates_ok us s \<longleftrightarrow> (\<forall>(m, f) \<in> set us. unat m < length (disk s) \<and> \<not> in_log s (unat m) \<and>
     (\<forall>d. length d = BSIZE \<longrightarrow> length (f d) = BSIZE))"

lemma run_updates_ok:
  assumes "open_txn s" "hb s = Map.empty" "updates_ok us s" "lh_n s + int (length us) < lsize s" "1 \<le> outstanding s"
  shows "\<exists>s'. run_updates us s = Inr s' \<and> open_txn s' \<and> hb s' = Map.empty \<and> cont s' = spec_updates us (cont s) \<and> disk s' = disk s \<and>
    writes s' = writes s \<and> outstanding s' = outstanding s \<and> committing s' = committing s \<and> in_log s' = in_log s \<and> (us \<noteq> [] \<longrightarrow> 0 < lh_n s') \<and> lh_n s \<le> lh_n s'"
  using assms
proof (induction us arbitrary: s)
  case Nil
  then show ?case by (simp add: run_updates_def spec_updates_def)
next
  case (Cons u us)
  obtain m f where u: "u = (m, f)" by fastforce
  have m: "unat m < length (disk s)" "\<not> in_log s (unat m)" "\<And>d. length d = BSIZE \<Longrightarrow> length (f d) = BSIZE"
    using Cons.prems(3) u by (simp_all add: updates_ok_def)
  have l: "lh_n s < lsize s - 1" using Cons.prems(4) by simp
  note T = open_txnD [OF Cons.prems(1) refl]
  have len: "length (f (cont s (unat m))) = BSIZE" using m(3) cont_length [OF T(1) m(1)] by blast
  obtain s1 where s1: "logged_update m f s = Inr s1" "open_txn s1" "hb s1 = Map.empty" "cont s1 = (cont s)(unat m := f (cont s (unat m)))"
    "pinned s1 = insert (unat m) (pinned s)" "disk s1 = disk s" "writes s1 = writes s"
    "lh_n s1 = (if unat m \<in> pinned s then lh_n s else lh_n s + 1)" "outstanding s1 = outstanding s" "lstart s1 = lstart s" "lsize s1 = lsize s"
    "committing s1 = committing s"
    using logged_update_ok [OF Cons.prems(1,2) m(1,2) l Cons.prems(5), of f, OF len] by blast
  have il: "in_log s1 = in_log s" using s1(10,11) by (simp add: in_log_def lpos_def fun_eq_iff)
  have pos: "0 < lh_n s1" using open_txnD(10,6) [OF s1(2) refl] s1(5) by (cases "nat (lh_n s1)") auto
  have "updates_ok us s1" using Cons.prems(3) il s1(6) by (simp add: updates_ok_def)
  moreover have "lh_n s1 + int (length us) < lsize s1" "1 \<le> outstanding s1" using s1(8,9,11) Cons.prems(4,5) by auto
  ultimately obtain s2 where s2: "run_updates us s1 = Inr s2" "open_txn s2" "hb s2 = Map.empty" "cont s2 = spec_updates us (cont s1)"
    "disk s2 = disk s1" "writes s2 = writes s1" "outstanding s2 = outstanding s1" "committing s2 = committing s1" "in_log s2 = in_log s1" "lh_n s1 \<le> lh_n s2"
    using Cons.IH [OF s1(2,3)] by blast
  have "run_updates (u # us) s = Inr s2" using s1(1) s2(1) u by (simp add: run_updates_def)
  moreover have "cont s2 = spec_updates (u # us) (cont s)" using s2(4) s1(4) u by (simp add: spec_updates_def)
  moreover have "lh_n s \<le> lh_n s2" using s1(8) s2(10) by (auto split: if_splits)
  ultimately show ?case using s1 s2 il pos by (intro exI [of _ s2]) simp
qed

text \<open>C3: A system call's transaction refines its specification.  Inside an operation, a sequence of
  logged block updates returns, changes the blocks that the cache stands for exactly as the updates
  applied one after the other do, and writes nothing to the disk; when the last operation then ends,
  \<open>end_op\<close> returns and every block of the disk outside the log has those contents.\<close>

theorem transaction_refines:
  assumes "open_txn s" "hb s = Map.empty" "outstanding s = 1" "\<not> committing s" "updates_ok us s" "us \<noteq> []"
    "lh_n s + int (length us) < lsize s"
  shows "\<exists>s1 s2. run_updates us s = Inr s1 \<and> cont s1 = spec_updates us (cont s) \<and> writes s1 = writes s \<and>
    end_op s1 = Inr s2 \<and> outstanding s2 = 0 \<and> lh_n s2 = 0 \<and> pinned s2 = {} \<and>
    (\<forall>m < length (disk s). \<not> in_log s m \<longrightarrow> disk s2 ! m = spec_updates us (cont s) m \<and> cont s2 m = spec_updates us (cont s) m)"
proof -
  have o: "1 \<le> outstanding s" using assms(3) by simp
  obtain s1 where s1: "run_updates us s = Inr s1" "open_txn s1" "hb s1 = Map.empty" "cont s1 = spec_updates us (cont s)" "disk s1 = disk s"
    "writes s1 = writes s" "outstanding s1 = outstanding s" "in_log s1 = in_log s" "0 < lh_n s1" "committing s1 = committing s"
    using run_updates_ok [OF assms(1,2,5,7) o] assms(6) by blast
  have "outstanding s1 = 1" "\<not> committing s1" using s1(7,10) assms(3,4) by simp_all
  then obtain s2 where "end_op s1 = Inr s2" "outstanding s2 = 0" "lh_n s2 = 0" "pinned s2 = {}"
    "\<forall>m < length (disk s). \<not> in_log s m \<longrightarrow> disk s2 ! m = cont s1 m \<and> cont s2 m = cont s1 m"
    using end_op_last [OF s1(2,3,9)] s1(5,8) by auto
  with s1(1,4,6) show ?thesis by auto
qed

theorem transaction_refines_witness:
  "open_txn log0 \<and> updates_ok [(35, \<lambda>d. d[0 := 7]), (36, \<lambda>d. d[1 := 9]), (35, \<lambda>d. d[2 := 5])] log0 \<and>
   (\<exists>s1 s2. run_updates [(35, \<lambda>d. d[0 := 7]), (36, \<lambda>d. d[1 := 9]), (35, \<lambda>d. d[2 := 5])] log0 = Inr s1 \<and> writes s1 = [] \<and> end_op s1 = Inr s2 \<and>
     disk s2 ! 35 = (replicate BSIZE 0)[0 := 7, 2 := 5] \<and> disk s2 ! 36 = (replicate BSIZE 0)[1 := 9] \<and> disk s2 ! 37 = replicate BSIZE 0)"
proof -
  let ?us = "[(35, \<lambda>d. d[0 := 7]), (36, \<lambda>d. d[1 := 9]), (35, \<lambda>d. d[2 := 5])] :: (uint \<times> (uchar list \<Rightarrow> uchar list)) list"
  have u: "updates_ok ?us log0" by (simp add: updates_ok_def in_log_def lpos_def log0_fields)
  have h: "outstanding log0 = 1" "\<not> committing log0" "?us \<noteq> []" "lh_n log0 + int (length ?us) < lsize log0"
    by (simp_all add: log0_def binit_def)
  obtain s1 s2 where s: "run_updates ?us log0 = Inr s1" "writes s1 = writes log0" "end_op s1 = Inr s2"
    "\<And>m. m < length (disk log0) \<Longrightarrow> \<not> in_log log0 m \<Longrightarrow> disk s2 ! m = spec_updates ?us (cont log0) m"
    using transaction_refines [OF open_log0 log0_ok(2) h(1,2) u h(3,4)] by blast
  have l: "length (disk log0) = 40" "\<not> in_log log0 35" "\<not> in_log log0 36" "\<not> in_log log0 37"
    by (simp_all add: log0_fields in_log_def lpos_def)
  have d: "disk s2 ! 35 = (replicate BSIZE 0)[0 := 7, 2 := 5]" "disk s2 ! 36 = (replicate BSIZE 0)[1 := 9]" "disk s2 ! 37 = replicate BSIZE 0"
    using s(4) [of 35] s(4) [of 36] s(4) [of 37] l by (simp_all add: spec_updates_def log0_ok(4))
  show ?thesis
    by (intro conjI open_log0 u exI [of _ s1] exI [of _ s2]) (use s(1-3) d log0_fields(2) in simp_all)
qed

end
