(* ===== verification/Xv6_Console.thy ===== *)
theory Xv6_Console
  imports Xv6_Log
begin

text \<open>
  Console and keyboard (Xv6-Syscall/src/console.c, kbd.c, kbd.h and the output side of
  uart.c): the text screen with its cursor, formatted printing, the keyboard's shift state,
  and the line-edited input buffer.  The screen memory is a list of cells, the cursor
  register a number, the serial line the list of the bytes sent.

  \<open>consoleread\<close> and \<open>consolewrite\<close> lock inodes and are in the theory of the inode layer's
  readers; \<open>procdump\<close>, which Control-P asks for, is in the theory of processes.
\<close>

section \<open>State\<close>

definition INPUT_BUF :: uint where "INPUT_BUF = 128"
definition BACKSPACE :: uint where "BACKSPACE = 0x100"

record kcons = lg +
  crt :: "ushort list"
  crtpos :: int
  uart :: bool
  uartout :: "uchar list"
  panicked :: bool
  locking :: bool
  inbuf :: "uchar list"
  in_r :: uint
  in_w :: uint
  in_e :: uint

text \<open>String literals of the source as bytes.\<close>

definition ascii :: "string \<Rightarrow> uchar list" where
  "ascii cs = map of_char cs"

section \<open>Output\<close>

definition uartputc :: "uint \<Rightarrow> 'b kcons_scheme \<Rightarrow> 'b kcons_scheme" where
  "uartputc c s = (if \<not> uart s then s else s\<lparr>uartout := uartout s @ [ucast c]\<rparr>)"

definition cga_cell :: "uint \<Rightarrow> ushort" where
  "cga_cell c = ucast (c AND 0xff) OR 0x0700"

definition cga_scroll :: "int \<Rightarrow> ushort list \<Rightarrow> ushort list" where
  "cga_scroll pos cells =
     (let cells = take (23 * 80) (drop 80 cells) @ drop (23 * 80) cells
      in take (nat pos) cells @ replicate (24 * 80 - nat pos) 0 @ drop (max (24 * 80) (nat pos)) cells)"

definition cgaputc :: "uint \<Rightarrow> 'b kcons_scheme \<Rightarrow> 'b kcons_scheme res" where
  "cgaputc c s =
     (let pos = crtpos s;
          (pos, s) = (if c = 10 then (pos + (80 - pos mod 80), s)
            else if c = BACKSPACE then (if pos > 0 then pos - 1 else pos, s)
            else (pos + 1, s\<lparr>crt := (crt s)[nat pos := cga_cell c]\<rparr>))
      in if pos < 0 \<or> pos > 25 * 80 then panic ''pos under/overflow''
         else let (pos, s) = (if pos div 80 \<ge> 24
                then (pos - 80, s\<lparr>crt := cga_scroll (pos - 80) (crt s)\<rparr>) else (pos, s))
              in Inr (s\<lparr>crtpos := pos, crt := (crt s)[nat pos := 0x20 OR 0x0700]\<rparr>))"

definition consputc :: "uint \<Rightarrow> 'b kcons_scheme \<Rightarrow> 'b kcons_scheme res" where
  "consputc c s =
     (if panicked s then Inl (Block ''panicked'')
      else cgaputc c (if c = BACKSPACE then uartputc 8 (uartputc 0x20 (uartputc 8 s)) else uartputc c s))"

text \<open>The digits of \<open>printint\<close>, last one first, as its loop puts them into \<open>buf\<close>.\<close>

definition digits :: "uchar list" where
  "digits = ascii ''0123456789abcdef''"

function int_digits :: "nat \<Rightarrow> nat \<Rightarrow> uchar list" where
  "int_digits x base = digits ! (x mod base) #
     (if x div base \<noteq> 0 \<and> 2 \<le> base then int_digits (x div base) base else [])"
  by pat_completeness auto
termination by (relation "measure fst") (auto simp: div_greater_zero_iff intro!: div_less_dividend)

declare int_digits.simps [simp del]

definition printint_chars :: "uint \<Rightarrow> nat \<Rightarrow> bool \<Rightarrow> uchar list" where
  "printint_chars xx base sign =
     (let neg = (sign \<and> sint xx < 0);
          x = (if neg then - xx else xx)
      in rev (int_digits (unat x) base @ (if neg then [0x2d] else [])))"

definition consputs :: "uchar list \<Rightarrow> 'b kcons_scheme \<Rightarrow> 'b kcons_scheme res" where
  "consputs cs s = foldE (\<lambda>c. consputc (ucast c)) cs s"

definition printint :: "uint \<Rightarrow> nat \<Rightarrow> bool \<Rightarrow> 'b kcons_scheme \<Rightarrow> 'b kcons_scheme res" where
  "printint xx base sign s = consputs (printint_chars xx base sign) s"

text \<open>The arguments of \<open>cprintf\<close>: numbers, and pointers to strings given by the string.  A format
  that asks for an argument of the other kind, or for more arguments than there are, reads
  the stack beyond them.\<close>

datatype carg = AInt uint | AStr "uchar list"

fun cprintf_loop :: "uchar list \<Rightarrow> carg list \<Rightarrow> 'b kcons_scheme \<Rightarrow> 'b kcons_scheme res" where
  "cprintf_loop [] args s = Inr s"
| "cprintf_loop (c # cs) args s =
     (if c \<noteq> 0x25 then bindE (consputc (ucast c) s) (cprintf_loop cs args)
      else case cs of
        [] \<Rightarrow> Inr s
      | d # ds \<Rightarrow>
          if d = 0x64 then
            (case args of AInt x # as \<Rightarrow> bindE (printint x 10 True s) (cprintf_loop ds as)
              | _ \<Rightarrow> Inl (Undef ''cprintf''))
          else if d = 0x78 \<or> d = 0x70 then
            (case args of AInt x # as \<Rightarrow> bindE (printint x 16 False s) (cprintf_loop ds as)
              | _ \<Rightarrow> Inl (Undef ''cprintf''))
          else if d = 0x73 then
            (case args of
               AStr t # as \<Rightarrow> bindE (consputs t s) (cprintf_loop ds as)
             | AInt x # as \<Rightarrow> if x = 0 then bindE (consputs (ascii ''(null)'') s) (cprintf_loop ds as)
                 else Inl (Undef ''cprintf'')
             | [] \<Rightarrow> Inl (Undef ''cprintf''))
          else if d = 0x25 then bindE (consputc 0x25 s) (cprintf_loop ds args)
          else bindE (consputc 0x25 s) (\<lambda>s. bindE (consputc (ucast d) s) (cprintf_loop ds args)))"

definition cprintf :: "uchar list option \<Rightarrow> carg list \<Rightarrow> 'b kcons_scheme \<Rightarrow> 'b kcons_scheme res" where
  "cprintf fmt args s = (case fmt of None \<Rightarrow> panic ''null fmt'' | Some f \<Rightarrow> cprintf_loop f args s)"

section \<open>Keyboard\<close>

definition SHIFT :: uint where "SHIFT = 1"
definition CTL :: uint where "CTL = 2"
definition ALT :: uint where "ALT = 4"
definition CAPSLOCK :: uint where "CAPSLOCK = 8"
definition NUMLOCK :: uint where "NUMLOCK = 16"
definition SCROLLLOCK :: uint where "SCROLLLOCK = 32"
definition E0ESC :: uint where "E0ESC = 64"

text \<open>The tables of kbd.h; the entries that a table does not list are 0.\<close>

definition shiftcode :: "nat \<Rightarrow> uint" where
  "shiftcode d = (if d = 0x1D \<or> d = 0x9D then CTL else if d = 0x2A \<or> d = 0x36 then SHIFT
     else if d = 0x38 \<or> d = 0xB8 then ALT else 0)"

definition togglecode :: "nat \<Rightarrow> uint" where
  "togglecode d = (if d = 0x3A then CAPSLOCK else if d = 0x45 then NUMLOCK else if d = 0x46 then SCROLLLOCK else 0)"

text \<open>The keys \<open>KEY_UP\<close> and so on, the same in all three tables.\<close>

definition special_keys :: "(nat \<times> uchar) list" where
  "special_keys = [(0xC8, 0xE2), (0xD0, 0xE3), (0xC9, 0xE6), (0xD1, 0xE7), (0xCB, 0xE4), (0xCD, 0xE5),
     (0x97, 0xE0), (0xCF, 0xE1), (0xD2, 0xE8), (0xD3, 0xE9)]"

definition key_table :: "uchar list \<Rightarrow> (nat \<times> uchar) list \<Rightarrow> nat \<Rightarrow> uchar" where
  "key_table ks ex d = (if d < length ks then ks ! d else
     case map_of (ex @ special_keys) d of Some c \<Rightarrow> c | None \<Rightarrow> 0)"

definition normalmap :: "nat \<Rightarrow> uchar" where
  "normalmap = key_table (
     [0, 0x1B] @ ascii ''1234567890-='' @ [8, 9] @ ascii ''qwertyuiop[]'' @ [10, 0] @
     ascii ''asdfghjkl;'' @ [0x27, 0x60, 0, 0x5C] @ ascii ''zxcvbnm,./'' @ [0, 0x2A, 0, 0x20] @
     replicate 13 0 @ ascii ''789-456+1230.'' @ [0, 0, 0, 0]) [(0x9C, 10), (0xB5, 0x2F)]"

definition shiftmap :: "nat \<Rightarrow> uchar" where
  "shiftmap = key_table (
     [0, 0x1B] @ ascii ''!@#$%^&*()_+'' @ [8, 9] @ ascii ''QWERTYUIOP{}'' @ [10, 0] @
     ascii ''ASDFGHJKL:'' @ [0x22, 0x7E, 0, 0x7C] @ ascii ''ZXCVBNM<>?'' @ [0, 0x2A, 0, 0x20] @
     replicate 13 0 @ ascii ''789-456+1230.'' @ [0, 0, 0, 0]) [(0x9C, 10), (0xB5, 0x2F)]"

text \<open>\<open>C(x) = x - '@'\<close>, in a byte.\<close>

definition ctl :: "string \<Rightarrow> uchar list" where
  "ctl cs = map (\<lambda>c. c - 0x40) (ascii cs)"

definition ctlmap :: "nat \<Rightarrow> uchar" where
  "ctlmap = key_table (replicate 16 0 @ ctl ''QWERTYUIOP'' @ [0, 0, 13, 0] @ ctl ''ASDFGHJKL'' @ [0, 0, 0, 0, 0x1C] @
     ctl ''ZXCVBNM'' @ [0, 0] @ ctl ''/'' @ [0, 0]) [(0x9C, 13), (0xB5, 0x2F - 0x40)]"

definition charcode :: "uint \<Rightarrow> nat \<Rightarrow> uchar" where
  "charcode m = (if m = 0 then normalmap else if m = 1 then shiftmap else ctlmap)"

text \<open>\<open>kbdgetc\<close> with the byte the controller has ready, if any; the shift state goes through.\<close>

definition kbdgetc :: "uchar option \<Rightarrow> uint \<Rightarrow> int \<times> uint" where
  "kbdgetc inp shift =
     (case inp of None \<Rightarrow> (-1, shift)
      | Some data \<Rightarrow>
          if data = 0xE0 then (0, shift OR E0ESC)
          else if data AND 0x80 \<noteq> 0 then
            let data = (if shift AND E0ESC \<noteq> 0 then data else data AND 0x7F)
            in (0, shift AND NOT (shiftcode (unat data) OR E0ESC))
          else
            let (data, shift) = (if shift AND E0ESC \<noteq> 0 then (data OR 0x80, shift AND NOT E0ESC) else (data, shift));
                shift = shift OR shiftcode (unat data);
                shift = shift XOR togglecode (unat data);
                c = charcode (shift AND (CTL OR SHIFT)) (unat data);
                c = (if shift AND CAPSLOCK \<noteq> 0 then
                       if 0x61 \<le> c \<and> c \<le> 0x7A then c - 0x20
                       else if 0x41 \<le> c \<and> c \<le> 0x5A then c + 0x20 else c
                     else c)
            in (uint c, shift))"

text \<open>The characters \<open>kbdintr\<close> hands to \<open>consoleintr\<close> for the bytes that are waiting.\<close>

fun kbd_chars :: "uchar list \<Rightarrow> uint \<Rightarrow> int list \<times> uint" where
  "kbd_chars [] shift = ([], shift)"
| "kbd_chars (d # ds) shift =
     (let (c, shift) = kbdgetc (Some d) shift; (cs, shift) = kbd_chars ds shift in (c # cs, shift))"

section \<open>Line-edited input\<close>

text \<open>The loop of Control-U.  The edit index can be at most 128 ahead of the write index, so the
  distance between the two bounds the loop.\<close>

fun kill_line :: "nat \<Rightarrow> 'b kcons_scheme \<Rightarrow> 'b kcons_scheme res" where
  "kill_line fuel s =
     (if in_e s \<noteq> in_w s \<and> inbuf s ! unat ((in_e s - 1) mod INPUT_BUF) \<noteq> 10 then
        case fuel of 0 \<Rightarrow> Inl (Undef ''input.e'')
        | Suc fuel \<Rightarrow> bindE (consputc BACKSPACE (s\<lparr>in_e := in_e s - 1\<rparr>)) (kill_line fuel)
      else Inr s)"

declare kill_line.simps [simp del]

definition consoleintr_char :: "int \<Rightarrow> 'b kcons_scheme \<Rightarrow> (bool \<times> 'b kcons_scheme) res" where
  "consoleintr_char c s =
     (if c = 16 then Inr (True, s)
      else if c = 21 then bindE (kill_line (unat (in_e s - in_w s)) s) (\<lambda>s. Inr (False, s))
      else if c = 8 \<or> c = 0x7f then
        if in_e s \<noteq> in_w s then bindE (consputc BACKSPACE (s\<lparr>in_e := in_e s - 1\<rparr>)) (\<lambda>s. Inr (False, s))
        else Inr (False, s)
      else if c \<noteq> 0 \<and> in_e s - in_r s < INPUT_BUF then
        let c = (if c = 13 then 10 else c);
            s = s\<lparr>inbuf := (inbuf s)[unat (in_e s mod INPUT_BUF) := of_int c], in_e := in_e s + 1\<rparr>
        in bindE (consputc (of_int c) s) (\<lambda>s.
           Inr (False, if c = 10 \<or> c = 4 \<or> in_e s = in_r s + INPUT_BUF
             then s\<lparr>in_w := in_e s, pt := wakeup CInput (pt s)\<rparr> else s))
      else Inr (False, s))"

text \<open>\<open>consoleintr\<close> up to its call of \<open>procdump\<close>, with the characters \<open>getc\<close> gives before it
  gives a negative number; the result says whether \<open>procdump\<close> is to be called.\<close>

fun consoleintr_loop :: "int list \<Rightarrow> bool \<Rightarrow> 'b kcons_scheme \<Rightarrow> (bool \<times> 'b kcons_scheme) res" where
  "consoleintr_loop [] d s = Inr (d, s)"
| "consoleintr_loop (c # cs) d s = bindE (consoleintr_char c s) (\<lambda>(e, s). consoleintr_loop cs (d \<or> e) s)"

end
