(* ===== verification/Xv6_Inode.thy ===== *)
theory Xv6_Inode
  imports Xv6_Console
begin

text \<open>
  Blocks and inodes (Xv6-Syscall/src/fs.c up to the readers and writers of file contents,
  and \<open>struct inode\<close> of file.h): the block bitmap, the inode cache, inode allocation, the
  map from file blocks to disk blocks, and truncation.

  An inode pointer is an index into \<open>icache.inode\<close>.  The sleep lock of inode \<open>i\<close> has the
  channel \<open>CSleeplock (NBUF + 1 + i)\<close>, since the buffers have the channels below.
\<close>

section \<open>Data\<close>

definition NINODE :: nat where "NINODE = 50"
definition NDEV :: int where "NDEV = 10"
definition T_DIR :: ushort where "T_DIR = 1"
definition T_FILE :: ushort where "T_FILE = 2"
definition T_DEV :: ushort where "T_DEV = 3"

record inode =
  idev :: uint
  inum :: uint
  iref :: int
  islock :: sleeplock
  ivalid :: bool
  itype :: ushort
  imajor :: ushort
  iminor :: ushort
  inlink :: ushort
  isize :: uint
  iaddrs :: "uint list"

text \<open>An entry of the device table \<open>devsw\<close>: the functions the console registers, or null.\<close>

datatype devfn = DevNone | DevConsole

record fss = kcons +
  sb :: superblock
  inodes :: "inode list"
  devread :: "devfn list"
  devwrite :: "devfn list"

abbreviation inode_at :: "'b fss_scheme \<Rightarrow> nat \<Rightarrow> inode" where
  "inode_at s i \<equiv> inodes s ! i"

definition upd_inode :: "nat \<Rightarrow> (inode \<Rightarrow> inode) \<Rightarrow> 'b fss_scheme \<Rightarrow> 'b fss_scheme" where
  "upd_inode i f s = s\<lparr>inodes := (inodes s)[i := f (inodes s ! i)]\<rparr>"

definition ichan :: "nat \<Rightarrow> nat" where "ichan i = NBUF + 1 + i"

section \<open>Blocks\<close>

definition bzero :: "uint \<Rightarrow> uint \<Rightarrow> 'b lg_scheme \<Rightarrow> 'b lg_scheme res" where
  "bzero dev bno s =
     bindE (bread dev bno s) (\<lambda>(bp, s).
     bindE (log_write bp (upd_data bp (\<lambda>d. replicate BSIZE 0 @ drop BSIZE d) s)) (brelse bp))"

definition bit_set :: "uchar list \<Rightarrow> nat \<Rightarrow> bool" where
  "bit_set d bi \<longleftrightarrow> d ! (bi div 8) AND push_bit (bi mod 8) 1 \<noteq> 0"

text \<open>The loop of \<open>balloc\<close> over the bitmap blocks, given by the numbers \<open>b\<close> of the first block each
  of them speaks of.\<close>

fun balloc_loop :: "uint \<Rightarrow> nat list \<Rightarrow> 'b fss_scheme \<Rightarrow> (uint \<times> 'b fss_scheme) res" where
  "balloc_loop dev [] s = panic ''balloc: out of blocks''"
| "balloc_loop dev (b # bs) s =
     bindE (bread dev (BBLOCK (of_nat b) (sb s)) s) (\<lambda>(bp, s).
     case find (\<lambda>bi. \<not> bit_set (bdata (buf_at s bp)) bi) [0..<min BPB (unat (sb_size (sb s)) - b)] of
       Some bi \<Rightarrow>
         bindE (log_write bp (upd_data bp (\<lambda>d. d[bi div 8 := d ! (bi div 8) OR push_bit (bi mod 8) 1]) s)) (\<lambda>s.
         bindE (brelse bp s) (\<lambda>s.
         bindE (bzero dev (of_nat (b + bi)) s) (\<lambda>s.
         Inr (of_nat (b + bi), s))))
     | None \<Rightarrow> bindE (brelse bp s) (balloc_loop dev bs))"

definition balloc :: "uint \<Rightarrow> 'b fss_scheme \<Rightarrow> (uint \<times> 'b fss_scheme) res" where
  "balloc dev s = balloc_loop dev (map (\<lambda>i. i * BPB) [0..<(unat (sb_size (sb s)) + BPB - 1) div BPB]) s"

definition bfree :: "uint \<Rightarrow> uint \<Rightarrow> 'b fss_scheme \<Rightarrow> 'b fss_scheme res" where
  "bfree dev b s =
     bindE (bread dev (BBLOCK b (sb s)) s) (\<lambda>(bp, s).
     let bi = unat b mod BPB in
     if \<not> bit_set (bdata (buf_at s bp)) bi then panic ''freeing free block''
     else bindE (log_write bp (upd_data bp (\<lambda>d. d[bi div 8 := d ! (bi div 8) AND NOT (push_bit (bi mod 8) 1)]) s))
            (brelse bp))"

section \<open>The inode cache\<close>

definition iinit :: "uint \<Rightarrow> 'b fss_scheme \<Rightarrow> 'b fss_scheme res" where
  "iinit dev s =
     (let s = s\<lparr>inodes := map (\<lambda>x. x\<lparr>islock := initsleeplock (islock x)\<rparr>) (inodes s)\<rparr> in
      bindE (readsb dev s) (\<lambda>(b, s).
      cprintf (Some (ascii ''sb: size %d nblocks %d ninodes %d nlog %d logstart %d inodestart %d bmap start %d'' @ [10]))
        [AInt (sb_size b), AInt (sb_nblocks b), AInt (sb_ninodes b), AInt (sb_nlog b), AInt (sb_logstart b),
         AInt (sb_inodestart b), AInt (sb_bmapstart b)] (s\<lparr>sb := b\<rparr>)))"

definition iget :: "uint \<Rightarrow> uint \<Rightarrow> 'b fss_scheme \<Rightarrow> (nat \<times> 'b fss_scheme) res" where
  "iget dev ino s =
     (case find_index (\<lambda>x. iref x > 0 \<and> idev x = dev \<and> inum x = ino) (inodes s) of
        Some i \<Rightarrow> Inr (i, upd_inode i (\<lambda>x. x\<lparr>iref := iref x + 1\<rparr>) s)
      | None \<Rightarrow>
          (case find_index (\<lambda>x. iref x = 0) (inodes s) of
             None \<Rightarrow> panic ''iget: no inodes''
           | Some i \<Rightarrow> Inr (i, upd_inode i (\<lambda>x. x\<lparr>idev := dev, inum := ino, iref := 1, ivalid := False\<rparr>) s)))"

text \<open>The place of an inode in its block, and its type there.\<close>

definition ioff :: "uint \<Rightarrow> nat" where "ioff ino = 64 * (unat ino mod IPB)"

definition dinode0 :: dinode where
  "dinode0 = \<lparr>d_type = 0, d_major = 0, d_minor = 0, d_nlink = 0, d_size = 0, d_addrs = replicate 13 0\<rparr>"

fun ialloc_loop :: "uint \<Rightarrow> ushort \<Rightarrow> nat list \<Rightarrow> 'b fss_scheme \<Rightarrow> (nat \<times> 'b fss_scheme) res" where
  "ialloc_loop dev ty [] s = panic ''ialloc: no inodes''"
| "ialloc_loop dev ty (n # ns) s =
     bindE (bread dev (IBLOCK (of_nat n) (sb s)) s) (\<lambda>(bp, s).
     if d_type (rd_dinode (bdata (buf_at s bp)) (ioff (of_nat n))) = 0 then
       bindE (log_write bp (upd_data bp (wr_dinode (ioff (of_nat n)) (dinode0\<lparr>d_type := ty\<rparr>)) s)) (\<lambda>s.
       bindE (brelse bp s) (iget dev (of_nat n)))
     else bindE (brelse bp s) (ialloc_loop dev ty ns))"

definition ialloc :: "uint \<Rightarrow> ushort \<Rightarrow> 'b fss_scheme \<Rightarrow> (nat \<times> 'b fss_scheme) res" where
  "ialloc dev ty s = ialloc_loop dev ty [1..<unat (sb_ninodes (sb s))] s"

definition dinode_of :: "inode \<Rightarrow> dinode" where
  "dinode_of x = \<lparr>d_type = itype x, d_major = imajor x, d_minor = iminor x, d_nlink = inlink x,
     d_size = isize x, d_addrs = iaddrs x\<rparr>"

definition iupdate :: "nat \<Rightarrow> 'b fss_scheme \<Rightarrow> 'b fss_scheme res" where
  "iupdate ip s =
     bindE (bread (idev (inode_at s ip)) (IBLOCK (inum (inode_at s ip)) (sb s)) s) (\<lambda>(bp, s).
     bindE (log_write bp (upd_data bp (wr_dinode (ioff (inum (inode_at s ip))) (dinode_of (inode_at s ip))) s))
       (brelse bp))"

definition idup :: "nat \<Rightarrow> 'b fss_scheme \<Rightarrow> nat \<times> 'b fss_scheme" where
  "idup ip s = (ip, upd_inode ip (\<lambda>x. x\<lparr>iref := iref x + 1\<rparr>) s)"

definition iacquire :: "nat \<Rightarrow> 'b fss_scheme \<Rightarrow> 'b fss_scheme res" where
  "iacquire ip s = bindE (acquiresleep (me s) (islock (inode_at s ip)))
     (\<lambda>lk. Inr (upd_inode ip (\<lambda>x. x\<lparr>islock := lk\<rparr>) s))"

definition irelease :: "nat \<Rightarrow> 'b fss_scheme \<Rightarrow> 'b fss_scheme" where
  "irelease ip s = (let (lk, t) = releasesleep (ichan ip) (islock (inode_at s ip)) (pt s)
     in upd_inode ip (\<lambda>x. x\<lparr>islock := lk\<rparr>) (s\<lparr>pt := t\<rparr>))"

definition ilock :: "nat option \<Rightarrow> 'b fss_scheme \<Rightarrow> 'b fss_scheme res" where
  "ilock p s =
     (case p of None \<Rightarrow> panic ''ilock''
      | Some ip \<Rightarrow>
          if iref (inode_at s ip) < 1 then panic ''ilock''
          else bindE (iacquire ip s) (\<lambda>s.
            if \<not> ivalid (inode_at s ip) then
              bindE (bread (idev (inode_at s ip)) (IBLOCK (inum (inode_at s ip)) (sb s)) s) (\<lambda>(bp, s).
              let dip = rd_dinode (bdata (buf_at s bp)) (ioff (inum (inode_at s ip)));
                  s = upd_inode ip (\<lambda>x. x\<lparr>itype := d_type dip, imajor := d_major dip, iminor := d_minor dip,
                        inlink := d_nlink dip, isize := d_size dip, iaddrs := d_addrs dip\<rparr>) s
              in bindE (brelse bp s) (\<lambda>s.
                 let s = upd_inode ip (\<lambda>x. x\<lparr>ivalid := True\<rparr>) s in
                 if itype (inode_at s ip) = 0 then panic ''ilock: no type'' else Inr s))
            else Inr s))"

definition iunlock :: "nat option \<Rightarrow> 'b fss_scheme \<Rightarrow> 'b fss_scheme res" where
  "iunlock p s =
     (case p of None \<Rightarrow> panic ''iunlock''
      | Some ip \<Rightarrow>
          if \<not> holdingsleep (me s) (islock (inode_at s ip)) \<or> iref (inode_at s ip) < 1 then panic ''iunlock''
          else Inr (irelease ip s))"

section \<open>File blocks\<close>

definition bmap :: "nat \<Rightarrow> uint \<Rightarrow> 'b fss_scheme \<Rightarrow> (uint \<times> 'b fss_scheme) res" where
  "bmap ip bn s =
     (if unat bn < NDIRECT then
        (if iaddrs (inode_at s ip) ! unat bn = 0 then
           bindE (balloc (idev (inode_at s ip)) s) (\<lambda>(addr, s).
           Inr (addr, upd_inode ip (\<lambda>x. x\<lparr>iaddrs := (iaddrs x)[unat bn := addr]\<rparr>) s))
         else Inr (iaddrs (inode_at s ip) ! unat bn, s))
      else if unat bn - NDIRECT < NINDIRECT then
        let bn = unat bn - NDIRECT in
        bindE (if iaddrs (inode_at s ip) ! NDIRECT = 0 then
                 bindE (balloc (idev (inode_at s ip)) s) (\<lambda>(addr, s).
                 Inr (addr, upd_inode ip (\<lambda>x. x\<lparr>iaddrs := (iaddrs x)[NDIRECT := addr]\<rparr>) s))
               else Inr (iaddrs (inode_at s ip) ! NDIRECT, s)) (\<lambda>(addr, s).
        bindE (bread (idev (inode_at s ip)) addr s) (\<lambda>(bp, s).
        if rd32 (bdata (buf_at s bp)) (4 * bn) = 0 then
          bindE (balloc (idev (inode_at s ip)) s) (\<lambda>(addr, s).
          bindE (log_write bp (upd_data bp (wr32 (4 * bn) addr) s)) (\<lambda>s.
          bindE (brelse bp s) (\<lambda>s. Inr (addr, s))))
        else let addr = rd32 (bdata (buf_at s bp)) (4 * bn) in
          bindE (brelse bp s) (\<lambda>s. Inr (addr, s))))
      else panic ''bmap: out of range'')"

definition itrunc_direct :: "nat \<Rightarrow> nat \<Rightarrow> 'b fss_scheme \<Rightarrow> 'b fss_scheme res" where
  "itrunc_direct ip i s =
     (if iaddrs (inode_at s ip) ! i \<noteq> 0 then
        bindE (bfree (idev (inode_at s ip)) (iaddrs (inode_at s ip) ! i) s) (\<lambda>s.
        Inr (upd_inode ip (\<lambda>x. x\<lparr>iaddrs := (iaddrs x)[i := 0]\<rparr>) s))
      else Inr s)"

definition itrunc :: "nat \<Rightarrow> 'b fss_scheme \<Rightarrow> 'b fss_scheme res" where
  "itrunc ip s =
     bindE (foldE (itrunc_direct ip) [0..<NDIRECT] s) (\<lambda>s.
     bindE (if iaddrs (inode_at s ip) ! NDIRECT \<noteq> 0 then
              bindE (bread (idev (inode_at s ip)) (iaddrs (inode_at s ip) ! NDIRECT) s) (\<lambda>(bp, s).
              bindE (foldE (\<lambda>j s. let a = rd32 (bdata (buf_at s bp)) (4 * j) in
                       if a \<noteq> 0 then bfree (idev (inode_at s ip)) a s else Inr s) [0..<NINDIRECT] s) (\<lambda>s.
              bindE (brelse bp s) (\<lambda>s.
              bindE (bfree (idev (inode_at s ip)) (iaddrs (inode_at s ip) ! NDIRECT) s) (\<lambda>s.
              Inr (upd_inode ip (\<lambda>x. x\<lparr>iaddrs := (iaddrs x)[NDIRECT := 0]\<rparr>) s)))))
            else Inr s) (\<lambda>s.
     iupdate ip (upd_inode ip (\<lambda>x. x\<lparr>isize := 0\<rparr>) s)))"

definition iput :: "nat \<Rightarrow> 'b fss_scheme \<Rightarrow> 'b fss_scheme res" where
  "iput ip s =
     bindE (iacquire ip s) (\<lambda>s.
     bindE (if ivalid (inode_at s ip) \<and> inlink (inode_at s ip) = 0 \<and> iref (inode_at s ip) = 1 then
              bindE (itrunc ip s) (\<lambda>s.
              bindE (iupdate ip (upd_inode ip (\<lambda>x. x\<lparr>itype := 0\<rparr>) s)) (\<lambda>s.
              Inr (upd_inode ip (\<lambda>x. x\<lparr>ivalid := False\<rparr>) s)))
            else Inr s) (\<lambda>s.
     Inr (upd_inode ip (\<lambda>x. x\<lparr>iref := iref x - 1\<rparr>) (irelease ip s))))"

definition iunlockput :: "nat \<Rightarrow> 'b fss_scheme \<Rightarrow> 'b fss_scheme res" where
  "iunlockput ip s = bindE (iunlock (Some ip) s) (iput ip)"

text \<open>\<open>struct stat\<close> and \<open>stati\<close>.\<close>

record stat =
  st_type :: ushort
  st_dev :: uint
  st_ino :: uint
  st_nlink :: ushort
  st_size :: uint

definition stati :: "nat \<Rightarrow> 'b fss_scheme \<Rightarrow> stat" where
  "stati ip s = \<lparr>st_type = itype (inode_at s ip), st_dev = idev (inode_at s ip), st_ino = inum (inode_at s ip),
     st_nlink = inlink (inode_at s ip), st_size = isize (inode_at s ip)\<rparr>"

end
