(* ===== verification/Xv6_Fs.thy ===== *)
theory Xv6_Fs
  imports Xv6_Inode
begin

text \<open>
  File contents, directories and path names (the second half of Xv6-Syscall/src/fs.c), and
  the console as a device file (\<open>consoleread\<close> and \<open>consolewrite\<close> of console.c), which
  \<open>readi\<close> and \<open>writei\<close> call through the device table.

  A destination or source buffer is given as the list of its bytes: \<open>readi\<close> returns what it
  moves to \<open>dst\<close>, in order, and \<open>writei\<close> takes the \<open>n\<close> bytes at \<open>src\<close>.  A path is the list of
  its bytes before the terminating NUL; a name is a list of at most \<open>DIRSIZ\<close> bytes that ends
  at its first NUL.
\<close>

section \<open>The console as a device\<close>

text \<open>The loop of \<open>consoleread\<close>, reading at most \<open>n\<close> more bytes after \<open>acc\<close>; \<open>None\<close> when the process
  was killed.\<close>

fun consoleread_loop :: "nat \<Rightarrow> uchar list \<Rightarrow> 'b kcons_scheme \<Rightarrow> (uchar list option \<times> 'b kcons_scheme) res" where
  "consoleread_loop 0 acc s = Inr (Some acc, s)"
| "consoleread_loop (Suc n) acc s =
     (if in_r s = in_w s then
        if killed (proc_at (pt s) (cur s)) then Inr (None, s) else Inl (Block ''input'')
      else
        let c = inbuf s ! unat (in_r s mod INPUT_BUF); s = s\<lparr>in_r := in_r s + 1\<rparr> in
        if c = 4 then Inr (Some acc, if acc \<noteq> [] then s\<lparr>in_r := in_r s - 1\<rparr> else s)
        else if c = 10 then Inr (Some (acc @ [c]), s)
        else consoleread_loop n (acc @ [c]) s)"

definition consoleread :: "nat \<Rightarrow> int \<Rightarrow> 'b fss_scheme \<Rightarrow> ((int \<times> uchar list) \<times> 'b fss_scheme) res" where
  "consoleread ip n s =
     bindE (iunlock (Some ip) s) (\<lambda>s.
     bindE (consoleread_loop (nat n) [] s) (\<lambda>(r, s).
     bindE (ilock (Some ip) s) (\<lambda>s.
     Inr (case r of None \<Rightarrow> (-1, []) | Some bs \<Rightarrow> (int (length bs), bs), s))))"

definition consolewrite :: "nat \<Rightarrow> uchar list \<Rightarrow> 'b fss_scheme \<Rightarrow> (int \<times> 'b fss_scheme) res" where
  "consolewrite ip src s =
     bindE (iunlock (Some ip) s) (\<lambda>s.
     bindE (consputs src s) (\<lambda>s.
     bindE (ilock (Some ip) s) (\<lambda>s.
     Inr (int (length src), s))))"

definition consoleinit :: "'b fss_scheme \<Rightarrow> 'b fss_scheme" where
  "consoleinit s = s\<lparr>devwrite := (devwrite s)[1 := DevConsole], devread := (devread s)[1 := DevConsole], locking := True\<rparr>"

section \<open>Reading and writing inodes\<close>

definition chunk :: "uint \<Rightarrow> nat \<Rightarrow> nat" where
  "chunk off rem = min rem (BSIZE - unat off mod BSIZE)"

lemma chunk_pos: "rem \<noteq> 0 \<Longrightarrow> 0 < chunk off rem"
  by (simp add: chunk_def BSIZE_def)

function readi_loop :: "nat \<Rightarrow> uint \<Rightarrow> nat \<Rightarrow> uchar list \<Rightarrow> 'b fss_scheme \<Rightarrow> (uchar list \<times> 'b fss_scheme) res" where
  "readi_loop ip off rem acc s =
     (if rem = 0 then Inr (acc, s)
      else
        bindE (bmap ip (off div of_nat BSIZE) s) (\<lambda>(addr, s).
        bindE (bread (idev (inode_at s ip)) addr s) (\<lambda>(bp, s).
        let m = chunk off rem;
            bytes = take m (drop (unat off mod BSIZE) (bdata (buf_at s bp)))
        in bindE (brelse bp s) (readi_loop ip (off + of_nat m) (rem - m) (acc @ bytes)))))"
  by pat_completeness auto
termination by (relation "measure (\<lambda>(ip, off, rem, acc, s). rem)") (auto simp: chunk_pos)

declare readi_loop.simps [simp del]

definition no_device :: "nat \<Rightarrow> devfn list \<Rightarrow> 'b fss_scheme \<Rightarrow> bool" where
  "no_device ip dv s \<longleftrightarrow> sint (imajor (inode_at s ip)) < 0 \<or> sint (imajor (inode_at s ip)) \<ge> NDEV \<or>
     dv ! unat (imajor (inode_at s ip)) = DevNone"

definition readi :: "nat \<Rightarrow> uint \<Rightarrow> uint \<Rightarrow> 'b fss_scheme \<Rightarrow> ((int \<times> uchar list) \<times> 'b fss_scheme) res" where
  "readi ip off n s =
     (if itype (inode_at s ip) = T_DEV then
        if no_device ip (devread s) s then Inr ((-1, []), s) else consoleread ip (sint n) s
      else if off > isize (inode_at s ip) \<or> off + n < off then Inr ((-1, []), s)
      else let n = (if off + n > isize (inode_at s ip) then isize (inode_at s ip) - off else n) in
        bindE (readi_loop ip off (unat n) [] s) (\<lambda>(bs, s). Inr ((sint n, bs), s)))"

function writei_loop :: "nat \<Rightarrow> uint \<Rightarrow> uchar list \<Rightarrow> 'b fss_scheme \<Rightarrow> (uint \<times> 'b fss_scheme) res" where
  "writei_loop ip off src s =
     (if src = [] then Inr (off, s)
      else
        bindE (bmap ip (off div of_nat BSIZE) s) (\<lambda>(addr, s).
        bindE (bread (idev (inode_at s ip)) addr s) (\<lambda>(bp, s).
        let m = chunk off (length src); at = unat off mod BSIZE;
            s = upd_data bp (\<lambda>d. take at d @ take m src @ drop (at + m) d) s
        in bindE (log_write bp s) (\<lambda>s.
           bindE (brelse bp s) (writei_loop ip (off + of_nat m) (drop m src))))))"
  by pat_completeness auto
termination by (relation "measure (\<lambda>(ip, off, src, s). length src)") (auto simp: chunk_pos)

declare writei_loop.simps [simp del]

definition writei :: "nat \<Rightarrow> uchar list \<Rightarrow> uint \<Rightarrow> 'b fss_scheme \<Rightarrow> (int \<times> 'b fss_scheme) res" where
  "writei ip src off s =
     (let n = of_nat (length src) :: uint in
      if itype (inode_at s ip) = T_DEV then
        if no_device ip (devwrite s) s then Inr (-1, s) else consolewrite ip src s
      else if off > isize (inode_at s ip) \<or> off + n < off then Inr (-1, s)
      else if off + n > of_nat (MAXFILE * BSIZE) then Inr (-1, s)
      else
        bindE (writei_loop ip off src s) (\<lambda>(off, s).
        bindE (if n > 0 \<and> off > isize (inode_at s ip)
               then iupdate ip (upd_inode ip (\<lambda>x. x\<lparr>isize := off\<rparr>) s) else Inr s) (\<lambda>s.
        Inr (sint n, s))))"

section \<open>Directories\<close>

definition byte0 :: "uchar list \<Rightarrow> uchar" where
  "byte0 cs = (case cs of [] \<Rightarrow> 0 | c # _ \<Rightarrow> c)"

text \<open>\<open>strncmp\<close> and \<open>strncpy\<close> on the bytes of two arrays; a list that ends stands for a NUL.\<close>

fun strncmp_l :: "nat \<Rightarrow> uchar list \<Rightarrow> uchar list \<Rightarrow> int" where
  "strncmp_l 0 p q = 0"
| "strncmp_l (Suc n) p q =
     (if byte0 p \<noteq> 0 \<and> byte0 p = byte0 q then strncmp_l n (tl p) (tl q)
      else uint (byte0 p) - uint (byte0 q))"

fun strncpy_l :: "nat \<Rightarrow> uchar list \<Rightarrow> uchar list" where
  "strncpy_l 0 q = []"
| "strncpy_l (Suc n) q = (if byte0 q = 0 then replicate (Suc n) 0 else byte0 q # strncpy_l n (tl q))"

definition namecmp :: "uchar list \<Rightarrow> uchar list \<Rightarrow> int" where
  "namecmp p q = strncmp_l DIRSIZ p q"

fun dirlookup_loop :: "nat \<Rightarrow> uchar list \<Rightarrow> nat list \<Rightarrow> 'b fss_scheme \<Rightarrow> ((nat \<times> uint) option \<times> 'b fss_scheme) res" where
  "dirlookup_loop dp nm [] s = Inr (None, s)"
| "dirlookup_loop dp nm (off # offs) s =
     bindE (readi dp (of_nat off) (of_nat dirent_size) s) (\<lambda>((r, bs), s).
     if r \<noteq> int dirent_size then panic ''dirlookup read''
     else let de = dirent_of_bytes bs in
       if de_inum de = 0 then dirlookup_loop dp nm offs s
       else if namecmp nm (de_name de) = 0 then
         bindE (iget (idev (inode_at s dp)) (ucast (de_inum de)) s) (\<lambda>(ip, s). Inr (Some (ip, of_nat off), s))
       else dirlookup_loop dp nm offs s)"

definition dir_offsets :: "uint \<Rightarrow> nat list" where
  "dir_offsets n = map (\<lambda>i. i * dirent_size) [0..<(unat n + dirent_size - 1) div dirent_size]"

definition dirlookup :: "nat \<Rightarrow> uchar list \<Rightarrow> 'b fss_scheme \<Rightarrow> ((nat \<times> uint) option \<times> 'b fss_scheme) res" where
  "dirlookup dp nm s =
     (if itype (inode_at s dp) \<noteq> T_DIR then panic ''dirlookup not DIR''
      else dirlookup_loop dp nm (dir_offsets (isize (inode_at s dp))) s)"

text \<open>The offset at which the loop of \<open>dirlink\<close> stops: an entry that is free, or the end.\<close>

fun dirlink_scan :: "nat \<Rightarrow> nat list \<Rightarrow> nat \<Rightarrow> 'b fss_scheme \<Rightarrow> (nat \<times> 'b fss_scheme) res" where
  "dirlink_scan dp [] e s = Inr (e, s)"
| "dirlink_scan dp (off # offs) e s =
     bindE (readi dp (of_nat off) (of_nat dirent_size) s) (\<lambda>((r, bs), s).
     if r \<noteq> int dirent_size then panic ''dirlink read''
     else if de_inum (dirent_of_bytes bs) = 0 then Inr (off, s)
     else dirlink_scan dp offs e s)"

definition dirlink :: "nat \<Rightarrow> uchar list \<Rightarrow> uint \<Rightarrow> 'b fss_scheme \<Rightarrow> (int \<times> 'b fss_scheme) res" where
  "dirlink dp nm ino s =
     bindE (dirlookup dp nm s) (\<lambda>(r, s).
     case r of
       Some (ip, _) \<Rightarrow> bindE (iput ip s) (\<lambda>s. Inr (-1, s))
     | None \<Rightarrow>
         let offs = dir_offsets (isize (inode_at s dp)) in
         bindE (dirlink_scan dp offs (length offs * dirent_size) s) (\<lambda>(off, s).
         let de = \<lparr>de_inum = ucast ino, de_name = strncpy_l DIRSIZ nm\<rparr> in
         bindE (writei dp (dirent_to_bytes de) (of_nat off) s) (\<lambda>(r, s).
         if r \<noteq> int dirent_size then panic ''dirlink'' else Inr (0, s))))"

section \<open>Path names\<close>

definition slash :: uchar where "slash = 0x2F"

text \<open>\<open>skipelem\<close>: the name it stores and the pth it returns, or nothing.\<close>

definition skipelem :: "uchar list \<Rightarrow> (uchar list \<times> uchar list) option" where
  "skipelem pth =
     (let pth = dropWhile (\<lambda>c. c = slash) pth in
      if pth = [] then None
      else let e = takeWhile (\<lambda>c. c \<noteq> slash) pth;
               rest = dropWhile (\<lambda>c. c \<noteq> slash) pth;
               nm = (if length e \<ge> DIRSIZ then take DIRSIZ e else e @ [0])
           in Some (nm, dropWhile (\<lambda>c. c = slash) rest))"

lemma skipelem_shorter:
  assumes "skipelem pth = Some (nm, rest)"
  shows "length rest < length pth"
proof -
  let ?p = "dropWhile (\<lambda>c. c = slash) pth"
  have ne: "?p \<noteq> []" and r: "rest = dropWhile (\<lambda>c. c = slash) (dropWhile (\<lambda>c. c \<noteq> slash) ?p)"
    using assms by (auto simp: skipelem_def Let_def split: if_splits)
  from ne have h: "hd ?p \<noteq> slash" by (rule hd_dropWhile)
  then have "length (dropWhile (\<lambda>c. c \<noteq> slash) ?p) \<le> length (tl ?p)"
    using ne length_dropWhile_le [of _ "tl ?p"] by (cases ?p) simp_all
  moreover have "length (tl ?p) < length ?p" using ne by (cases ?p) simp_all
  ultimately show ?thesis unfolding r
    using length_dropWhile_le [of "\<lambda>c. c = slash" pth]
      length_dropWhile_le [of "\<lambda>c. c = slash" "dropWhile (\<lambda>c. c \<noteq> slash) ?p"] by linarith
qed

text \<open>The loop of \<open>namex\<close>; the result has the inode and the last name stored.\<close>

function namex_loop :: "nat \<Rightarrow> uchar list \<Rightarrow> bool \<Rightarrow> uchar list \<Rightarrow> 'b fss_scheme \<Rightarrow>
    ((nat option \<times> uchar list) \<times> 'b fss_scheme) res" where
  "namex_loop ip pth par nm s =
     (case skipelem pth of
        None \<Rightarrow> if par then bindE (iput ip s) (\<lambda>s. Inr ((None, nm), s)) else Inr ((Some ip, nm), s)
      | Some (nm, pth) \<Rightarrow>
          bindE (ilock (Some ip) s) (\<lambda>s.
          if itype (inode_at s ip) \<noteq> T_DIR then bindE (iunlockput ip s) (\<lambda>s. Inr ((None, nm), s))
          else if par \<and> pth = [] then bindE (iunlock (Some ip) s) (\<lambda>s. Inr ((Some ip, nm), s))
          else bindE (dirlookup ip nm s) (\<lambda>(r, s).
            case r of
              None \<Rightarrow> bindE (iunlockput ip s) (\<lambda>s. Inr ((None, nm), s))
            | Some (nxt, _) \<Rightarrow> bindE (iunlockput ip s) (namex_loop nxt pth par nm))))"
  by pat_completeness auto
termination
  by (relation "measure (\<lambda>(ip, pth, par, nm, s). length pth)") (auto dest: skipelem_shorter)

declare namex_loop.simps [simp del]

definition namex :: "uchar list \<Rightarrow> bool \<Rightarrow> 'b fss_scheme \<Rightarrow> ((nat option \<times> uchar list) \<times> 'b fss_scheme) res" where
  "namex pth par s =
     bindE (if byte0 pth = slash then iget ROOTDEV ROOTINO s
            else case cwd (proc_at (pt s) (cur s)) of
              None \<Rightarrow> Inl (Undef ''cwd'') | Some c \<Rightarrow> Inr (idup c s)) (\<lambda>(ip, s).
     namex_loop ip pth par [] s)"

definition namei :: "uchar list \<Rightarrow> 'b fss_scheme \<Rightarrow> (nat option \<times> 'b fss_scheme) res" where
  "namei pth s = bindE (namex pth False s) (\<lambda>((r, _), s). Inr (r, s))"

definition nameiparent :: "uchar list \<Rightarrow> 'b fss_scheme \<Rightarrow> ((nat option \<times> uchar list) \<times> 'b fss_scheme) res" where
  "nameiparent pth s = namex pth True s"

end
