(* ===== verification/Xv6_File.thy ===== *)
theory Xv6_File
  imports Xv6_Fs Xv6_Pipe Xv6_Vm
begin

text \<open>
  Open files (Xv6-Syscall/src/file.c), \<open>pipealloc\<close> of pipe.c, and user memory as the kernel
  reaches it.  A file pointer is an index into \<open>ftable.file\<close>.  The state now has the page
  allocator with the bytes of memory, the paging register, the pipes by the address of
  their page, and the addresses that the linker and the assembly files provide.

  User addresses go through the page directory in \<open>cr3\<close>; an access to a page that is not
  mapped is a page fault in the kernel, which \<open>trap\<close> answers with a panic.
\<close>

section \<open>State\<close>

definition NFILE :: nat where "NFILE = 100"

datatype ftype = FD_NONE | FD_PIPE | FD_INODE

record kfile =
  ftyp :: ftype
  fref :: int
  freadable :: bool
  fwritable :: bool
  fpipe :: uint
  fip :: "nat option"
  foff :: uint

record lsyms =
  sym_end :: uint
  sym_data :: uint
  sym_trapret :: uint
  sym_forkret :: uint
  sym_initcode :: uint
  sym_initsize :: uint

record fls = fss +
  km :: kmem
  cr3 :: uint
  tss_esp0 :: uint
  ftab :: "kfile list"
  pipes :: "uint \<Rightarrow> pipe option"
  sym :: lsyms

abbreviation file_at :: "'b fls_scheme \<Rightarrow> nat \<Rightarrow> kfile" where
  "file_at s f \<equiv> ftab s ! f"

definition upd_file :: "nat \<Rightarrow> (kfile \<Rightarrow> kfile) \<Rightarrow> 'b fls_scheme \<Rightarrow> 'b fls_scheme" where
  "upd_file f g s = s\<lparr>ftab := (ftab s)[f := g (ftab s ! f)]\<rparr>"

section \<open>User memory\<close>

text \<open>The kernel address of the byte at a user address.\<close>

definition uaddr :: "'b fls_scheme \<Rightarrow> uint \<Rightarrow> uint res" where
  "uaddr s va = (let e = lookup (kmemory (km s)) (P2V (cr3 s)) va in
     if e AND PTE_P = 0 then panic ''trap'' else Inr (P2V (PTE_ADDR e) + va mod PGSIZE))"

fun uread :: "'b fls_scheme \<Rightarrow> uint \<Rightarrow> nat \<Rightarrow> uchar list res" where
  "uread s va 0 = Inr []"
| "uread s va (Suc n) =
     bindE (uaddr s va) (\<lambda>a. bindE (uread s (va + 1) n) (\<lambda>bs. Inr (kmemory (km s) a # bs)))"

fun uwrite :: "uint \<Rightarrow> uchar list \<Rightarrow> 'b fls_scheme \<Rightarrow> 'b fls_scheme res" where
  "uwrite va [] s = Inr s"
| "uwrite va (c # cs) s =
     bindE (uaddr s va) (\<lambda>a. uwrite (va + 1) cs (s\<lparr>km := set_mem ((kmemory (km s))(a := c)) (km s)\<rparr>))"

section \<open>The file table\<close>

definition filealloc :: "'b fls_scheme \<Rightarrow> nat option \<times> 'b fls_scheme" where
  "filealloc s =
     (case find_index (\<lambda>f. fref f = 0) (ftab s) of
        None \<Rightarrow> (None, s) | Some f \<Rightarrow> (Some f, upd_file f (\<lambda>x. x\<lparr>fref := 1\<rparr>) s))"

definition filedup :: "nat \<Rightarrow> 'b fls_scheme \<Rightarrow> (nat \<times> 'b fls_scheme) res" where
  "filedup f s =
     (if fref (file_at s f) < 1 then panic ''filedup''
      else Inr (f, upd_file f (\<lambda>x. x\<lparr>fref := fref x + 1\<rparr>) s))"

text \<open>\<open>pipeclose\<close> on the pipe in a page.\<close>

definition pipeclose_at :: "uint \<Rightarrow> bool \<Rightarrow> 'b fls_scheme \<Rightarrow> 'b fls_scheme res" where
  "pipeclose_at pa writable s =
     (case pipes s pa of
        None \<Rightarrow> Inl (Undef ''pipeclose'')
      | Some p \<Rightarrow> bindE (pipeclose (sym_end (sym s)) (km s) pa p writable (pt s)) (\<lambda>(p, k, t).
          Inr (s\<lparr>pt := t, km := k, pipes := (pipes s)(pa := p)\<rparr>)))"

definition fileclose :: "nat \<Rightarrow> 'b fls_scheme \<Rightarrow> 'b fls_scheme res" where
  "fileclose f s =
     (if fref (file_at s f) < 1 then panic ''fileclose''
      else let s = upd_file f (\<lambda>x. x\<lparr>fref := fref x - 1\<rparr>) s in
        if fref (file_at s f) > 0 then Inr s
        else let ff = file_at s f;
                 s = upd_file f (\<lambda>x. x\<lparr>fref := 0, ftyp := FD_NONE\<rparr>) s
             in case ftyp ff of
                  FD_PIPE \<Rightarrow> pipeclose_at (fpipe ff) (fwritable ff) s
                | FD_INODE \<Rightarrow> bindE (begin_op s) (\<lambda>s.
                    bindE (case fip ff of None \<Rightarrow> Inl (Undef ''iput'') | Some ip \<Rightarrow> iput ip s) end_op)
                | FD_NONE \<Rightarrow> Inr s)"

definition filestat :: "nat \<Rightarrow> 'b fls_scheme \<Rightarrow> ((int \<times> stat option) \<times> 'b fls_scheme) res" where
  "filestat f s =
     (if ftyp (file_at s f) = FD_INODE then
        bindE (ilock (fip (file_at s f)) s) (\<lambda>s.
        let st = stati (the (fip (file_at s f))) s in
        bindE (iunlock (fip (file_at s f)) s) (\<lambda>s. Inr ((0, Some st), s)))
      else Inr ((-1, None), s))"

text \<open>The pipe's buffer loop reads and writes the user's buffer byte by byte; the bytes are moved
  to and from user memory around it.\<close>

definition piperead_at :: "uint \<Rightarrow> uint \<Rightarrow> int \<Rightarrow> 'b fls_scheme \<Rightarrow> (int \<times> 'b fls_scheme) res" where
  "piperead_at pa addr n s =
     (case pipes s pa of
        None \<Rightarrow> Inl (Undef ''piperead'')
      | Some p \<Rightarrow> (case piperead (cur s) pa (\<lambda>_. 0) addr n p (pt s) of (r, m, p, t) \<Rightarrow>
          case r of
            Sleeps _ \<Rightarrow> Inl (Block ''pipe'')
          | Ret v \<Rightarrow> bindE (uwrite addr (bytes_at m addr (nat v)) (s\<lparr>pt := t, pipes := (pipes s)(pa := Some p)\<rparr>))
              (\<lambda>s. Inr (v, s))))"

definition pipewrite_at :: "uint \<Rightarrow> uint \<Rightarrow> int \<Rightarrow> 'b fls_scheme \<Rightarrow> (int \<times> 'b fls_scheme) res" where
  "pipewrite_at pa addr n s =
     (case pipes s pa of
        None \<Rightarrow> Inl (Undef ''pipewrite'')
      | Some p \<Rightarrow> bindE (uread s addr (nat n)) (\<lambda>bs.
          case pipewrite (cur s) pa (\<lambda>a. bs ! unat (a - addr)) addr n 0 p (pt s) of (r, p, t) \<Rightarrow>
          (case r of
            Sleeps _ \<Rightarrow> Inl (Block ''pipe'')
          | Ret v \<Rightarrow> Inr (v, s\<lparr>pt := t, pipes := (pipes s)(pa := Some p)\<rparr>))))"

definition fileread :: "nat \<Rightarrow> uint \<Rightarrow> int \<Rightarrow> 'b fls_scheme \<Rightarrow> (int \<times> 'b fls_scheme) res" where
  "fileread f addr n s =
     (if \<not> freadable (file_at s f) then Inr (-1, s)
      else case ftyp (file_at s f) of
        FD_PIPE \<Rightarrow> piperead_at (fpipe (file_at s f)) addr n s
      | FD_INODE \<Rightarrow>
          bindE (ilock (fip (file_at s f)) s) (\<lambda>s.
          bindE (readi (the (fip (file_at s f))) (foff (file_at s f)) (of_int n) s) (\<lambda>((r, bs), s).
          bindE (uwrite addr bs s) (\<lambda>s.
          let s = (if r > 0 then upd_file f (\<lambda>x. x\<lparr>foff := foff x + of_int r\<rparr>) s else s) in
          bindE (iunlock (fip (file_at s f)) s) (\<lambda>s. Inr (r, s)))))
      | FD_NONE \<Rightarrow> panic ''fileread'')"

text \<open>The loop of \<open>filewrite\<close> over the pieces that fit into one transaction.\<close>

definition filewrite_max :: int where
  "filewrite_max = ((MAXOPBLOCKS - 1 - 1 - 2) div 2) * 512"

function filewrite_loop :: "nat \<Rightarrow> uint \<Rightarrow> int \<Rightarrow> int \<Rightarrow> 'b fls_scheme \<Rightarrow> (int \<times> 'b fls_scheme) res" where
  "filewrite_loop f addr n i s =
     (if i < n then
        let n1 = (if n - i > filewrite_max then filewrite_max else n - i) in
        bindE (begin_op s) (\<lambda>s.
        bindE (ilock (fip (file_at s f)) s) (\<lambda>s.
        bindE (uread s (addr + of_int i) (nat n1)) (\<lambda>bs.
        bindE (writei (the (fip (file_at s f))) bs (foff (file_at s f)) s) (\<lambda>(r, s).
        let s = (if r > 0 then upd_file f (\<lambda>x. x\<lparr>foff := foff x + of_int r\<rparr>) s else s) in
        bindE (iunlock (fip (file_at s f)) s) (\<lambda>s.
        bindE (end_op s) (\<lambda>s.
        if r < 0 then Inr (i, s)
        else if r \<noteq> n1 then panic ''short filewrite''
        else filewrite_loop f addr n (i + n1) s))))))
      else Inr (i, s))"
  by pat_completeness auto
termination
  by (relation "measure (\<lambda>(f, addr, n, i, s). nat (n - i))") (auto simp: filewrite_max_def MAXOPBLOCKS_def)

declare filewrite_loop.simps [simp del]

definition filewrite :: "nat \<Rightarrow> uint \<Rightarrow> int \<Rightarrow> 'b fls_scheme \<Rightarrow> (int \<times> 'b fls_scheme) res" where
  "filewrite f addr n s =
     (if \<not> fwritable (file_at s f) then Inr (-1, s)
      else case ftyp (file_at s f) of
        FD_PIPE \<Rightarrow> pipewrite_at (fpipe (file_at s f)) addr n s
      | FD_INODE \<Rightarrow> bindE (filewrite_loop f addr n 0 s) (\<lambda>(i, s). Inr (if i = n then n else -1, s))
      | FD_NONE \<Rightarrow> panic ''filewrite'')"

section \<open>pipealloc\<close>

definition close_opt :: "nat option \<Rightarrow> 'b fls_scheme \<Rightarrow> 'b fls_scheme res" where
  "close_opt f s = (case f of None \<Rightarrow> Inr s | Some f \<Rightarrow> fileclose f s)"

text \<open>The label \<open>bad\<close> of \<open>pipealloc\<close> is only reached before the pipe's page is allocated.\<close>

definition pipealloc :: "'b fls_scheme \<Rightarrow> ((nat \<times> nat) option \<times> 'b fls_scheme) res" where
  "pipealloc s =
     (case filealloc s of
        (None, s) \<Rightarrow> Inr (None, s)
      | (Some f0, s) \<Rightarrow>
          (case filealloc s of
             (None, s) \<Rightarrow> bindE (fileclose f0 s) (\<lambda>s. Inr (None, s))
           | (Some f1, s) \<Rightarrow>
               let (pa, k) = kalloc (km s); s = s\<lparr>km := k\<rparr> in
               if pa = 0 then bindE (fileclose f0 s) (\<lambda>s. bindE (fileclose f1 s) (\<lambda>s. Inr (None, s)))
               else let p = \<lparr>pdata = bytes_at (kmemory k) (pa + 52) 512, nread = 0, nwrite = 0,
                              readopen = True, writeopen = True\<rparr>;
                        s = s\<lparr>pipes := (pipes s)(pa := Some p)\<rparr>;
                        s = upd_file f0 (\<lambda>x. x\<lparr>ftyp := FD_PIPE, freadable := True, fwritable := False, fpipe := pa\<rparr>) s;
                        s = upd_file f1 (\<lambda>x. x\<lparr>ftyp := FD_PIPE, freadable := False, fwritable := True, fpipe := pa\<rparr>) s
                    in Inr (Some (f0, f1), s)))"

end
