(* ===== verification/Xv6_Proc.thy ===== *)
theory Xv6_Proc
  imports Xv6_File
begin

text \<open>
  Processes (the rest of Xv6-Syscall/src/proc.c): creation with the kernel stack and trap
  frame laid out in memory, \<open>fork\<close>, \<open>exit\<close>, \<open>wait\<close>, \<open>growproc\<close>, the first process, and the
  process listing; \<open>switchuvm\<close> and its neighbours of vm.c; \<open>consoleintr\<close> with the listing.

  The parts under \<open>ptable.lock\<close> are those of the theory of the process table.  A call that
  sleeps gives the state in which the process has gone to sleep.
\<close>

section \<open>State\<close>

definition KSTACKSIZE :: uint where "KSTACKSIZE = 4096"

record prs = fls +
  kpgdir :: uint
  ticks :: uint
  read_count :: int
  first_run :: bool

abbreviation curproc :: "'b bio_scheme \<Rightarrow> proc" where
  "curproc s \<equiv> proc_at (pt s) (cur s)"

definition upd_p :: "nat \<Rightarrow> (proc \<Rightarrow> proc) \<Rightarrow> 'b bio_scheme \<Rightarrow> 'b bio_scheme" where
  "upd_p i f s = s\<lparr>pt := upd_proc i f (pt s)\<rparr>"

definition upd_kmem :: "(memory \<Rightarrow> memory) \<Rightarrow> 'b fls_scheme \<Rightarrow> 'b fls_scheme" where
  "upd_kmem f s = s\<lparr>km := set_mem (f (kmemory (km s))) (km s)\<rparr>"

text \<open>The layout of \<open>struct trapframe\<close> and \<open>struct context\<close>.\<close>

definition TF_size :: uint where "TF_size = 76"
definition TF_eax :: uint where "TF_eax = 28"
definition TF_es :: uint where "TF_es = 40"
definition TF_ds :: uint where "TF_ds = 44"
definition TF_trapno :: uint where "TF_trapno = 48"
definition TF_err :: uint where "TF_err = 52"
definition TF_eip :: uint where "TF_eip = 56"
definition TF_cs :: uint where "TF_cs = 60"
definition TF_eflags :: uint where "TF_eflags = 64"
definition TF_esp :: uint where "TF_esp = 68"
definition TF_ss :: uint where "TF_ss = 72"
definition CTX_size :: uint where "CTX_size = 20"
definition CTX_ebp :: uint where "CTX_ebp = 12"
definition CTX_eip :: uint where "CTX_eip = 16"

definition store16 :: "memory \<Rightarrow> uint \<Rightarrow> ushort \<Rightarrow> memory" where
  "store16 m a v = m(a := ucast v, a + 1 := ucast (drop_bit 8 v))"

definition tf_get :: "uint \<Rightarrow> 'b fls_scheme \<Rightarrow> uint" where
  "tf_get off s = load32 (kmemory (km s)) (tf (curproc s) + off)"

section \<open>Address spaces\<close>

text \<open>\<open>switchuvm\<close>: of the task state only \<open>esp0\<close> changes between processes.\<close>

definition switchuvm :: "nat option \<Rightarrow> 'b fls_scheme \<Rightarrow> 'b fls_scheme res" where
  "switchuvm p s =
     (case p of None \<Rightarrow> panic ''switchuvm: no process''
      | Some i \<Rightarrow>
          if kstack (proc_at (pt s) i) = 0 then panic ''switchuvm: no kstack''
          else if pgdir (proc_at (pt s) i) = 0 then panic ''switchuvm: no pgdir''
          else Inr (s\<lparr>tss_esp0 := kstack (proc_at (pt s) i) + KSTACKSIZE, cr3 := V2P (pgdir (proc_at (pt s) i))\<rparr>))"

definition switchkvm :: "'b prs_scheme \<Rightarrow> 'b prs_scheme" where
  "switchkvm s = s\<lparr>cr3 := V2P (kpgdir s)\<rparr>"

definition kvmalloc :: "'b prs_scheme \<Rightarrow> 'b prs_scheme res" where
  "kvmalloc s = bindE (setupkvm (sym_end (sym s)) (sym_data (sym s)) (km s))
     (\<lambda>(d, k). Inr (switchkvm (s\<lparr>km := k, kpgdir := d\<rparr>)))"

definition growproc :: "int \<Rightarrow> 'b fls_scheme \<Rightarrow> (int \<times> 'b fls_scheme) res" where
  "growproc n s =
     (let z = sz (curproc s); d = pgdir (curproc s);
          done = (\<lambda>z s. bindE (switchuvm (Some (cur s)) (upd_p (cur s) (\<lambda>p. p\<lparr>sz := z\<rparr>) s)) (\<lambda>s. Inr (0, s)))
      in if n > 0 then
           bindE (allocuvm (sym_end (sym s)) (km s) d z (z + of_int n)) (\<lambda>(z, k).
           let s = s\<lparr>km := k\<rparr> in if z = 0 then Inr (-1, s) else done z s)
         else if n < 0 then
           bindE (deallocuvm (sym_end (sym s)) (km s) d z (z + of_int n)) (\<lambda>(z, k).
           let s = s\<lparr>km := k\<rparr> in if z = 0 then Inr (-1, s) else done z s)
         else done z s)"

section \<open>Creation\<close>

text \<open>The kernel stack that \<open>allocproc\<close> builds in the page \<open>k\<close>.\<close>

definition stack_tf :: "uint \<Rightarrow> uint" where "stack_tf k = k + KSTACKSIZE - TF_size"
definition stack_context :: "uint \<Rightarrow> uint" where "stack_context k = stack_tf k - 4 - CTX_size"

definition setup_stack :: "lsyms \<Rightarrow> uint \<Rightarrow> memory \<Rightarrow> memory" where
  "setup_stack y k m =
     (let m = store32 m (stack_tf k - 4) (sym_trapret y);
          m = memset m (stack_context k) 0 CTX_size
      in store32 m (stack_context k + CTX_eip) (sym_forkret y))"

definition allocproc :: "'b fls_scheme \<Rightarrow> (nat option \<times> 'b fls_scheme) res" where
  "allocproc s =
     bindE (alloc_slot (pt s)) (\<lambda>(r, t).
     let s = s\<lparr>pt := t\<rparr> in
     case r of
       None \<Rightarrow> Inr (None, s)
     | Some i \<Rightarrow>
         let (k, kk) = kalloc (km s); s = upd_p i (\<lambda>p. p\<lparr>kstack := k\<rparr>) (s\<lparr>km := kk\<rparr>) in
         if k = 0 then Inr (None, upd_p i (\<lambda>p. p\<lparr>state := UNUSED\<rparr>) s)
         else Inr (Some i, upd_p i (\<lambda>p. p\<lparr>tf := stack_tf k, pcontext := stack_context k\<rparr>)
                (upd_kmem (setup_stack (sym s) k) s)))"

text \<open>\<open>safestrcpy\<close> into an array of bytes that is at least as long as the count.\<close>

definition safestrcpy_l :: "nat \<Rightarrow> uchar list \<Rightarrow> uchar list \<Rightarrow> uchar list" where
  "safestrcpy_l n old src =
     (let t = take (n - 1) (takeWhile (\<lambda>c. c \<noteq> 0) src) in t @ [0] @ drop (Suc (length t)) old)"

definition user_tf :: "uint \<Rightarrow> memory \<Rightarrow> memory" where
  "user_tf a m =
     (let m = memset m a 0 TF_size;
          m = store16 m (a + TF_cs) 0x1B;
          m = store16 m (a + TF_ds) 0x23;
          m = store16 m (a + TF_es) 0x23;
          m = store16 m (a + TF_ss) 0x23;
          m = store32 m (a + TF_eflags) 0x200;
          m = store32 m (a + TF_esp) PGSIZE
      in store32 m (a + TF_eip) 0)"

definition userinit :: "'b fls_scheme \<Rightarrow> 'b fls_scheme res" where
  "userinit s =
     bindE (allocproc s) (\<lambda>(r, s).
     case r of None \<Rightarrow> Inl (Undef ''userinit'')
     | Some i \<Rightarrow>
       let s = s\<lparr>pt := (pt s)\<lparr>initproc := Some i\<rparr>\<rparr> in
       bindE (setupkvm (sym_end (sym s)) (sym_data (sym s)) (km s)) (\<lambda>(d, k).
       let s = upd_p i (\<lambda>p. p\<lparr>pgdir := d\<rparr>) (s\<lparr>km := k\<rparr>) in
       if d = 0 then panic ''userinit: out of memory?''
       else bindE (inituvm (km s) d (sym_initcode (sym s)) (sym_initsize (sym s))) (\<lambda>k.
         let s = upd_p i (\<lambda>p. p\<lparr>sz := PGSIZE\<rparr>) (s\<lparr>km := k\<rparr>);
             s = upd_kmem (user_tf (tf (proc_at (pt s) i))) s;
             s = upd_p i (\<lambda>p. p\<lparr>name := safestrcpy_l 16 (name p) (ascii ''initcode'')\<rparr>) s
         in bindE (namei [slash] s) (\<lambda>(c, s).
            Inr (upd_p i (\<lambda>p. p\<lparr>cwd := c, state := RUNNABLE\<rparr>) s)))))"

text \<open>The loop of \<open>fork\<close> over the open files.\<close>

definition fork_file :: "nat \<Rightarrow> nat \<Rightarrow> 'b fls_scheme \<Rightarrow> 'b fls_scheme res" where
  "fork_file np i s =
     (case ofile (curproc s) ! i of
        None \<Rightarrow> Inr s
      | Some f \<Rightarrow> bindE (filedup f s) (\<lambda>(f, s). Inr (upd_p np (\<lambda>p. p\<lparr>ofile := (ofile p)[i := Some f]\<rparr>) s)))"

definition fork :: "'b fls_scheme \<Rightarrow> (int \<times> 'b fls_scheme) res" where
  "fork s =
     bindE (allocproc s) (\<lambda>(r, s).
     case r of
       None \<Rightarrow> Inr (-1, s)
     | Some np \<Rightarrow>
       bindE (copyuvm (sym_end (sym s)) (sym_data (sym s)) (km s) (pgdir (curproc s)) (sz (curproc s))) (\<lambda>(d, k).
       let s = upd_p np (\<lambda>p. p\<lparr>pgdir := d\<rparr>) (s\<lparr>km := k\<rparr>) in
       if d = 0 then
         bindE (kfree (sym_end (sym s)) (km s) (kstack (proc_at (pt s) np))) (\<lambda>k.
         Inr (-1, upd_p np (\<lambda>p. p\<lparr>kstack := 0, state := UNUSED\<rparr>) (s\<lparr>km := k\<rparr>)))
       else
         let s = upd_p np (\<lambda>p. p\<lparr>sz := sz (curproc s), parent := Some (cur s)\<rparr>) s;
             s = upd_kmem (\<lambda>m. memmove m (tf (proc_at (pt s) np)) (tf (curproc s)) TF_size) s;
             s = upd_kmem (\<lambda>m. store32 m (tf (proc_at (pt s) np) + TF_eax) 0) s
         in bindE (foldE (fork_file np) [0..<NOFILE] s) (\<lambda>s.
            case cwd (curproc s) of
              None \<Rightarrow> Inl (Undef ''idup'')
            | Some c \<Rightarrow>
                let (c, s) = idup c s;
                    s = upd_p np (\<lambda>p. p\<lparr>cwd := Some c, name := safestrcpy_l 16 (name p) (name (curproc s))\<rparr>) s
                in Inr (pid (proc_at (pt s) np), upd_p np (\<lambda>p. p\<lparr>state := RUNNABLE\<rparr>) s))))"

section \<open>Termination of a process\<close>

definition exit_file :: "nat \<Rightarrow> 'b fls_scheme \<Rightarrow> 'b fls_scheme res" where
  "exit_file fd s =
     (case ofile (curproc s) ! fd of
        None \<Rightarrow> Inr s
      | Some f \<Rightarrow> bindE (fileclose f s) (\<lambda>s. Inr (upd_p (cur s) (\<lambda>p. p\<lparr>ofile := (ofile p)[fd := None]\<rparr>) s)))"

text \<open>\<open>exit\<close> up to its call of \<open>sched\<close>, from which it does not return.\<close>

definition exit :: "'b fls_scheme \<Rightarrow> 'b fls_scheme res" where
  "exit s =
     (if initproc (pt s) = Some (cur s) then panic ''init exiting''
      else
        bindE (foldE exit_file [0..<NOFILE] s) (\<lambda>s.
        bindE (begin_op s) (\<lambda>s.
        bindE (case cwd (curproc s) of None \<Rightarrow> Inl (Undef ''iput'') | Some c \<Rightarrow> iput c s) (\<lambda>s.
        bindE (end_op s) (\<lambda>s.
        let s = upd_p (cur s) (\<lambda>p. p\<lparr>cwd := None\<rparr>) s in
        Inr (s\<lparr>pt := exit_table (cur s) (pt s)\<rparr>))))))"

definition wait :: "'b fls_scheme \<Rightarrow> (pres \<times> 'b fls_scheme) res" where
  "wait s =
     (case wait_scan (cur s) 0 False (procs (pt s)) of
        Inl i \<Rightarrow>
          let p = proc_at (pt s) i in
          bindE (kfree (sym_end (sym s)) (km s) (kstack p)) (\<lambda>k.
          bindE (freevm (sym_end (sym s)) k (pgdir p)) (\<lambda>k.
          Inr (Ret (pid p), s\<lparr>km := k, pt := reap i (pt s)\<rparr>)))
      | Inr havekids \<Rightarrow>
          if \<not> havekids \<or> killed (curproc s) then Inr (Ret (-1), s)
          else Inr (Sleeps 0, s\<lparr>pt := sleep_enter (cur s) (CProc (cur s)) (pt s)\<rparr>))"

section \<open>The first schedule of a process, and the process listing\<close>

definition forkret :: "'b prs_scheme \<Rightarrow> 'b prs_scheme res" where
  "forkret s =
     (if first_run s then bindE (iinit ROOTDEV (s\<lparr>first_run := False\<rparr>)) (initlog ROOTDEV) else Inr s)"

fun state_name :: "procstate \<Rightarrow> string" where
  "state_name UNUSED = ''unused''"
| "state_name EMBRYO = ''embryo''"
| "state_name SLEEPING = ''sleep ''"
| "state_name RUNNABLE = ''runble''"
| "state_name RUNNING = ''run   ''"
| "state_name ZOMBIE = ''zombie''"

definition cstr :: "uchar list \<Rightarrow> uchar list" where
  "cstr d = takeWhile (\<lambda>c. c \<noteq> 0) d"

definition procdump1 :: "proc \<Rightarrow> 'b fls_scheme \<Rightarrow> 'b fls_scheme res" where
  "procdump1 p s =
     (if state p = UNUSED then Inr s
      else
        bindE (cprintf (Some (ascii ''%d %s %s'')) [AInt (of_int (pid p)), AStr (ascii (state_name (state p))), AStr (cstr (name p))] s) (\<lambda>s.
        bindE (if state p = SLEEPING then
                 let pcs = getcallerpcs (kmemory (km s)) (load32 (kmemory (km s)) (pcontext p + CTX_ebp) + 8) in
                 foldE (\<lambda>pc. cprintf (Some (ascii '' %p'')) [AInt pc]) (takeWhile (\<lambda>pc. pc \<noteq> 0) pcs) s
               else Inr s) (\<lambda>s.
        cprintf (Some [10]) [] s)))"

definition procdump :: "'b fls_scheme \<Rightarrow> 'b fls_scheme res" where
  "procdump s = foldE procdump1 (procs (pt s)) s"

definition consoleintr :: "int list \<Rightarrow> 'b fls_scheme \<Rightarrow> 'b fls_scheme res" where
  "consoleintr cs s = bindE (consoleintr_loop cs False s) (\<lambda>(d, s). if d then procdump s else Inr s)"

definition kbdintr :: "uchar list \<Rightarrow> uint \<Rightarrow> 'b fls_scheme \<Rightarrow> (uint \<times> 'b fls_scheme) res" where
  "kbdintr ds shift s = (case kbd_chars ds shift of (cs, shift) \<Rightarrow> bindE (consoleintr cs s) (\<lambda>s. Inr (shift, s)))"

text \<open>The serial line hands over the bytes it has received.\<close>

definition uartintr :: "uchar list \<Rightarrow> 'b fls_scheme \<Rightarrow> 'b fls_scheme res" where
  "uartintr ds s = consoleintr (if uart s then map uint ds else []) s"

end
