(* ===== verification/Xv6_Sysfile.thy ===== *)
theory Xv6_Sysfile
  imports Xv6_Proc
begin

text \<open>
  System calls: fetching arguments from user memory (the first half of
  Xv6-Syscall/src/syscall.c), the process calls (sysproc.c) and the file calls (sysfile.c),
  with the read counter this repository adds.

  A fetch that the code answers with -1 is \<open>None\<close>.  A string argument is given by its bytes,
  since the memory it lies in does not change during the call.
\<close>

section \<open>Arguments\<close>

definition fetchint :: "uint \<Rightarrow> 'b fls_scheme \<Rightarrow> uint option res" where
  "fetchint addr s =
     (if addr \<ge> sz (curproc s) \<or> addr + 4 > sz (curproc s) then Inr None
      else bindE (uread s addr 4) (\<lambda>bs. Inr (Some (rd32 bs 0))))"

text \<open>The search of \<open>fetchstr\<close> for the NUL, over the \<open>k\<close> bytes up to the end of the process.\<close>

fun fetchstr_scan :: "'b fls_scheme \<Rightarrow> uint \<Rightarrow> nat \<Rightarrow> uchar list option res" where
  "fetchstr_scan s va 0 = Inr None"
| "fetchstr_scan s va (Suc k) =
     bindE (uaddr s va) (\<lambda>a.
     if kmemory (km s) a = 0 then Inr (Some [])
     else bindE (fetchstr_scan s (va + 1) k) (\<lambda>r. Inr (map_option (\<lambda>cs. kmemory (km s) a # cs) r)))"

definition fetchstr :: "uint \<Rightarrow> 'b fls_scheme \<Rightarrow> uchar list option res" where
  "fetchstr addr s =
     (if addr \<ge> sz (curproc s) then Inr None else fetchstr_scan s addr (unat (sz (curproc s) - addr)))"

definition argint :: "nat \<Rightarrow> 'b fls_scheme \<Rightarrow> uint option res" where
  "argint n s = fetchint (tf_get TF_esp s + 4 + 4 * of_nat n) s"

definition argptr :: "nat \<Rightarrow> int \<Rightarrow> 'b fls_scheme \<Rightarrow> uint option res" where
  "argptr n len s =
     bindE (argint n s) (\<lambda>r.
     case r of None \<Rightarrow> Inr None
     | Some i \<Rightarrow>
         if len < 0 \<or> i \<ge> sz (curproc s) \<or> i + of_int len > sz (curproc s) then Inr None
         else Inr (Some i))"

definition argstr :: "nat \<Rightarrow> 'b fls_scheme \<Rightarrow> uchar list option res" where
  "argstr n s = bindE (argint n s) (\<lambda>r. case r of None \<Rightarrow> Inr None | Some addr \<Rightarrow> fetchstr addr s)"

section \<open>Process calls\<close>

definition sys_kill :: "'b fls_scheme \<Rightarrow> (int \<times> 'b fls_scheme) res" where
  "sys_kill s =
     bindE (argint 0 s) (\<lambda>r.
     case r of None \<Rightarrow> Inr (-1, s)
     | Some i \<Rightarrow> (case kill (sint i) (pt s) of (r, t) \<Rightarrow> Inr (r, s\<lparr>pt := t\<rparr>)))"

definition sys_getpid :: "'b fls_scheme \<Rightarrow> (int \<times> 'b fls_scheme) res" where
  "sys_getpid s = Inr (pid (curproc s), s)"

definition sys_sbrk :: "'b fls_scheme \<Rightarrow> (int \<times> 'b fls_scheme) res" where
  "sys_sbrk s =
     bindE (argint 0 s) (\<lambda>r.
     case r of None \<Rightarrow> Inr (-1, s)
     | Some n \<Rightarrow>
         let addr = sz (curproc s) in
         bindE (growproc (sint n) s) (\<lambda>(r, s). Inr (if r < 0 then -1 else sint addr, s)))"

text \<open>\<open>sys_sleep\<close> from the test of its loop on; the difference of the tick counts is compared with
  \<open>n\<close> as unsigned numbers.\<close>

definition sleep_loop :: "uint \<Rightarrow> uint \<Rightarrow> 'b prs_scheme \<Rightarrow> pres \<times> 'b prs_scheme" where
  "sleep_loop ticks0 n s =
     (if ticks s - ticks0 < n then
        if killed (curproc s) then (Ret (-1), s)
        else (Sleeps 0, s\<lparr>pt := sleep_enter (cur s) CTicks (pt s)\<rparr>)
      else (Ret 0, s))"

definition sys_sleep :: "'b prs_scheme \<Rightarrow> (pres \<times> 'b prs_scheme) res" where
  "sys_sleep s =
     bindE (argint 0 s) (\<lambda>r. case r of None \<Rightarrow> Inr (Ret (-1), s) | Some n \<Rightarrow> Inr (sleep_loop (ticks s) n s))"

definition sys_uptime :: "'b prs_scheme \<Rightarrow> (int \<times> 'b prs_scheme) res" where
  "sys_uptime s = Inr (sint (ticks s), s)"

section \<open>File descriptors\<close>

definition argfd :: "nat \<Rightarrow> 'b fls_scheme \<Rightarrow> (nat \<times> nat) option res" where
  "argfd n s =
     bindE (argint n s) (\<lambda>r.
     case r of None \<Rightarrow> Inr None
     | Some fd \<Rightarrow>
         if sint fd < 0 \<or> sint fd \<ge> int NOFILE then Inr None
         else case ofile (curproc s) ! unat fd of None \<Rightarrow> Inr None | Some f \<Rightarrow> Inr (Some (unat fd, f)))"

definition fdalloc :: "nat \<Rightarrow> 'b fls_scheme \<Rightarrow> int \<times> 'b fls_scheme" where
  "fdalloc f s =
     (case find_index (\<lambda>x. x = None) (ofile (curproc s)) of
        None \<Rightarrow> (-1, s)
      | Some fd \<Rightarrow> (int fd, upd_p (cur s) (\<lambda>p. p\<lparr>ofile := (ofile p)[fd := Some f]\<rparr>) s))"

definition sys_dup :: "'b fls_scheme \<Rightarrow> (int \<times> 'b fls_scheme) res" where
  "sys_dup s =
     bindE (argfd 0 s) (\<lambda>r.
     case r of None \<Rightarrow> Inr (-1, s)
     | Some (_, f) \<Rightarrow>
         (case fdalloc f s of (fd, s) \<Rightarrow>
            if fd < 0 then Inr (-1, s) else bindE (filedup f s) (\<lambda>(_, s). Inr (fd, s))))"

text \<open>The arguments of \<open>read\<close> and \<open>write\<close>: file, address and count.\<close>

definition rw_args :: "'b fls_scheme \<Rightarrow> (nat \<times> uint \<times> int) option res" where
  "rw_args s =
     bindE (argfd 0 s) (\<lambda>r. case r of None \<Rightarrow> Inr None | Some (_, f) \<Rightarrow>
     bindE (argint 2 s) (\<lambda>r. case r of None \<Rightarrow> Inr None | Some n \<Rightarrow>
     bindE (argptr 1 (sint n) s) (\<lambda>r. case r of None \<Rightarrow> Inr None | Some p \<Rightarrow> Inr (Some (f, p, sint n)))))"

definition sys_read :: "'b prs_scheme \<Rightarrow> (int \<times> 'b prs_scheme) res" where
  "sys_read s =
     (if read_count s = 2 ^ 31 - 1 then Inl (Undef ''read_count++'')
      else let s = s\<lparr>read_count := read_count s + 1\<rparr> in
        bindE (rw_args s) (\<lambda>r. case r of None \<Rightarrow> Inr (-1, s) | Some (f, p, n) \<Rightarrow> fileread f p n s))"

definition sys_getreadcount :: "'b prs_scheme \<Rightarrow> (int \<times> 'b prs_scheme) res" where
  "sys_getreadcount s = Inr (read_count s, s)"

definition sys_write :: "'b fls_scheme \<Rightarrow> (int \<times> 'b fls_scheme) res" where
  "sys_write s =
     bindE (rw_args s) (\<lambda>r. case r of None \<Rightarrow> Inr (-1, s) | Some (f, p, n) \<Rightarrow> filewrite f p n s)"

definition sys_close :: "'b fls_scheme \<Rightarrow> (int \<times> 'b fls_scheme) res" where
  "sys_close s =
     bindE (argfd 0 s) (\<lambda>r.
     case r of None \<Rightarrow> Inr (-1, s)
     | Some (fd, f) \<Rightarrow>
         bindE (fileclose f (upd_p (cur s) (\<lambda>p. p\<lparr>ofile := (ofile p)[fd := None]\<rparr>) s)) (\<lambda>s. Inr (0, s)))"

text \<open>\<open>struct stat\<close> in memory, 20 bytes with two of padding after each short.\<close>

definition stat_bytes :: "stat \<Rightarrow> uchar list" where
  "stat_bytes st = wr32 16 (st_size st) (wr16 12 (st_nlink st) (wr32 8 (st_ino st) (wr32 4 (st_dev st)
     (wr16 0 (st_type st) (replicate 20 0)))))"

definition stat_write :: "uint \<Rightarrow> stat \<Rightarrow> 'b fls_scheme \<Rightarrow> 'b fls_scheme res" where
  "stat_write a st s =
     (let d = stat_bytes st in
      bindE (uwrite a (take 2 d) s) (\<lambda>s. bindE (uwrite (a + 4) (take 10 (drop 4 d)) s) (uwrite (a + 16) (drop 16 d))))"

definition sys_fstat :: "'b fls_scheme \<Rightarrow> (int \<times> 'b fls_scheme) res" where
  "sys_fstat s =
     bindE (argfd 0 s) (\<lambda>r. case r of None \<Rightarrow> Inr (-1, s) | Some (_, f) \<Rightarrow>
     bindE (argptr 1 20 s) (\<lambda>r. case r of None \<Rightarrow> Inr (-1, s) | Some a \<Rightarrow>
     bindE (filestat f s) (\<lambda>((r, st), s).
     case st of None \<Rightarrow> Inr (r, s) | Some st \<Rightarrow> bindE (stat_write a st s) (\<lambda>s. Inr (r, s)))))"

section \<open>Links\<close>

text \<open>The end of a call that fails inside its transaction.\<close>

definition fail_op :: "'b fls_scheme \<Rightarrow> (int \<times> 'b fls_scheme) res" where
  "fail_op s = bindE (end_op s) (\<lambda>s. Inr (-1, s))"

definition link_bad :: "nat \<Rightarrow> 'b fls_scheme \<Rightarrow> (int \<times> 'b fls_scheme) res" where
  "link_bad ip s =
     bindE (ilock (Some ip) s) (\<lambda>s.
     bindE (iupdate ip (upd_inode ip (\<lambda>x. x\<lparr>inlink := inlink x - 1\<rparr>) s)) (\<lambda>s.
     bindE (iunlockput ip s) fail_op))"

definition sys_link :: "'b fls_scheme \<Rightarrow> (int \<times> 'b fls_scheme) res" where
  "sys_link s =
     bindE (argstr 0 s) (\<lambda>r. case r of None \<Rightarrow> Inr (-1, s) | Some old \<Rightarrow>
     bindE (argstr 1 s) (\<lambda>r. case r of None \<Rightarrow> Inr (-1, s) | Some new \<Rightarrow>
     bindE (begin_op s) (\<lambda>s.
     bindE (namei old s) (\<lambda>(r, s). case r of None \<Rightarrow> fail_op s | Some ip \<Rightarrow>
     bindE (ilock (Some ip) s) (\<lambda>s.
     if itype (inode_at s ip) = T_DIR then bindE (iunlockput ip s) fail_op
     else
       bindE (iupdate ip (upd_inode ip (\<lambda>x. x\<lparr>inlink := inlink x + 1\<rparr>) s)) (\<lambda>s.
       bindE (iunlock (Some ip) s) (\<lambda>s.
       bindE (nameiparent new s) (\<lambda>((r, nm), s). case r of None \<Rightarrow> link_bad ip s | Some dp \<Rightarrow>
       bindE (ilock (Some dp) s) (\<lambda>s.
       if idev (inode_at s dp) \<noteq> idev (inode_at s ip) then bindE (iunlockput dp s) (link_bad ip)
       else bindE (dirlink dp nm (inum (inode_at s ip)) s) (\<lambda>(r, s).
         if r < 0 then bindE (iunlockput dp s) (link_bad ip)
         else bindE (iunlockput dp s) (\<lambda>s.
              bindE (iput ip s) (\<lambda>s.
              bindE (end_op s) (\<lambda>s. Inr (0, s))))))))))))))"

fun isdirempty_loop :: "nat \<Rightarrow> nat list \<Rightarrow> 'b fss_scheme \<Rightarrow> (bool \<times> 'b fss_scheme) res" where
  "isdirempty_loop dp [] s = Inr (True, s)"
| "isdirempty_loop dp (off # offs) s =
     bindE (readi dp (of_nat off) (of_nat dirent_size) s) (\<lambda>((r, bs), s).
     if r \<noteq> int dirent_size then panic ''isdirempty: readi''
     else if de_inum (dirent_of_bytes bs) \<noteq> 0 then Inr (False, s)
     else isdirempty_loop dp offs s)"

definition isdirempty :: "nat \<Rightarrow> 'b fss_scheme \<Rightarrow> (bool \<times> 'b fss_scheme) res" where
  "isdirempty dp s = isdirempty_loop dp (drop 2 (dir_offsets (isize (inode_at s dp)))) s"

definition unlink_bad :: "nat \<Rightarrow> 'b fls_scheme \<Rightarrow> (int \<times> 'b fls_scheme) res" where
  "unlink_bad dp s = bindE (iunlockput dp s) fail_op"

text \<open>\<open>sys_unlink\<close> from the point at which both inodes are locked and the entry is to go.\<close>

definition unlink_entry :: "nat \<Rightarrow> nat \<Rightarrow> uint \<Rightarrow> 'b fls_scheme \<Rightarrow> (int \<times> 'b fls_scheme) res" where
  "unlink_entry dp ip off s =
     bindE (writei dp (replicate dirent_size 0) off s) (\<lambda>(r, s).
     if r \<noteq> int dirent_size then panic ''unlink: writei''
     else
       bindE (if itype (inode_at s ip) = T_DIR
              then iupdate dp (upd_inode dp (\<lambda>x. x\<lparr>inlink := inlink x - 1\<rparr>) s) else Inr s) (\<lambda>s.
       bindE (iunlockput dp s) (\<lambda>s.
       bindE (iupdate ip (upd_inode ip (\<lambda>x. x\<lparr>inlink := inlink x - 1\<rparr>) s)) (\<lambda>s.
       bindE (iunlockput ip s) (\<lambda>s.
       bindE (end_op s) (\<lambda>s. Inr (0, s)))))))"

definition sys_unlink :: "'b fls_scheme \<Rightarrow> (int \<times> 'b fls_scheme) res" where
  "sys_unlink s =
     bindE (argstr 0 s) (\<lambda>r. case r of None \<Rightarrow> Inr (-1, s) | Some pth \<Rightarrow>
     bindE (begin_op s) (\<lambda>s.
     bindE (nameiparent pth s) (\<lambda>((r, nm), s). case r of None \<Rightarrow> fail_op s | Some dp \<Rightarrow>
     bindE (ilock (Some dp) s) (\<lambda>s.
     if namecmp nm (ascii ''.'') = 0 \<or> namecmp nm (ascii ''..'') = 0 then unlink_bad dp s
     else bindE (dirlookup dp nm s) (\<lambda>(r, s). case r of None \<Rightarrow> unlink_bad dp s | Some (ip, off) \<Rightarrow>
       bindE (ilock (Some ip) s) (\<lambda>s.
       if sint (inlink (inode_at s ip)) < 1 then panic ''unlink: nlink < 1''
       else bindE (if itype (inode_at s ip) = T_DIR then isdirempty ip s else Inr (True, s)) (\<lambda>(e, s).
         if \<not> e then bindE (iunlockput ip s) (unlink_bad dp)
         else unlink_entry dp ip off s)))))))"

section \<open>Creation\<close>

text \<open>\<open>create\<close>: the new inode, locked, in the directory \<open>dp\<close>, which is unlocked.\<close>

definition create_new :: "nat \<Rightarrow> uchar list \<Rightarrow> ushort \<Rightarrow> ushort \<Rightarrow> ushort \<Rightarrow> 'b fss_scheme \<Rightarrow> (nat option \<times> 'b fss_scheme) res" where
  "create_new dp nm ty maj mnr s =
     bindE (ialloc (idev (inode_at s dp)) ty s) (\<lambda>(ip, s).
     bindE (ilock (Some ip) s) (\<lambda>s.
     bindE (iupdate ip (upd_inode ip (\<lambda>x. x\<lparr>imajor := maj, iminor := mnr, inlink := 1\<rparr>) s)) (\<lambda>s.
     bindE (if ty = T_DIR then
              bindE (iupdate dp (upd_inode dp (\<lambda>x. x\<lparr>inlink := inlink x + 1\<rparr>) s)) (\<lambda>s.
              bindE (dirlink ip (ascii ''.'') (inum (inode_at s ip)) s) (\<lambda>(r, s).
              if r < 0 then panic ''create dots''
              else bindE (dirlink ip (ascii ''..'') (inum (inode_at s dp)) s) (\<lambda>(r, s).
                if r < 0 then panic ''create dots'' else Inr s)))
            else Inr s) (\<lambda>s.
     bindE (dirlink dp nm (inum (inode_at s ip)) s) (\<lambda>(r, s).
     if r < 0 then panic ''create: dirlink''
     else bindE (iunlockput dp s) (\<lambda>s. Inr (Some ip, s)))))))"

definition create :: "uchar list \<Rightarrow> ushort \<Rightarrow> ushort \<Rightarrow> ushort \<Rightarrow> 'b fss_scheme \<Rightarrow> (nat option \<times> 'b fss_scheme) res" where
  "create pth ty maj mnr s =
     bindE (nameiparent pth s) (\<lambda>((r, nm), s). case r of None \<Rightarrow> Inr (None, s) | Some dp \<Rightarrow>
     bindE (ilock (Some dp) s) (\<lambda>s.
     bindE (dirlookup dp nm s) (\<lambda>(r, s).
     case r of
       Some (ip, _) \<Rightarrow>
         bindE (iunlockput dp s) (\<lambda>s.
         bindE (ilock (Some ip) s) (\<lambda>s.
         if ty = T_FILE \<and> itype (inode_at s ip) = T_FILE then Inr (Some ip, s)
         else bindE (iunlockput ip s) (\<lambda>s. Inr (None, s))))
     | None \<Rightarrow> create_new dp nm ty maj mnr s)))"

definition O_WRONLY :: uint where "O_WRONLY = 1"
definition O_RDWR :: uint where "O_RDWR = 2"
definition O_CREATE :: uint where "O_CREATE = 0x200"

text \<open>The first half of \<open>sys_open\<close>: the inode, locked; \<open>None\<close> when the call has failed and the
  transaction is to end.\<close>

definition open_inode :: "uchar list \<Rightarrow> uint \<Rightarrow> 'b fss_scheme \<Rightarrow> (nat option \<times> 'b fss_scheme) res" where
  "open_inode pth omode s =
     (if omode AND O_CREATE \<noteq> 0 then create pth T_FILE 0 0 s
      else bindE (namei pth s) (\<lambda>(r, s). case r of None \<Rightarrow> Inr (None, s) | Some ip \<Rightarrow>
        bindE (ilock (Some ip) s) (\<lambda>s.
        if itype (inode_at s ip) = T_DIR \<and> omode \<noteq> 0
        then bindE (iunlockput ip s) (\<lambda>s. Inr (None, s)) else Inr (Some ip, s))))"

definition sys_open :: "'b fls_scheme \<Rightarrow> (int \<times> 'b fls_scheme) res" where
  "sys_open s =
     bindE (argstr 0 s) (\<lambda>r. case r of None \<Rightarrow> Inr (-1, s) | Some pth \<Rightarrow>
     bindE (argint 1 s) (\<lambda>r. case r of None \<Rightarrow> Inr (-1, s) | Some omode \<Rightarrow>
     bindE (begin_op s) (\<lambda>s.
     bindE (open_inode pth omode s) (\<lambda>(r, s). case r of None \<Rightarrow> fail_op s | Some ip \<Rightarrow>
     case filealloc s of
       (None, s) \<Rightarrow> bindE (iunlockput ip s) fail_op
     | (Some f, s) \<Rightarrow>
       (case fdalloc f s of (fd, s) \<Rightarrow>
          if fd < 0 then bindE (fileclose f s) (\<lambda>s. bindE (iunlockput ip s) fail_op)
          else bindE (iunlock (Some ip) s) (\<lambda>s.
               bindE (end_op s) (\<lambda>s.
               Inr (fd, upd_file f (\<lambda>x. x\<lparr>ftyp := FD_INODE, fip := Some ip, foff := 0,
                   freadable := (omode AND O_WRONLY = 0),
                   fwritable := (omode AND O_WRONLY \<noteq> 0 \<or> omode AND O_RDWR \<noteq> 0)\<rparr>) s))))))))"

definition sys_mkdir :: "'b fls_scheme \<Rightarrow> (int \<times> 'b fls_scheme) res" where
  "sys_mkdir s =
     bindE (begin_op s) (\<lambda>s.
     bindE (argstr 0 s) (\<lambda>r. case r of None \<Rightarrow> fail_op s | Some pth \<Rightarrow>
     bindE (create pth T_DIR 0 0 s) (\<lambda>(r, s). case r of None \<Rightarrow> fail_op s | Some ip \<Rightarrow>
     bindE (iunlockput ip s) (\<lambda>s. bindE (end_op s) (\<lambda>s. Inr (0, s))))))"

definition sys_mknod :: "'b fls_scheme \<Rightarrow> (int \<times> 'b fls_scheme) res" where
  "sys_mknod s =
     bindE (begin_op s) (\<lambda>s.
     bindE (argstr 0 s) (\<lambda>r. case r of None \<Rightarrow> fail_op s | Some pth \<Rightarrow>
     bindE (argint 1 s) (\<lambda>r. case r of None \<Rightarrow> fail_op s | Some maj \<Rightarrow>
     bindE (argint 2 s) (\<lambda>r. case r of None \<Rightarrow> fail_op s | Some mnr \<Rightarrow>
     bindE (create pth T_DEV (ucast maj) (ucast mnr) s) (\<lambda>(r, s). case r of None \<Rightarrow> fail_op s | Some ip \<Rightarrow>
     bindE (iunlockput ip s) (\<lambda>s. bindE (end_op s) (\<lambda>s. Inr (0, s))))))))"

definition sys_chdir :: "'b fls_scheme \<Rightarrow> (int \<times> 'b fls_scheme) res" where
  "sys_chdir s =
     bindE (begin_op s) (\<lambda>s.
     bindE (argstr 0 s) (\<lambda>r. case r of None \<Rightarrow> fail_op s | Some pth \<Rightarrow>
     bindE (namei pth s) (\<lambda>(r, s). case r of None \<Rightarrow> fail_op s | Some ip \<Rightarrow>
     bindE (ilock (Some ip) s) (\<lambda>s.
     if itype (inode_at s ip) \<noteq> T_DIR then bindE (iunlockput ip s) fail_op
     else bindE (iunlock (Some ip) s) (\<lambda>s.
          bindE (case cwd (curproc s) of None \<Rightarrow> Inl (Undef ''iput'') | Some c \<Rightarrow> iput c s) (\<lambda>s.
          bindE (end_op s) (\<lambda>s.
          Inr (0, upd_p (cur s) (\<lambda>p. p\<lparr>cwd := Some ip\<rparr>) s))))))))"

definition sys_pipe :: "'b fls_scheme \<Rightarrow> (int \<times> 'b fls_scheme) res" where
  "sys_pipe s =
     bindE (argptr 0 8 s) (\<lambda>r. case r of None \<Rightarrow> Inr (-1, s) | Some a \<Rightarrow>
     bindE (pipealloc s) (\<lambda>(r, s). case r of None \<Rightarrow> Inr (-1, s) | Some (rfile, wfile) \<Rightarrow>
     case fdalloc rfile s of (fd0, s) \<Rightarrow>
       if fd0 < 0 then bindE (fileclose rfile s) (\<lambda>s. bindE (fileclose wfile s) (\<lambda>s. Inr (-1, s)))
       else case fdalloc wfile s of (fd1, s) \<Rightarrow>
         if fd1 < 0 then
           let s = upd_p (cur s) (\<lambda>p. p\<lparr>ofile := (ofile p)[nat fd0 := None]\<rparr>) s in
           bindE (fileclose rfile s) (\<lambda>s. bindE (fileclose wfile s) (\<lambda>s. Inr (-1, s)))
         else bindE (uwrite a (wr32 4 (of_int fd1) (wr32 0 (of_int fd0) (replicate 8 0))) s) (\<lambda>s. Inr (0, s))))"

end
