(* ===== verification/Xv6_Trap.thy ===== *)
theory Xv6_Trap
  imports Xv6_Sysfile
begin

text \<open>
  Loading a program (Xv6-Syscall/src/exec.c and \<open>loaduvm\<close> of vm.c), the dispatch of system
  calls (the second half of syscall.c, with \<open>sys_exec\<close> of sysfile.c) and of traps (trap.c).

  A call that sleeps leaves the process asleep in the table; the dispatcher then has no
  return value to store yet.
\<close>

section \<open>Loading a program\<close>

definition put_bytes :: "memory \<Rightarrow> uint \<Rightarrow> uchar list \<Rightarrow> memory" where
  "put_bytes m a bs = (\<lambda>x. if unat (x - a) < length bs then bs ! unat (x - a) else m x)"

fun loaduvm_loop :: "uint \<Rightarrow> uint \<Rightarrow> nat \<Rightarrow> uint \<Rightarrow> uint \<Rightarrow> nat list \<Rightarrow> 'b fls_scheme \<Rightarrow> (int \<times> 'b fls_scheme) res" where
  "loaduvm_loop pgd addr ip off len [] s = Inr (0, s)"
| "loaduvm_loop pgd addr ip off len (i # is) s =
     (case walkpgdir (km s) pgd (addr + of_nat i) False of (pte, _) \<Rightarrow>
      if pte = 0 then panic ''loaduvm: address should exist''
      else let pa = PTE_ADDR (load32 (kmemory (km s)) pte);
               n = (if len - of_nat i < PGSIZE then len - of_nat i else PGSIZE)
           in bindE (readi ip (off + of_nat i) n s) (\<lambda>((r, bs), s).
              let s = upd_kmem (\<lambda>m. put_bytes m (P2V pa) bs) s in
              if of_int r \<noteq> n then Inr (-1, s) else loaduvm_loop pgd addr ip off len is s))"

definition loaduvm :: "uint \<Rightarrow> uint \<Rightarrow> nat \<Rightarrow> uint \<Rightarrow> uint \<Rightarrow> 'b fls_scheme \<Rightarrow> (int \<times> 'b fls_scheme) res" where
  "loaduvm pgd addr ip off len s =
     (if addr mod PGSIZE \<noteq> 0 then panic ''loaduvm: addr must be page aligned''
      else loaduvm_loop pgd addr ip off len (map (\<lambda>k. k * 4096) [0..<(unat len + 4095) div 4096]) s)"

definition ELF_MAGIC :: uint where "ELF_MAGIC = 0x464C457F"
definition MAXARG :: nat where "MAXARG = 32"

text \<open>The fields of \<open>struct elfhdr\<close> and \<open>struct proghdr\<close> that the code uses.\<close>

record elfhdr =
  e_magic :: uint
  e_entry :: uint
  e_phoff :: uint
  e_phnum :: ushort

definition elf_of_bytes :: "uchar list \<Rightarrow> elfhdr" where
  "elf_of_bytes d = \<lparr>e_magic = rd32 d 0, e_entry = rd32 d 24, e_phoff = rd32 d 28, e_phnum = rd16 d 44\<rparr>"

record proghdr =
  ph_type :: uint
  ph_off :: uint
  ph_vaddr :: uint
  ph_filesz :: uint
  ph_memsz :: uint

definition ph_of_bytes :: "uchar list \<Rightarrow> proghdr" where
  "ph_of_bytes d = \<lparr>ph_type = rd32 d 0, ph_off = rd32 d 4, ph_vaddr = rd32 d 8, ph_filesz = rd32 d 16, ph_memsz = rd32 d 20\<rparr>"

text \<open>The loop over the program headers; \<open>None\<close> is the jump to \<open>bad\<close>.\<close>

fun exec_load :: "uint \<Rightarrow> nat \<Rightarrow> uint \<Rightarrow> nat list \<Rightarrow> uint \<Rightarrow> 'b fls_scheme \<Rightarrow> (uint option \<times> 'b fls_scheme) res" where
  "exec_load pgd ip phoff [] z s = Inr (Some z, s)"
| "exec_load pgd ip phoff (i # is) z s =
     bindE (readi ip (phoff + 32 * of_nat i) 32 s) (\<lambda>((r, bs), s).
     if r \<noteq> 32 then Inr (None, s)
     else let ph = ph_of_bytes bs in
       if ph_type ph \<noteq> 1 then exec_load pgd ip phoff is z s
       else if ph_memsz ph < ph_filesz ph then Inr (None, s)
       else if ph_vaddr ph + ph_memsz ph < ph_vaddr ph then Inr (None, s)
       else bindE (allocuvm (sym_end (sym s)) (km s) pgd z (ph_vaddr ph + ph_memsz ph)) (\<lambda>(z, k).
         let s = s\<lparr>km := k\<rparr> in
         if z = 0 then Inr (None, s)
         else if ph_vaddr ph mod PGSIZE \<noteq> 0 then Inr (None, s)
         else bindE (loaduvm pgd (ph_vaddr ph) ip (ph_off ph) (ph_filesz ph) s) (\<lambda>(r, s).
           if r < 0 then Inr (None, s) else exec_load pgd ip phoff is z s)))"

text \<open>\<open>copyout\<close> of vm.c with the bytes to copy given as a list: \<open>exec\<close> copies strings that lie in
  the old address space and words that lie on the kernel stack.\<close>

function copyout_l :: "kmem \<Rightarrow> uint \<Rightarrow> uint \<Rightarrow> uchar list \<Rightarrow> (int \<times> kmem) res" where
  "copyout_l k pgd va bs =
     (if bs = [] then Inr (0, k)
      else let va0 = PGROUNDDOWN va in
        bindE (uva2ka k pgd va0) (\<lambda>pa0.
          if pa0 = 0 then Inr (-1, k)
          else let n = min (length bs) (max 1 (unat (PGSIZE - (va - va0)))) in
            copyout_l (set_mem (put_bytes (kmemory k) (pa0 + (va - va0)) (take n bs)) k) pgd (va0 + PGSIZE) (drop n bs)))"
  by pat_completeness auto
termination by (relation "measure (\<lambda>(k, pgd, va, bs). length bs)") auto

declare copyout_l.simps [simp del]

text \<open>The loop over the arguments: the stack pointer and the pointers pushed, or \<open>None\<close> for \<open>bad\<close>.\<close>

fun exec_args :: "uint \<Rightarrow> uchar list list \<Rightarrow> nat \<Rightarrow> uint \<Rightarrow> uint list \<Rightarrow> 'b fls_scheme \<Rightarrow> ((uint \<times> uint list) option \<times> 'b fls_scheme) res" where
  "exec_args pgd [] argc sp us s = Inr (Some (sp, us), s)"
| "exec_args pgd (a # as) argc sp us s =
     (if argc \<ge> MAXARG then Inr (None, s)
      else let sp = (sp - (of_nat (length a) + 1)) AND NOT 3 in
        bindE (copyout_l (km s) pgd sp (a @ [0])) (\<lambda>(r, k).
        let s = s\<lparr>km := k\<rparr> in
        if r < 0 then Inr (None, s) else exec_args pgd as (Suc argc) sp (us @ [sp]) s))"

definition exec_bad :: "uint \<Rightarrow> nat option \<Rightarrow> 'b fls_scheme \<Rightarrow> (int \<times> 'b fls_scheme) res" where
  "exec_bad pgd ip s =
     bindE (if pgd \<noteq> 0 then bindE (freevm (sym_end (sym s)) (km s) pgd) (\<lambda>k. Inr (s\<lparr>km := k\<rparr>)) else Inr s) (\<lambda>s.
     case ip of None \<Rightarrow> Inr (-1, s)
     | Some ip \<Rightarrow> bindE (iunlockput ip s) (\<lambda>s. bindE (end_op s) (\<lambda>s. Inr (-1, s))))"

text \<open>The last component of the path, for debugging.\<close>

fun path_last_elem :: "uchar list \<Rightarrow> uchar list \<Rightarrow> uchar list" where
  "path_last_elem lst [] = lst"
| "path_last_elem lst (c # cs) = path_last_elem (if c = slash then cs else lst) cs"

definition exec_words :: "uint list \<Rightarrow> uchar list" where
  "exec_words ws = wr_addrs 0 ws (replicate (4 * length ws) 0)"

text \<open>The second half of \<open>exec\<close>: the user stack, and the switch to the new image.\<close>

definition exec_commit :: "uchar list \<Rightarrow> uint \<Rightarrow> uint \<Rightarrow> uint \<Rightarrow> uint \<Rightarrow> 'b fls_scheme \<Rightarrow> (int \<times> 'b fls_scheme) res" where
  "exec_commit pth entry pgd z sp s =
     (let s = upd_p (cur s) (\<lambda>p. p\<lparr>name := safestrcpy_l 16 (name p) (path_last_elem pth pth)\<rparr>) s;
          old = pgdir (curproc s);
          s = upd_p (cur s) (\<lambda>p. p\<lparr>pgdir := pgd, sz := z\<rparr>) s;
          s = upd_kmem (\<lambda>m. store32 m (tf (curproc s) + TF_eip) entry) s;
          s = upd_kmem (\<lambda>m. store32 m (tf (curproc s) + TF_esp) sp) s
      in bindE (switchuvm (Some (cur s)) s) (\<lambda>s.
         bindE (freevm (sym_end (sym s)) (km s) old) (\<lambda>k. Inr (0, s\<lparr>km := k\<rparr>))))"

definition exec_stack :: "uchar list \<Rightarrow> uchar list list \<Rightarrow> uint \<Rightarrow> uint \<Rightarrow> uint \<Rightarrow> 'b fls_scheme \<Rightarrow> (int \<times> 'b fls_scheme) res" where
  "exec_stack pth argv entry pgd z s =
     (let z = PGROUNDUP z in
      bindE (allocuvm (sym_end (sym s)) (km s) pgd z (z + 2 * PGSIZE)) (\<lambda>(z, k).
      let s = s\<lparr>km := k\<rparr> in
      if z = 0 then exec_bad pgd None s
      else bindE (clearpteu (km s) pgd (z - 2 * PGSIZE)) (\<lambda>k.
        bindE (exec_args pgd argv 0 z [] (s\<lparr>km := k\<rparr>)) (\<lambda>(r, s).
        case r of None \<Rightarrow> exec_bad pgd None s
        | Some (sp, us) \<Rightarrow>
            let argc = of_nat (length us);
                ustack = [0xffffffff, argc, sp - (argc + 1) * 4] @ us @ [0];
                sp = sp - (3 + argc + 1) * 4
            in bindE (copyout_l (km s) pgd sp (exec_words ustack)) (\<lambda>(r, k).
               let s = s\<lparr>km := k\<rparr> in
               if r < 0 then exec_bad pgd None s else exec_commit pth entry pgd z sp s)))))"

definition exec :: "uchar list \<Rightarrow> uchar list list \<Rightarrow> 'b fls_scheme \<Rightarrow> (int \<times> 'b fls_scheme) res" where
  "exec pth argv s =
     bindE (begin_op s) (\<lambda>s.
     bindE (namei pth s) (\<lambda>(r, s).
     case r of
       None \<Rightarrow> bindE (end_op s) (\<lambda>s. bindE (cprintf (Some (ascii ''exec: fail'' @ [10])) [] s) (\<lambda>s. Inr (-1, s)))
     | Some ip \<Rightarrow>
       bindE (ilock (Some ip) s) (\<lambda>s.
       bindE (readi ip 0 52 s) (\<lambda>((r, bs), s).
       let elf = elf_of_bytes bs in
       if r \<noteq> 52 \<or> e_magic elf \<noteq> ELF_MAGIC then exec_bad 0 (Some ip) s
       else bindE (setupkvm (sym_end (sym s)) (sym_data (sym s)) (km s)) (\<lambda>(pgd, k).
         let s = s\<lparr>km := k\<rparr> in
         if pgd = 0 then exec_bad 0 (Some ip) s
         else bindE (exec_load pgd ip (e_phoff elf) [0..<unat (e_phnum elf)] 0 s) (\<lambda>(r, s).
           case r of None \<Rightarrow> exec_bad pgd (Some ip) s
           | Some z \<Rightarrow>
               bindE (iunlockput ip s) (\<lambda>s.
               bindE (end_op s) (\<lambda>s.
               exec_stack pth argv (e_entry elf) pgd z s))))))))"

text \<open>The loop of \<open>sys_exec\<close> over the user's argument vector; at most \<open>MAXARG\<close> entries are read.\<close>

fun exec_argv :: "nat \<Rightarrow> uint \<Rightarrow> uchar list list \<Rightarrow> 'b fls_scheme \<Rightarrow> uchar list list option res" where
  "exec_argv 0 uargv acc s = Inr None"
| "exec_argv (Suc k) uargv acc s =
     bindE (fetchint uargv s) (\<lambda>r. case r of None \<Rightarrow> Inr None | Some uarg \<Rightarrow>
     if uarg = 0 then Inr (Some acc)
     else bindE (fetchstr uarg s) (\<lambda>r. case r of None \<Rightarrow> Inr None | Some a \<Rightarrow>
       exec_argv k (uargv + 4) (acc @ [a]) s))"

definition sys_exec :: "'b fls_scheme \<Rightarrow> (int \<times> 'b fls_scheme) res" where
  "sys_exec s =
     bindE (argstr 0 s) (\<lambda>r. case r of None \<Rightarrow> Inr (-1, s) | Some pth \<Rightarrow>
     bindE (argint 1 s) (\<lambda>r. case r of None \<Rightarrow> Inr (-1, s) | Some uargv \<Rightarrow>
     bindE (exec_argv MAXARG uargv [] s) (\<lambda>r. case r of None \<Rightarrow> Inr (-1, s) | Some argv \<Rightarrow> exec pth argv s)))"

section \<open>Dispatch\<close>

text \<open>How a system call ends: with a value for \<open>eax\<close>, asleep, or without return.\<close>

datatype sysres = SysRet int | SysSleep | SysExit

definition ret1 :: "(int \<times> 's) res \<Rightarrow> (sysres \<times> 's) res" where
  "ret1 m = bindE m (\<lambda>(r, s). Inr (SysRet r, s))"

definition retp :: "(pres \<times> 's) res \<Rightarrow> (sysres \<times> 's) res" where
  "retp m = bindE m (\<lambda>(r, s). Inr (case r of Ret v \<Rightarrow> SysRet v | Sleeps _ \<Rightarrow> SysSleep, s))"

text \<open>The table \<open>syscalls\<close>; \<open>None\<close> for a number without an entry.\<close>

definition syscalls :: "int \<Rightarrow> 'b prs_scheme \<Rightarrow> (sysres \<times> 'b prs_scheme) res option" where
  "syscalls num s =
     (if num = 1 then Some (ret1 (fork s))
      else if num = 2 then Some (bindE (exit s) (\<lambda>s. Inr (SysExit, s)))
      else if num = 3 then Some (retp (wait s))
      else if num = 4 then Some (ret1 (sys_pipe s))
      else if num = 5 then Some (ret1 (sys_read s))
      else if num = 6 then Some (ret1 (sys_kill s))
      else if num = 7 then Some (ret1 (sys_exec s))
      else if num = 8 then Some (ret1 (sys_fstat s))
      else if num = 9 then Some (ret1 (sys_chdir s))
      else if num = 10 then Some (ret1 (sys_dup s))
      else if num = 11 then Some (ret1 (sys_getpid s))
      else if num = 12 then Some (ret1 (sys_sbrk s))
      else if num = 13 then Some (retp (sys_sleep s))
      else if num = 14 then Some (ret1 (sys_uptime s))
      else if num = 15 then Some (ret1 (sys_open s))
      else if num = 16 then Some (ret1 (sys_write s))
      else if num = 17 then Some (ret1 (sys_mknod s))
      else if num = 18 then Some (ret1 (sys_unlink s))
      else if num = 19 then Some (ret1 (sys_link s))
      else if num = 20 then Some (ret1 (sys_mkdir s))
      else if num = 21 then Some (ret1 (sys_close s))
      else if num = 22 then Some (ret1 (sys_getreadcount s))
      else None)"

definition set_eax :: "int \<Rightarrow> 'b fls_scheme \<Rightarrow> 'b fls_scheme" where
  "set_eax v s = upd_kmem (\<lambda>m. store32 m (tf (curproc s) + TF_eax) (of_int v)) s"

definition syscall :: "'b prs_scheme \<Rightarrow> (sysres \<times> 'b prs_scheme) res" where
  "syscall s =
     (let num = sint (tf_get TF_eax s) in
      case syscalls num s of
        Some m \<Rightarrow> bindE m (\<lambda>(r, s). Inr (r, case r of SysRet v \<Rightarrow> set_eax v s | _ \<Rightarrow> s))
      | None \<Rightarrow>
          bindE (cprintf (Some (ascii ''%d %s: unknown sys call %d'' @ [10]))
            [AInt (of_int (pid (curproc s))), AStr (cstr (name (curproc s))), AInt (of_int num)] s)
            (\<lambda>s. Inr (SysRet (-1), set_eax (-1) s)))"

section \<open>Traps\<close>

definition T_SYSCALL :: uint where "T_SYSCALL = 64"
definition T_IRQ0 :: uint where "T_IRQ0 = 32"
definition DPL_USER :: uint where "DPL_USER = 3"

text \<open>What the devices have for the interrupt handlers: the CPU, the fault address, and the bytes
  of the keyboard and of the serial line.  With the memory disk, \<open>ideintr\<close> does nothing.\<close>

record trapin =
  t_cpu :: uint
  t_cr2 :: uint
  t_kbd :: "uchar list"
  t_com :: "uchar list"

text \<open>How a trap ends: back to where it came from, with the process asleep, exited, or having
  given up the CPU.\<close>

datatype trapres = TrapRet | TrapSleep | TrapExit | TrapYield

definition tick :: "trapin \<Rightarrow> 'b prs_scheme \<Rightarrow> 'b prs_scheme" where
  "tick i s = (if t_cpu i = 0 then s\<lparr>ticks := ticks s + 1, pt := wakeup CTicks (pt s)\<rparr> else s)"

text \<open>The switch of \<open>trap\<close> for a running process; the keyboard's shift state goes through.\<close>

definition trap_irq :: "trapin \<Rightarrow> uint \<Rightarrow> uint \<Rightarrow> 'b prs_scheme \<Rightarrow> (uint \<times> 'b prs_scheme) res" where
  "trap_irq i shift f s =
     (let no = load32 (kmemory (km s)) (f + TF_trapno);
          cs = load32 (kmemory (km s)) (f + TF_cs) AND 0xffff;
          eip = load32 (kmemory (km s)) (f + TF_eip) in
      if no = T_IRQ0 then Inr (shift, tick i s)
      else if no = T_IRQ0 + 14 then Inr (shift, s)
      else if no = T_IRQ0 + 15 then Inr (shift, s)
      else if no = T_IRQ0 + 1 then kbdintr (t_kbd i) shift s
      else if no = T_IRQ0 + 4 then bindE (uartintr (t_com i) s) (\<lambda>s. Inr (shift, s))
      else if no = T_IRQ0 + 7 \<or> no = T_IRQ0 + 31 then
        bindE (cprintf (Some (ascii ''cpu%d: spurious interrupt at %x:%x'' @ [10])) [AInt (t_cpu i), AInt cs, AInt eip] s)
          (\<lambda>s. Inr (shift, s))
      else if cs AND 3 = 0 then
        bindE (cprintf (Some (ascii ''unexpected trap %d from cpu %d eip %x (cr2=0x%x)'' @ [10]))
          [AInt no, AInt (t_cpu i), AInt eip, AInt (t_cr2 i)] s) (\<lambda>_. panic ''trap'')
      else
        bindE (cprintf (Some (ascii ''pid %d %s: trap %d err %d on cpu %d eip 0x%x addr 0x%x--kill proc'' @ [10]))
          [AInt (of_int (pid (curproc s))), AStr (cstr (name (curproc s))), AInt no, AInt (load32 (kmemory (km s)) (f + TF_err)),
           AInt (t_cpu i), AInt eip, AInt (t_cr2 i)] s)
          (\<lambda>s. Inr (shift, upd_p (cur s) (\<lambda>p. p\<lparr>killed := True\<rparr>) s)))"

definition exit_if_killed :: "bool \<Rightarrow> trapres \<Rightarrow> 'b fls_scheme \<Rightarrow> (trapres \<times> 'b fls_scheme) res" where
  "exit_if_killed user r s =
     (if killed (curproc s) \<and> user then bindE (exit s) (\<lambda>s. Inr (TrapExit, s)) else Inr (r, s))"

text \<open>\<open>trap\<close> with the trap frame at \<open>f\<close>, on a CPU that runs a process.  After \<open>yield\<close> the last test
  happens when the process runs again; it is \<open>exit_if_killed\<close> on the state at that time.\<close>

definition trap :: "trapin \<Rightarrow> uint \<Rightarrow> uint \<Rightarrow> 'b prs_scheme \<Rightarrow> (trapres \<times> uint \<times> 'b prs_scheme) res" where
  "trap i shift f s =
     (let no = load32 (kmemory (km s)) (f + TF_trapno);
          user = (load32 (kmemory (km s)) (f + TF_cs) AND 3 = DPL_USER) in
      if no = T_SYSCALL then
        if killed (curproc s) then bindE (exit s) (\<lambda>s. Inr (TrapExit, shift, s))
        else bindE (syscall (upd_p (cur s) (\<lambda>p. p\<lparr>tf := f\<rparr>) s)) (\<lambda>(r, s).
          case r of
            SysSleep \<Rightarrow> Inr (TrapSleep, shift, s)
          | SysExit \<Rightarrow> Inr (TrapExit, shift, s)
          | SysRet _ \<Rightarrow> bindE (exit_if_killed True TrapRet s) (\<lambda>(r, s). Inr (r, shift, s)))
      else
        bindE (trap_irq i shift f s) (\<lambda>(shift, s).
        bindE (exit_if_killed user TrapRet s) (\<lambda>(r, s).
        if r = TrapRet \<and> state (curproc s) = RUNNING \<and> no = T_IRQ0
        then Inr (TrapYield, shift, s\<lparr>pt := yield_enter (cur s) (pt s)\<rparr>)
        else Inr (r, shift, s))))"

end
