(* ===== verification/C_Stdio.thy ===== *)
theory C_Stdio
  imports Xv6_Prelude "HOL-Library.Sublist"
begin

text \<open>
  What the programs for Linux use of the C library, on byte lists: a file open for reading is
  the list of the bytes not read yet, a string in memory is a byte list whose first zero byte
  ends it.  A run of a program gives its exit status and the bytes on its standard output.
\<close>

section \<open>Strings\<close>

definition bytes :: "string \<Rightarrow> uchar list" where
  "bytes s = map of_char s"

abbreviation NL :: uchar where "NL \<equiv> 10"

definition cstr :: "uchar list \<Rightarrow> uchar list" where
  "cstr b = takeWhile (\<lambda>c. c \<noteq> 0) b"

lemma cstr_id [simp]: "0 \<notin> set b \<Longrightarrow> cstr b = b"
  by (auto simp: cstr_def takeWhile_eq_all_conv)

text \<open>\<open>strstr\<close>: the offset of the first occurrence.\<close>

fun strstr :: "uchar list \<Rightarrow> uchar list \<Rightarrow> nat option" where
  "strstr h n =
     (if take (length n) h = n then Some 0
      else case h of [] \<Rightarrow> None | _ # t \<Rightarrow> map_option Suc (strstr t n))"

declare strstr.simps [simp del]

lemma strstr_sublist: "strstr h n \<noteq> None \<longleftrightarrow> sublist n h"
proof (induction h)
  case Nil
  then show ?case by (auto simp: strstr.simps [of "[]"])
next
  case (Cons c h)
  have "take (length n) (c # h) = n \<longleftrightarrow> prefix n (c # h)"
    by (metis append_eq_conv_conj prefix_def)
  then show ?case using Cons by (auto simp: strstr.simps [of "c # h"] sublist_Cons_right)
qed

text \<open>\<open>strcmp\<close> on strings without zero bytes: the sign of the first difference, as unsigned bytes.\<close>

fun strcmp :: "uchar list \<Rightarrow> uchar list \<Rightarrow> int" where
  "strcmp [] [] = 0"
| "strcmp [] (c # b) = - uint c"
| "strcmp (c # a) [] = uint c"
| "strcmp (c # a) (d # b) = (if c = d then strcmp a b else uint c - uint d)"

lemma strcmp_eq_0: "0 \<notin> set a \<Longrightarrow> 0 \<notin> set b \<Longrightarrow> strcmp a b = 0 \<longleftrightarrow> a = b"
  by (induction a b rule: strcmp.induct) (auto simp: uint_0_iff dest: unsigned_word_eqI)

text \<open>\<open>strsep(&s, delim)\<close>: the token before the first delimiter and the rest, \<open>None\<close> when there is
  no delimiter left.  The loop \<open>while((tok = strsep(&s, delim)) != NULL)\<close> sees these tokens.\<close>

fun strsep_all :: "uchar set \<Rightarrow> uchar list \<Rightarrow> uchar list list" where
  "strsep_all ds [] = [[]]"
| "strsep_all ds (c # s) =
     (if c \<in> ds then [] # strsep_all ds s
      else case strsep_all ds s of t # ts \<Rightarrow> (c # t) # ts | [] \<Rightarrow> [[c]])"

lemma strsep_all_ne [simp]: "strsep_all ds s \<noteq> []"
  by (induction s) (auto split: list.splits)

lemma strsep_all_no_delim: "t \<in> set (strsep_all ds s) \<Longrightarrow> set t \<inter> ds = {}"
proof (induction s arbitrary: t)
  case (Cons c s)
  obtain u us where u: "strsep_all ds s = u # us" by (cases "strsep_all ds s") auto
  have "set u \<inter> ds = {}" "\<And>t. t \<in> set us \<Longrightarrow> set t \<inter> ds = {}" using Cons.IH u by simp_all
  with Cons.prems u show ?case by (auto split: if_splits)
qed simp

lemma strsep_all_subset: "t \<in> set (strsep_all ds s) \<Longrightarrow> set t \<subseteq> set s"
proof (induction s arbitrary: t)
  case (Cons c s)
  obtain u us where u: "strsep_all ds s = u # us" by (cases "strsep_all ds s") auto
  have "set u \<subseteq> set s" "\<And>t. t \<in> set us \<Longrightarrow> set t \<subseteq> set s" using Cons.IH u by simp_all
  with Cons.prems u show ?case by (auto split: if_splits)
qed simp

section \<open>Reading\<close>

text \<open>\<open>fgets(buf, n, f)\<close>: at most \<open>n - 1\<close> bytes, up to and including a newline.\<close>

fun fgets_take :: "nat \<Rightarrow> uchar list \<Rightarrow> uchar list \<times> uchar list" where
  "fgets_take 0 f = ([], f)"
| "fgets_take (Suc n) [] = ([], [])"
| "fgets_take (Suc n) (c # f) =
     (if c = NL then ([c], f) else let (a, r) = fgets_take n f in (c # a, r))"

definition fgets :: "nat \<Rightarrow> uchar list \<Rightarrow> (uchar list \<times> uchar list) option" where
  "fgets n f = (if f = [] then None else Some (fgets_take (n - 1) f))"

lemma fgets_take_append: "fgets_take n f = (a, r) \<Longrightarrow> a @ r = f"
  by (induction n f arbitrary: a r rule: fgets_take.induct) (auto split: if_splits prod.splits)

lemma fgets_take_progress: "fgets_take (Suc n) f = (a, r) \<Longrightarrow> f \<noteq> [] \<Longrightarrow> length r < length f"
  using fgets_take_append [of "Suc n" f a r] by (cases f) (auto split: if_splits prod.splits)

text \<open>\<open>getline\<close>: a whole line with its newline.\<close>

fun getline_take :: "uchar list \<Rightarrow> uchar list \<times> uchar list" where
  "getline_take [] = ([], [])"
| "getline_take (c # f) = (if c = NL then ([c], f) else let (a, r) = getline_take f in (c # a, r))"

definition getline :: "uchar list \<Rightarrow> (uchar list \<times> uchar list) option" where
  "getline f = (if f = [] then None else Some (getline_take f))"

lemma getline_take_append: "getline_take f = (a, r) \<Longrightarrow> a @ r = f"
  by (induction f arbitrary: a r rule: getline_take.induct) (auto split: if_splits prod.splits)

lemma getline_shorter: "getline f = Some (a, r) \<Longrightarrow> length r < length f"
proof -
  assume "getline f = Some (a, r)"
  then have g: "getline_take f = (a, r)" "f \<noteq> []" by (auto simp: getline_def split: if_splits)
  then have "a \<noteq> []" by (cases f) (auto split: if_splits prod.splits)
  with getline_take_append [OF g(1)] show ?thesis by auto
qed

text \<open>The lines of a file, as a loop over \<open>getline\<close> sees them.\<close>

function file_lines :: "uchar list \<Rightarrow> uchar list list" where
  "file_lines f = (case getline f of None \<Rightarrow> [] | Some (l, r) \<Rightarrow> l # file_lines r)"
  by pat_completeness auto
termination by (relation "measure length") (auto dest: getline_shorter)

declare file_lines.simps [simp del]

text \<open>They are the file cut after every newline: put together they are the file, none is empty,
  and a newline occurs only as the last byte of a line.\<close>

lemma getline_line:
  "getline_take f = (a, r) \<Longrightarrow> f \<noteq> [] \<Longrightarrow> a \<noteq> [] \<and> NL \<notin> set (butlast a) \<and> (last a = NL \<or> r = [])"
proof (induction f arbitrary: a r rule: getline_take.induct)
  case (2 c f)
  then show ?case by (cases f) (auto split: if_splits prod.splits)
qed simp

lemma file_lines_spec:
  "concat (file_lines f) = f \<and> (\<forall>l \<in> set (file_lines f). l \<noteq> [] \<and> NL \<notin> set (butlast l)) \<and>
   (\<forall>l \<in> set (butlast (file_lines f)). last l = NL)"
proof (induction f rule: file_lines.induct)
  case (1 f)
  show ?case
  proof (cases "getline f")
    case None
    then show ?thesis by (simp add: file_lines.simps [of f] getline_def split: if_splits)
  next
    case (Some p)
    obtain l r where lr: "getline f = Some (l, r)" using Some by (cases p) auto
    then have g: "getline_take f = (l, r)" "f \<noteq> []" by (auto simp: getline_def split: if_splits)
    have e: "file_lines f = l # file_lines r" using lr by (simp add: file_lines.simps [of f])
    have "last l = NL" if "file_lines r \<noteq> []"
      using that getline_line [OF g] by (auto simp: file_lines.simps [of "[]"] getline_def)
    with 1 [OF lr refl] getline_line [OF g] getline_take_append [OF g(1)] e show ?thesis by auto
  qed
qed

lemma getline_take_line: "NL \<notin> set s \<Longrightarrow> getline_take (s @ NL # r) = (s @ [NL], r)"
  by (induction s) auto

lemma file_lines_concat: "\<forall>s \<in> set ss. NL \<notin> set s \<Longrightarrow> file_lines (concat (map (\<lambda>s. s @ [NL]) ss)) = map (\<lambda>s. s @ [NL]) ss"
proof (induction ss)
  case (Cons s ss)
  then show ?case by (subst file_lines.simps) (simp add: getline_def getline_take_line)
qed (simp add: file_lines.simps getline_def)

section \<open>Runs of a list\<close>

text \<open>The maximal runs of equal elements, and the list they stand for.\<close>

fun rle :: "'a list \<Rightarrow> (nat \<times> 'a) list" where
  "rle [] = []"
| "rle (x # xs) = (case rle xs of (n, y) # r \<Rightarrow> if x = y then (Suc n, y) # r else (1, x) # (n, y) # r | [] \<Rightarrow> [(1, x)])"

definition expand :: "(nat \<times> 'a) list \<Rightarrow> 'a list" where
  "expand rs = concat (map (\<lambda>(n, x). replicate n x) rs)"

lemma rle_ne [simp]: "rle (x # xs) \<noteq> []"
  by (auto split: list.splits)

lemma rle_snoc:
  "rle (xs @ [x]) = (if xs \<noteq> [] \<and> snd (last (rle xs)) = x then butlast (rle xs) @ [(Suc (fst (last (rle xs))), x)] else rle xs @ [(1, x)])"
proof (induction xs)
  case (Cons y ys)
  show ?case
  proof (cases ys)
    case (Cons z zs)
    obtain n w r where r: "rle ys = (n, w) # r" using Cons rle_ne [of z zs] by (cases "rle ys") auto
    show ?thesis using Cons.IH Cons r by (cases r) (auto simp: butlast_append)
  qed auto
qed simp

lemma expand_rle: "expand (rle xs) = xs"
  by (induction xs) (auto simp: expand_def split: list.splits)

lemma rle_bound: "(n, x) \<in> set (rle xs) \<Longrightarrow> 0 < n \<and> n \<le> length xs"
proof (induction xs arbitrary: n x)
  case (Cons y ys)
  then show ?case by (cases "rle ys") (fastforce split: if_splits prod.splits)+
qed simp

lemma rle_set: "snd ` set (rle xs) = set xs"
proof (induction xs)
  case (Cons y ys)
  show ?case
  proof (cases "rle ys")
    case (Cons p r)
    obtain n x where p: "p = (n, x)" by fastforce
    show ?thesis using Cons.IH Cons p by auto
  qed (use Cons.IH in simp)
qed simp

section \<open>Programs\<close>

text \<open>The files that can be opened, and the result of a run.\<close>

type_synonym fsys = "string \<Rightarrow> uchar list option"
type_synonym run = "int \<times> uchar list"

text \<open>Little-endian 32-bit numbers in a byte stream.\<close>

definition le32 :: "uint \<Rightarrow> uchar list" where
  "le32 v = [ucast v, ucast (drop_bit 8 v), ucast (drop_bit 16 v), ucast (drop_bit 24 v)]"

definition of_le32 :: "uchar \<Rightarrow> uchar \<Rightarrow> uchar \<Rightarrow> uchar \<Rightarrow> uint" where
  "of_le32 a b c d = ucast a OR push_bit 8 (ucast b) OR push_bit 16 (ucast c) OR push_bit 24 (ucast d)"

lemma of_le32_le32 [simp]: "of_le32 (ucast v) (ucast (drop_bit 8 v)) (ucast (drop_bit 16 v)) (ucast (drop_bit 24 v)) = v"
proof (rule bit_word_eqI)
  fix n assume n: "n < LENGTH(32)"
  consider "n < 8" | "8 \<le> n" "n < 16" | "16 \<le> n" "n < 24" | "24 \<le> n" by linarith
  then show "bit (of_le32 (ucast v) (ucast (drop_bit 8 v)) (ucast (drop_bit 16 v)) (ucast (drop_bit 24 v))) n = bit v n"
    using n by cases (auto simp: of_le32_def bit_simps)
qed

end
