(* ===== verification/Lab_Utils.thy ===== *)
theory Lab_Utils
  imports C_Stdio
begin

text \<open>
  The utilities of Unix_Utilities: seucat, seugrep, seuzip and seuunzip.  A program is a function
  of the files it can open and of its arguments; an argument list leaves out \<open>argv[0]\<close>.
\<close>

section \<open>seucat\<close>

text \<open>The loop of \<open>printFile\<close>; \<open>printf("%s", buffer)\<close> stops at a zero byte.\<close>

function print_chunks :: "uchar list \<Rightarrow> uchar list" where
  "print_chunks f = (case fgets 255 f of None \<Rightarrow> [] | Some (b, r) \<Rightarrow> cstr b @ print_chunks r)"
  by pat_completeness auto
termination
  by (relation "measure length") (auto simp: fgets_def split: if_splits dest: fgets_take_progress [of 253, simplified])

declare print_chunks.simps [simp del]

text \<open>\<open>printFile\<close>: \<open>Inl\<close> for the exit with status 1.\<close>

definition printFile :: "fsys \<Rightarrow> string \<Rightarrow> uchar list \<Rightarrow> run + uchar list" where
  "printFile fs pth out =
     (case fs pth of None \<Rightarrow> Inl (1, out @ bytes ''cannot open file'' @ [NL])
      | Some f \<Rightarrow> Inr (out @ print_chunks f))"

fun each_file :: "(string \<Rightarrow> 's \<Rightarrow> run + 's) \<Rightarrow> string list \<Rightarrow> 's \<Rightarrow> run + 's" where
  "each_file act [] s = Inr s"
| "each_file act (p # ps) s = (case act p s of Inl r \<Rightarrow> Inl r | Inr s \<Rightarrow> each_file act ps s)"

definition seucat :: "fsys \<Rightarrow> string list \<Rightarrow> run" where
  "seucat fs args = (case each_file (printFile fs) args [] of Inl r \<Rightarrow> r | Inr out \<Rightarrow> (0, out))"

section \<open>seugrep\<close>

text \<open>\<open>searchStrFromFile\<close>: the lines that contain the term.\<close>

definition grep_line :: "uchar list \<Rightarrow> uchar list \<Rightarrow> uchar list" where
  "grep_line str buffer = (if strstr (cstr buffer) str \<noteq> None then cstr buffer else [])"

definition searchStrFromFile :: "uchar list \<Rightarrow> uchar list \<Rightarrow> uchar list" where
  "searchStrFromFile str f = concat (map (grep_line str) (file_lines f))"

definition grep_file :: "fsys \<Rightarrow> uchar list \<Rightarrow> string \<Rightarrow> uchar list \<Rightarrow> run + uchar list" where
  "grep_file fs str pth out =
     (case fs pth of None \<Rightarrow> Inl (1, out @ bytes ''cannot open file'' @ [NL])
      | Some f \<Rightarrow> Inr (out @ searchStrFromFile str f))"

definition seugrep :: "fsys \<Rightarrow> uchar list \<Rightarrow> string list \<Rightarrow> run" where
  "seugrep fs stdin args =
     (case args of [] \<Rightarrow> (1, bytes ''searchterm [file ...]'' @ [NL])
      | [str] \<Rightarrow> (0, searchStrFromFile (bytes str) stdin)
      | str # pths \<Rightarrow> (case each_file (grep_file fs (bytes str)) pths [] of Inl r \<Rightarrow> r | Inr out \<Rightarrow> (0, out)))"

section \<open>seuzip\<close>

text \<open>The static variables of \<open>printCompressed\<close> and the output.\<close>

record zst =
  previous :: uchar
  zcount :: uint
  zout :: "uchar list"

definition zst0 :: zst where "zst0 = \<lparr>previous = 0, zcount = 0, zout = []\<rparr>"

definition UINT_MAX :: uint where "UINT_MAX = - 1"

definition printCompressed :: "uchar \<Rightarrow> zst \<Rightarrow> zst" where
  "printCompressed current s =
     (if (previous s = current \<or> zcount s = 0) \<and> zcount s \<noteq> UINT_MAX
      then s\<lparr>zcount := zcount s + 1, previous := current\<rparr>
      else \<lparr>previous = current, zcount = 1, zout = zout s @ le32 (zcount s) @ [previous s]\<rparr>)"

text \<open>The reading loop.  \<open>current\<close> is a (signed) \<open>char\<close>, so a byte 255 compares equal to \<open>EOF\<close>; the
  end of the file gives the same value.\<close>

definition EOF :: int where "EOF = - 1"

fun zip_loop :: "uchar list \<Rightarrow> zst \<Rightarrow> zst" where
  "zip_loop [] s = s"
| "zip_loop (current # f) s = (if sint current \<noteq> EOF then zip_loop f (printCompressed current s) else s)"

definition zip_file :: "fsys \<Rightarrow> string \<Rightarrow> zst \<Rightarrow> run + zst" where
  "zip_file fs pth s =
     (case fs pth of None \<Rightarrow> Inl (1, zout s @ bytes ''cannot open file'' @ [NL])
      | Some f \<Rightarrow> Inr (zip_loop f s))"

definition seuzip :: "fsys \<Rightarrow> string list \<Rightarrow> run" where
  "seuzip fs args =
     (if args = [] then (1, bytes ''seuzip: file1 [file2 ...]'' @ [NL])
      else case each_file (zip_file fs) args zst0 of Inl r \<Rightarrow> r
        | Inr s \<Rightarrow> (0, zout (printCompressed (of_int EOF) s)))"

section \<open>seuunzip\<close>

text \<open>The loop of \<open>printDecompressed\<close>: a short read sets the end-of-file flag.  The loop index of the
  printing loop is an \<open>int\<close>, whose increment overflows when the count is above \<open>INT_MAX\<close>.\<close>

fun unzip_loop :: "uchar list \<Rightarrow> uchar list res" where
  "unzip_loop (a # b # c # d # ch # f) =
     (let count = of_le32 a b c d in
      if unat count \<ge> 2 ^ 31 then Inl (Undef ''int overflow'')
      else bindE (unzip_loop f) (\<lambda>out. Inr (replicate (unat count) ch @ out)))"
| "unzip_loop _ = Inr []"

fun unzip_files :: "fsys \<Rightarrow> string list \<Rightarrow> uchar list \<Rightarrow> run res" where
  "unzip_files fs [] out = Inr (0, out)"
| "unzip_files fs (p # ps) out =
     (case fs p of None \<Rightarrow> Inr (1, out @ bytes ''cannot open file'')
      | Some f \<Rightarrow> bindE (unzip_loop f) (\<lambda>o'. unzip_files fs ps (out @ o')))"

definition seuunzip :: "fsys \<Rightarrow> string list \<Rightarrow> run res" where
  "seuunzip fs args =
     (if args = [] then Inr (1, bytes ''seuunzip: file1 [file2 ...]'' @ [NL])
      else unzip_files fs args [])"

section \<open>Run-length encoding\<close>

text \<open>A run as five bytes.\<close>

definition enc :: "nat \<times> uchar \<Rightarrow> uchar list" where
  "enc r = le32 (of_nat (fst r)) @ [snd r]"

section \<open>The compressor\<close>

text \<open>What the compressor has taken in: the last run is in the static variables, the others are
  written.\<close>

definition zinv :: "zst \<Rightarrow> uchar list \<Rightarrow> bool" where
  "zinv s xs \<longleftrightarrow> (if xs = [] then zcount s = 0 \<and> zout s = []
     else \<exists>rs. rle xs = rs @ [(unat (zcount s), previous s)] \<and> zout s = concat (map enc rs))"

lemma printCompressed_zinv:
  assumes "zinv s xs" "length xs < 2 ^ 32 - 1"
  shows "zinv (printCompressed c s) (xs @ [c])"
proof (cases "xs = []")
  case True
  then show ?thesis using assms(1) by (simp add: zinv_def printCompressed_def UINT_MAX_def)
next
  case False
  then obtain rs where rs: "rle xs = rs @ [(unat (zcount s), previous s)]" "zout s = concat (map enc rs)"
    using assms(1) by (auto simp: zinv_def)
  have n: "0 < unat (zcount s)" "unat (zcount s) < 2 ^ 32 - 1"
    using rle_bound [of "unat (zcount s)" "previous s" xs] rs(1) assms(2) by auto
  then have c: "zcount s \<noteq> 0" "zcount s \<noteq> UINT_MAX" "unat (zcount s + 1) = Suc (unat (zcount s))"
    by (auto simp: UINT_MAX_def unat_word_ariths unsigned_minus_1_eq_mask mask_eq_exp_minus_1)
  show ?thesis using rs c False by (simp add: zinv_def printCompressed_def rle_snoc enc_def)
qed

lemma minus_1_uchar: "(- 1 :: uchar) = 255"
  by code_simp

lemma sint_EOF: "sint (c :: uchar) = EOF \<longleftrightarrow> c = 255"
proof -
  have "sint c = EOF \<longleftrightarrow> sint c = sint (- 1 :: uchar)" by (simp add: EOF_def)
  also have "\<dots> \<longleftrightarrow> c = - 1" using signed_word_eqI by blast
  finally show ?thesis unfolding minus_1_uchar .
qed

lemma zip_loop_zinv:
  assumes "zinv s xs" "length xs + length (takeWhile (\<lambda>c. c \<noteq> 255) f) < 2 ^ 32"
  shows "zinv (zip_loop f s) (xs @ takeWhile (\<lambda>c. c \<noteq> 255) f)"
  using assms
proof (induction f arbitrary: s xs)
  case (Cons c f)
  show ?case
  proof (cases "c = 255")
    case False
    then have "zinv (printCompressed c s) (xs @ [c])" using Cons.prems by (intro printCompressed_zinv) auto
    from Cons.IH [OF this] show ?thesis using False Cons.prems(2) by (simp add: sint_EOF)
  qed (use Cons.prems(1) sint_EOF [of 255] in simp)
qed simp

lemma zip_flush:
  assumes "zinv s xs" "255 \<notin> set xs"
  shows "zout (printCompressed (of_int EOF) s) = concat (map enc (rle xs))"
proof (cases "xs = []")
  case True
  then show ?thesis using assms(1) by (simp add: zinv_def printCompressed_def UINT_MAX_def)
next
  case False
  then obtain rs where rs: "rle xs = rs @ [(unat (zcount s), previous s)]" "zout s = concat (map enc rs)"
    using assms(1) by (auto simp: zinv_def)
  have "previous s \<in> set xs" "0 < unat (zcount s)" using rle_set [of xs] rle_bound [of "unat (zcount s)" "previous s" xs] rs(1) by force+
  then have "previous s \<noteq> 255" "zcount s \<noteq> 0" using assms(2) by auto
  then show ?thesis using rs by (simp add: printCompressed_def EOF_def enc_def minus_1_uchar)
qed

definition upto_ff :: "fsys \<Rightarrow> string list \<Rightarrow> uchar list" where
  "upto_ff fs args = concat (map (\<lambda>p. takeWhile (\<lambda>c. c \<noteq> 255) (the (fs p))) args)"

lemma zip_files_zinv:
  assumes "zinv s xs" "\<And>p. p \<in> set args \<Longrightarrow> fs p \<noteq> None" "length xs + length (upto_ff fs args) < 2 ^ 32"
  shows "\<exists>s'. each_file (zip_file fs) args s = Inr s' \<and> zinv s' (xs @ upto_ff fs args)"
  using assms
proof (induction args arbitrary: s xs)
  case (Cons p ps)
  obtain f where f: "fs p = Some f" using Cons.prems(2) [of p] by auto
  have "zinv (zip_loop f s) (xs @ takeWhile (\<lambda>c. c \<noteq> 255) f)"
    using Cons.prems(1,3) f by (intro zip_loop_zinv) (auto simp: upto_ff_def)
  from Cons.IH [OF this] Cons.prems(2,3) f show ?case by (auto simp: upto_ff_def zip_file_def)
qed (simp add: upto_ff_def)

lemma seuzip_eq:
  assumes "args \<noteq> []" "\<And>p. p \<in> set args \<Longrightarrow> fs p \<noteq> None" "length (upto_ff fs args) < 2 ^ 32"
  shows "seuzip fs args = (0, concat (map enc (rle (upto_ff fs args))))"
proof -
  have "zinv zst0 []" by (simp add: zinv_def zst0_def)
  then obtain s where s: "each_file (zip_file fs) args zst0 = Inr s" "zinv s (upto_ff fs args)"
    using zip_files_zinv [of zst0 "[]" args fs] assms(2,3) by auto
  have "255 \<notin> set (upto_ff fs args)" by (auto simp: upto_ff_def dest: set_takeWhileD)
  from zip_flush [OF s(2) this] show ?thesis using s(1) assms(1) by (simp add: seuzip_def)
qed

text \<open>C14: The compressor against its specification.  On files that can be opened, with fewer than
  \<open>2 ^ 32\<close> bytes to encode, seuzip writes the runs of the input in order, each as a 4-byte
  little-endian length and the byte; runs continue across file boundaries, and of each file only
  the bytes before the first byte 255 are encoded.\<close>

theorem seuzip_is_rle:
  assumes "args \<noteq> []" "\<forall>p \<in> set args. fs p \<noteq> None" "length (upto_ff fs args) < 2 ^ 32"
  shows "seuzip fs args = (0, concat (map enc (rle (upto_ff fs args))))"
  by (rule seuzip_eq) (use assms in auto)

theorem seuzip_is_rle_witness:
  "seuzip (\<lambda>p. Some (if p = ''a'' then [7, 7, 8] else [8, 8, 255, 9])) [''a'', ''b''] = (0, [2, 0, 0, 0, 7, 3, 0, 0, 0, 8])"
proof -
  let ?fs = "(\<lambda>p. Some (if p = ''a'' then [7, 7, 8] else [8, 8, 255, 9])) :: fsys"
  have "upto_ff ?fs [''a'', ''b''] = [7, 7, 8, 8, 8]" by (simp add: upto_ff_def)
  then show ?thesis using seuzip_is_rle [of "[''a'', ''b'']" ?fs] by (simp add: enc_def le32_def)
qed

section \<open>The decompressor\<close>

lemma unzip_enc:
  assumes "\<And>n x. (n, x) \<in> set rs \<Longrightarrow> n < 2 ^ 31"
  shows "unzip_loop (concat (map enc rs)) = Inr (expand rs)"
  using assms
proof (induction rs)
  case (Cons r rs)
  obtain n x where r: "r = (n, x)" by fastforce
  have "n < 2 ^ 31" by (rule Cons.prems [of n x]) (simp add: r)
  then have u: "unat (of_nat n :: uint) = n" by (simp add: unat_of_nat)
  have IH: "unzip_loop (concat (map enc rs)) = Inr (expand rs)"
    by (rule Cons.IH) (use Cons.prems in \<open>meson list.set_intros(2)\<close>)
  have e: "enc r = [ucast (of_nat n :: uint), ucast (drop_bit 8 (of_nat n :: uint)), ucast (drop_bit 16 (of_nat n :: uint)),
      ucast (drop_bit 24 (of_nat n :: uint)), x]"
    by (simp add: r enc_def le32_def)
  show ?case using IH e u r \<open>n < 2 ^ 31\<close> by (simp add: expand_def)
qed (simp add: expand_def)

lemma upto_ff_id: "(\<And>p. p \<in> set args \<Longrightarrow> 255 \<notin> set (the (fs p))) \<Longrightarrow> upto_ff fs args = concat (map (\<lambda>p. the (fs p)) args)"
  unfolding upto_ff_def by (induction args) (auto simp: takeWhile_eq_all_conv)

text \<open>C27: Round trip.  When no file contains a byte 255 and there are fewer than \<open>2 ^ 31\<close> bytes in all,
  decompressing what seuzip writes gives the concatenation of the files back.\<close>

theorem seuzip_seuunzip_roundtrip:
  assumes "args \<noteq> []" "\<forall>p \<in> set args. \<exists>f. fs p = Some f \<and> 255 \<notin> set f"
    "length (concat (map (\<lambda>p. the (fs p)) args)) < 2 ^ 31"
  shows "\<exists>z. seuzip fs args = (0, z) \<and>
    (\<forall>gs q. gs q = Some z \<longrightarrow> seuunzip gs [q] = Inr (0, concat (map (\<lambda>p. the (fs p)) args)))"
proof -
  let ?x = "concat (map (\<lambda>p. the (fs p)) args)"
  have u: "upto_ff fs args = ?x" by (rule upto_ff_id) (use assms(2) in auto)
  have z: "seuzip fs args = (0, concat (map enc (rle ?x)))"
    unfolding u [symmetric] by (rule seuzip_eq) (use assms u in auto)
  have "unzip_loop (concat (map enc (rle ?x))) = Inr ?x"
    using unzip_enc [of "rle ?x"] rle_bound [of _ _ ?x] assms(3) expand_rle [of ?x] by fastforce
  with z show ?thesis by (simp add: seuunzip_def)
qed

theorem seuzip_seuunzip_roundtrip_witness:
  "\<exists>z. seuzip (\<lambda>p. Some [65, 65, 10]) [''a'', ''b''] = (0, z) \<and> seuunzip (\<lambda>q. Some z) [''c''] = Inr (0, [65, 65, 10, 65, 65, 10])"
  using seuzip_seuunzip_roundtrip [of "[''a'', ''b'']" "\<lambda>p. Some [65, 65, 10]"] by auto

section \<open>Printing and searching\<close>

lemma print_chunks_id: "0 \<notin> set f \<Longrightarrow> print_chunks f = f"
proof (induction f rule: print_chunks.induct)
  case (1 f)
  show ?case
  proof (cases "f = []")
    case False
    obtain b r where br: "fgets_take 254 f = (b, r)" by fastforce
    then have g: "fgets 255 f = Some (b, r)" "b @ r = f" using False fgets_take_append by (auto simp: fgets_def)
    then have "0 \<notin> set b" "0 \<notin> set r" using 1(2) by auto
    with 1(1) [OF g(1) refl] g show ?thesis by (simp add: print_chunks.simps [of f])
  qed (simp add: print_chunks.simps [of "[]"] fgets_def)
qed

text \<open>A program that handles its files in turn and stops at the first that cannot be opened.\<close>

definition until_missing :: "fsys \<Rightarrow> (uchar list \<Rightarrow> uchar list) \<Rightarrow> string list \<Rightarrow> run" where
  "until_missing fs out ps =
     (if \<forall>p \<in> set ps. fs p \<noteq> None then (0, concat (map (\<lambda>p. out (the (fs p))) ps))
      else (1, concat (map (\<lambda>p. out (the (fs p))) (takeWhile (\<lambda>p. fs p \<noteq> None) ps)) @ bytes ''cannot open file'' @ [NL]))"

lemma each_file_run:
  assumes "\<And>p s. act p s = (case fs p of None \<Rightarrow> Inl (1, s @ bytes ''cannot open file'' @ [NL]) | Some f \<Rightarrow> Inr (s @ out f))"
  shows "(case each_file act ps s of Inl r \<Rightarrow> r | Inr o' \<Rightarrow> (0, o')) = apsnd ((@) s) (until_missing fs out ps)"
  by (induction ps arbitrary: s) (auto simp: assms until_missing_def split: option.splits)

lemma until_missing_cong:
  assumes "\<And>p f. p \<in> set ps \<Longrightarrow> fs p = Some f \<Longrightarrow> out f = out' f"
  shows "until_missing fs out ps = until_missing fs out' ps"
proof -
  have "out (the (fs p)) = out' (the (fs p))" if "p \<in> set ps" "fs p \<noteq> None" for p using assms [of p] that by auto
  then have m: "map (\<lambda>p. out (the (fs p))) qs = map (\<lambda>p. out' (the (fs p))) qs" if "\<forall>p \<in> set qs. p \<in> set ps \<and> fs p \<noteq> None" for qs
    using that by auto
  have "\<forall>p \<in> set (takeWhile (\<lambda>p. fs p \<noteq> None) ps). p \<in> set ps \<and> fs p \<noteq> None" by (blast dest: set_takeWhileD)
  note t = m [OF this]
  show ?thesis
  proof (cases "\<forall>p \<in> set ps. fs p \<noteq> None")
    case True
    then have "map (\<lambda>p. out (the (fs p))) ps = map (\<lambda>p. out' (the (fs p))) ps" by (intro m) blast
    then show ?thesis unfolding until_missing_def t by (simp only:)
  qed (simp only: until_missing_def t if_False)
qed

lemma grep_text:
  assumes "0 \<notin> set f"
  shows "searchStrFromFile w f = concat (filter (sublist w) (file_lines f))"
proof -
  have "0 \<notin> set l" if "l \<in> set (file_lines f)" for l using that file_lines_spec [of f] assms by (metis UN_I set_concat)
  then have "map (grep_line w) (file_lines f) = map (\<lambda>l. if sublist w l then l else []) (file_lines f)"
    by (auto simp: grep_line_def strstr_sublist [symmetric])
  moreover have "concat (map (\<lambda>l. if sublist w l then l else []) ls) = concat (filter (sublist w) ls)" for ls by (induction ls) auto
  ultimately show ?thesis unfolding searchStrFromFile_def by (simp only:)
qed

text \<open>C29: seucat and seugrep on text.  When no file contains a zero byte, seucat prints the files one
  after the other, and seugrep prints exactly the lines that contain the search term, in order,
  each as a whole; both stop at the first file that cannot be opened, after printing what came
  before, with the message and status 1.\<close>

theorem cat_grep_on_text:
  assumes "\<forall>p \<in> set args. \<forall>f. fs p = Some f \<longrightarrow> 0 \<notin> set f" "args \<noteq> []"
  shows "seucat fs args = until_missing fs id args \<and>
    seugrep fs stdin (w # args) = until_missing fs (\<lambda>f. concat (filter (sublist (bytes w)) (file_lines f))) args"
proof
  have "seucat fs args = until_missing fs print_chunks args"
    using each_file_run [where act = "printFile fs" and fs = fs and out = print_chunks and ps = args and s = "[]"] by (simp add: seucat_def printFile_def apsnd_def map_prod_def split: prod.splits)
  also have "\<dots> = until_missing fs id args" by (rule until_missing_cong) (use assms(1) print_chunks_id in auto)
  finally show "seucat fs args = until_missing fs id args" .
  have "seugrep fs stdin (w # args) = until_missing fs (searchStrFromFile (bytes w)) args"
    using each_file_run [where act = "grep_file fs (bytes w)" and fs = fs and out = "searchStrFromFile (bytes w)" and ps = args and s = "[]"] assms(2)
    by (cases args) (simp_all add: seugrep_def grep_file_def apsnd_def map_prod_def split: prod.splits)
  also have "\<dots> = until_missing fs (\<lambda>f. concat (filter (sublist (bytes w)) (file_lines f))) args"
    by (rule until_missing_cong) (use assms(1) grep_text in auto)
  finally show "seugrep fs stdin (w # args) = until_missing fs (\<lambda>f. concat (filter (sublist (bytes w)) (file_lines f))) args" .
qed

theorem cat_grep_on_text_witness:
  "seucat (\<lambda>p. if p = ''x'' then None else Some [104, 105, 10]) [''a'', ''x'', ''a''] = (1, [104, 105, 10] @ bytes ''cannot open file'' @ [10])"
proof -
  let ?fs = "(\<lambda>p. if p = ''x'' then None else Some [104, 105, 10]) :: fsys"
  have "seucat ?fs [''a'', ''x'', ''a''] = until_missing ?fs id [''a'', ''x'', ''a'']"
    using cat_grep_on_text [of "[''a'', ''x'', ''a'']" ?fs] by (auto split: if_splits)
  then show ?thesis by (simp add: until_missing_def)
qed

end
