(* ===== verification/Lab_MapReduce.thy ===== *)
theory Lab_MapReduce
  imports C_Stdio "HOL-Library.Multiset" "HOL-Library.List_Lexorder"
begin

text \<open>
  The map-reduce library of Map_Reduce (arraylist.c, multimap.c, mapreduce.c) and its client
  wordcount.c.  The slots of a growing array are kept with the ones not written yet; writing
  outside the array, or through the null pointer that \<open>destroy_list\<close> leaves, is an error value.

  The mapper threads call \<open>MR_Emit\<close> under a semaphore, so a run of the map phase is an
  interleaving of the sequences of pairs that the threads emit.  \<open>qsort\<close> is a parameter.
\<close>

section \<open>arraylist.c\<close>

record 'a array_list =
  arr :: "'a option list option"
  al_length :: nat
  al_volume :: nat
  iter_pos :: nat

definition default_volume :: nat where "default_volume = 8"

definition init_list :: "'a array_list" where
  "init_list = \<lparr>arr = Some (replicate default_volume None), al_length = 0, al_volume = default_volume, iter_pos = 0\<rparr>"

text \<open>The doubling loop of \<open>__ensure_volume\<close>; from 0 it would never end.\<close>

function double_until :: "nat \<Rightarrow> nat \<Rightarrow> nat res" where
  "double_until target required =
     (if target \<ge> required then Inr target
      else if target = 0 then Inl (Block ''__ensure_volume'')
      else double_until (2 * target) required)"
  by pat_completeness auto
termination by (relation "measure (\<lambda>(t, r). r - t)") auto

declare double_until.simps [simp del]

definition ensure_volume :: "nat \<Rightarrow> 'a array_list \<Rightarrow> 'a array_list res" where
  "ensure_volume required l =
     (if al_volume l \<ge> required then Inr l
      else bindE (double_until (al_volume l) required) (\<lambda>target.
        case arr l of None \<Rightarrow> Inl (Undef ''null pointer'')
        | Some a \<Rightarrow> Inr (l\<lparr>arr := Some (take (al_volume l) a @ replicate (target - al_volume l) None), al_volume := target\<rparr>)))"

definition push_item :: "'a \<Rightarrow> 'a array_list \<Rightarrow> 'a array_list res" where
  "push_item x l =
     bindE (ensure_volume (al_length l + 1) l) (\<lambda>l.
     case arr l of None \<Rightarrow> Inl (Undef ''null pointer'')
     | Some a \<Rightarrow> if al_length l < length a
         then Inr (l\<lparr>arr := Some (a[al_length l := Some x]), al_length := al_length l + 1\<rparr>)
         else Inl (Undef ''outside the array''))"

definition destroy_list :: "'a array_list \<Rightarrow> 'a array_list" where
  "destroy_list l = l\<lparr>al_length := 0, arr := None, iter_pos := 0\<rparr>"

text \<open>The items of a list, and when it is well formed.\<close>

definition items :: "'a array_list \<Rightarrow> 'a list" where
  "items l = map the (take (al_length l) (the (arr l)))"

definition al_ok :: "'a array_list \<Rightarrow> bool" where
  "al_ok l \<longleftrightarrow> (\<exists>a. arr l = Some a \<and> length a = al_volume l) \<and> 0 < al_volume l \<and> al_length l \<le> al_volume l"

lemma double_until_ok: "0 < t \<Longrightarrow> \<exists>v. double_until t r = Inr v \<and> r \<le> v \<and> t \<le> v"
proof (induction t r rule: double_until.induct)
  case (1 t r)
  show ?case
  proof (cases "r \<le> t")
    case False
    then obtain v where "double_until (2 * t) r = Inr v" "r \<le> v" "2 * t \<le> v" using 1 by auto
    then show ?thesis using False 1(2) by (simp add: double_until.simps [of t r])
  qed (simp add: double_until.simps [of t r])
qed

lemma init_list_ok: "al_ok init_list" "items init_list = []"
  by (simp_all add: al_ok_def init_list_def items_def default_volume_def)

lemma push_item_ok:
  assumes "al_ok l"
  shows "\<exists>l'. push_item x l = Inr l' \<and> al_ok l' \<and> items l' = items l @ [x] \<and> iter_pos l' = iter_pos l"
proof -
  obtain a where a: "arr l = Some a" "length a = al_volume l" "0 < al_volume l" "al_length l \<le> al_volume l"
    using assms by (auto simp: al_ok_def)
  have fin: "al_ok (l\<lparr>arr := Some (b[al_length l := Some x]), al_length := al_length l + 1, al_volume := v\<rparr>) \<and>
      items (l\<lparr>arr := Some (b[al_length l := Some x]), al_length := al_length l + 1, al_volume := v\<rparr>) = items l @ [x]"
    if "take (al_volume l) b = a" "length b = v" "al_length l < v" "al_volume l \<le> v" for b v
  proof -
    have "take (al_length l) b = take (al_length l) a"
    proof -
      have "take (al_length l) a = take (al_length l) (take (al_volume l) b)" using that(1) by simp
      also have "\<dots> = take (al_length l) b" using a(4) by (simp add: min_absorb1)
      finally show ?thesis by simp
    qed
    then show ?thesis using that a by (simp add: al_ok_def items_def take_Suc_conv_app_nth)
  qed
  show ?thesis
  proof (cases "al_length l + 1 \<le> al_volume l")
    case True
    then show ?thesis using a fin [of a "al_volume l"] by (simp add: push_item_def ensure_volume_def)
  next
    case False
    obtain v where v: "double_until (al_volume l) (al_length l + 1) = Inr v" "al_length l + 1 \<le> v" "al_volume l \<le> v"
      using double_until_ok a(3) by blast
    let ?b = "a @ replicate (v - al_volume l) None"
    have "push_item x l = Inr (l\<lparr>arr := Some (?b[al_length l := Some x]), al_length := al_length l + 1, al_volume := v\<rparr>)"
      using a v False by (simp add: push_item_def ensure_volume_def)
    then show ?thesis using fin [of ?b v] v a by simp
  qed
qed

lemma double_until_bound: "double_until t r = Inr v \<Longrightarrow> t < r \<Longrightarrow> v < 2 * r"
proof (induction t r rule: double_until.induct)
  case (1 t r)
  then have "0 < t" "double_until (2 * t) r = Inr v" by (auto simp: double_until.simps [of t r] split: if_splits)
  with 1 show ?case by (cases "2 * t < r") (auto simp: double_until.simps [of "2 * t" r] split: if_splits)
qed

lemma push_item_volume:
  assumes "al_ok l" "push_item x l = Inr l'"
  shows "al_length l' = al_length l + 1" "al_volume l' \<le> max (al_volume l) (2 * (al_length l + 1))"
  using assms double_until_bound
  by (fastforce simp: push_item_def ensure_volume_def split: if_splits option.splits)+

text \<open>A sequence that can be appended to: the contract the hash table and the map phase rely on.\<close>

locale growable =
  fixes new_seq :: "'l" and push :: "'a \<Rightarrow> 'l \<Rightarrow> 'l res" and abs_seq :: "'l \<Rightarrow> 'a list" and inv_seq :: "'l \<Rightarrow> bool"
  assumes new_inv: "inv_seq new_seq" and new_abs: "abs_seq new_seq = []"
    and push_abs: "inv_seq l \<Longrightarrow> \<exists>l'. push x l = Inr l' \<and> inv_seq l' \<and> abs_seq l' = abs_seq l @ [x]"
begin

lemma push_all: "inv_seq l \<Longrightarrow> \<exists>l'. foldE push xs l = Inr l' \<and> inv_seq l' \<and> abs_seq l' = abs_seq l @ xs"
proof (induction xs arbitrary: l)
  case (Cons x xs)
  obtain l1 where l1: "push x l = Inr l1" "inv_seq l1" "abs_seq l1 = abs_seq l @ [x]" using push_abs [OF Cons.prems] by blast
  from Cons.IH [OF l1(2)] l1 show ?case by auto
qed simp

end

interpretation al: growable init_list push_item items al_ok
proof
  show "al_ok init_list" "items init_list = []" by (rule init_list_ok)+
  show "\<exists>l'. push_item x l = Inr l' \<and> al_ok l' \<and> items l' = items l @ [x]" if "al_ok l" for l x
    using push_item_ok [OF that, of x] by blast
qed

section \<open>multimap.c\<close>

type_synonym ulong = "64 word"
type_synonym pair = "uchar list \<times> uchar list"

record multi_map =
  lists :: "pair array_list list"
  table_size :: nat
  hash_func :: "uchar list \<Rightarrow> int \<Rightarrow> ulong res"

definition init_map :: "(uchar list \<Rightarrow> int \<Rightarrow> ulong res) \<Rightarrow> nat \<Rightarrow> multi_map" where
  "init_map h n = \<lparr>lists = map (\<lambda>_. init_list) [0..<n], table_size = n, hash_func = h\<rparr>"

definition put_item :: "pair \<Rightarrow> multi_map \<Rightarrow> multi_map res" where
  "put_item p m =
     bindE (hash_func m (fst p) (int (table_size m))) (\<lambda>h.
     if unat h < length (lists m)
     then bindE (push_item p (lists m ! unat h)) (\<lambda>l. Inr (m\<lparr>lists := (lists m)[unat h := l]\<rparr>))
     else Inl (Undef ''outside the table''))"

definition get_list :: "multi_map \<Rightarrow> uchar list \<Rightarrow> pair array_list res" where
  "get_list m key =
     bindE (hash_func m key (int (table_size m))) (\<lambda>h.
     if unat h < length (lists m) then Inr (lists m ! unat h) else Inl (Undef ''outside the table''))"

definition destroy_map :: "multi_map \<Rightarrow> multi_map" where
  "destroy_map m = m\<lparr>lists := [], table_size := 0, hash_func := (\<lambda>_ _. Inl (Undef ''null pointer''))\<rparr>"

section \<open>mapreduce.c\<close>

text \<open>\<open>char\<close> is signed, so a byte above 127 is sign-extended.\<close>

definition hash_step :: "uchar \<Rightarrow> ulong \<Rightarrow> ulong" where
  "hash_step c h = h * 33 + scast c"

definition MR_DefaultHashPartition :: "uchar list \<Rightarrow> int \<Rightarrow> ulong res" where
  "MR_DefaultHashPartition key n =
     (if n = 0 then Inl (Undef ''division by zero'') else Inr (fold hash_step key 5381 mod of_int n))"

definition MR_Emit :: "pair \<Rightarrow> multi_map \<Rightarrow> multi_map res" where
  "MR_Emit p m = put_item p m"

text \<open>The map phase.  \<open>stat_t\<close> keeps the path and the size; the comparison returns the difference
  of two 64-bit sizes as an \<open>int\<close>.\<close>

record file_stat =
  fpath :: string
  st_size :: nat

definition compare_file_size :: "file_stat \<Rightarrow> file_stat \<Rightarrow> int" where
  "compare_file_size a b = sint (of_int (int (st_size a) - int (st_size b)) :: 32 word)"

text \<open>One mapper takes files until it has its share.\<close>

fun fill_mapper :: "nat \<Rightarrow> nat \<Rightarrow> file_stat list \<Rightarrow> string array_list \<Rightarrow> (string array_list \<times> file_stat list) res" where
  "fill_mapper share accum [] l = Inr (l, [])"
| "fill_mapper share accum (f # fs) l =
     (if accum < share then bindE (push_item (fpath f) l) (fill_mapper share (accum + st_size f) fs)
      else Inr (l, f # fs))"

fun allocate :: "nat \<Rightarrow> nat \<Rightarrow> file_stat list \<Rightarrow> string array_list list res" where
  "allocate 0 share fs = Inr []"
| "allocate (Suc k) share fs =
     bindE (fill_mapper share 0 fs init_list) (\<lambda>(l, r). bindE (allocate k share r) (\<lambda>ls. Inr (l # ls)))"

text \<open>\<open>__exec_map\<close> up to the start of the threads: the files of each mapper, \<open>None\<close> when a file
  cannot be opened and the program exits.  \<open>qs\<close> is \<open>qsort\<close>.\<close>

definition exec_map :: "((file_stat \<Rightarrow> file_stat \<Rightarrow> int) \<Rightarrow> file_stat list \<Rightarrow> file_stat list) \<Rightarrow>
    fsys \<Rightarrow> nat \<Rightarrow> string list \<Rightarrow> string array_list list res option" where
  "exec_map qs fs num_mappers files =
     (if \<exists>p \<in> set files. fs p = None then None
      else let stats = map (\<lambda>p. \<lparr>fpath = p, st_size = length (the (fs p))\<rparr>) files;
             total_size = sum_list (map st_size stats)
           in Some (allocate num_mappers (total_size div num_mappers) (qs compare_file_size stats)))"

text \<open>\<open>__map_thread_runner\<close>: the pairs a thread emits, for a mapper given by what it emits for a file.\<close>

definition map_thread_runner :: "(string \<Rightarrow> pair list) \<Rightarrow> string array_list \<Rightarrow> pair list" where
  "map_thread_runner mapper l = concat (map mapper (items l))"

text \<open>The emissions of the threads under the semaphore.\<close>

inductive interleaving :: "'a list list \<Rightarrow> 'a list \<Rightarrow> bool" where
  idle: "\<forall>l \<in> set ls. l = [] \<Longrightarrow> interleaving ls []"
| emit: "i < length ls \<Longrightarrow> ls ! i = x # xs \<Longrightarrow> interleaving (ls[i := xs]) es \<Longrightarrow> interleaving ls (x # es)"

text \<open>The reduce phase of one partition, after \<open>qsort\<close>: \<open>iter_pos\<close> is the state of the getter.\<close>

definition compare_pair :: "pair \<Rightarrow> pair \<Rightarrow> int" where
  "compare_pair p q = strcmp (fst p) (fst q)"

definition get_next_value :: "pair list \<Rightarrow> uchar list \<Rightarrow> nat \<Rightarrow> uchar list option \<times> nat" where
  "get_next_value ps key pos =
     (if pos \<ge> length ps then (None, pos)
      else if strcmp (fst (ps ! pos)) key \<noteq> 0 then (None, pos)
      else (Some (snd (ps ! pos)), pos + 1))"

text \<open>A reducer is a function of its key and of the getter state, giving its result and the new state.\<close>

type_synonym 'r reducer = "pair list \<Rightarrow> uchar list \<Rightarrow> nat \<Rightarrow> ('r \<times> nat) res"

function reduce_loop :: "'r reducer \<Rightarrow> pair list \<Rightarrow> nat \<Rightarrow> nat \<Rightarrow> (uchar list \<times> 'r) list res" where
  "reduce_loop red ps i pos =
     (if i < length ps then
        (if i = 0 \<or> strcmp (fst (ps ! (i - 1))) (fst (ps ! i)) \<noteq> 0
         then bindE (red ps (fst (ps ! i)) pos) (\<lambda>(r, pos). bindE (reduce_loop red ps (i + 1) pos) (\<lambda>rs. Inr ((fst (ps ! i), r) # rs)))
         else reduce_loop red ps (i + 1) pos)
      else Inr [])"
  by pat_completeness auto
termination by (relation "measure (\<lambda>(red, ps, i, pos). length ps - i)") auto

declare reduce_loop.simps [simp del]

definition reduce_thread_runner :: "((pair \<Rightarrow> pair \<Rightarrow> int) \<Rightarrow> pair list \<Rightarrow> pair list) \<Rightarrow> 'r reducer \<Rightarrow> pair array_list \<Rightarrow> (uchar list \<times> 'r) list res" where
  "reduce_thread_runner qs red l = reduce_loop red (qs compare_pair (items l)) 0 (iter_pos l)"

fun exec_reduce :: "((pair \<Rightarrow> pair \<Rightarrow> int) \<Rightarrow> pair list \<Rightarrow> pair list) \<Rightarrow> 'r reducer \<Rightarrow> pair array_list list \<Rightarrow> (uchar list \<times> 'r) list list res" where
  "exec_reduce qs red [] = Inr []"
| "exec_reduce qs red (l # ls) =
     bindE (reduce_thread_runner qs red l) (\<lambda>r. bindE (exec_reduce qs red ls) (\<lambda>rs. Inr (r # rs)))"

text \<open>The table filled in the order in which the pairs are emitted, and the reduce phase on it.\<close>

definition MR_reduce :: "((pair \<Rightarrow> pair \<Rightarrow> int) \<Rightarrow> pair list \<Rightarrow> pair list) \<Rightarrow> pair list \<Rightarrow> 'r reducer \<Rightarrow> nat \<Rightarrow>
    (uchar list \<Rightarrow> int \<Rightarrow> ulong res) \<Rightarrow> (uchar list \<times> 'r) list list res" where
  "MR_reduce qs emitted red num_reducers part =
     bindE (foldE MR_Emit emitted (init_map part num_reducers)) (\<lambda>m. exec_reduce qs red (lists m))"

text \<open>\<open>MR_Run\<close>: the files are handed out, the threads emit in some order, and the reducers run.  \<open>None\<close>
  is the exit of the program when a file cannot be opened; \<open>qsf\<close> and \<open>qs\<close> are \<open>qsort\<close> on files and on
  pairs.  A mapper is given by what it emits for a file.\<close>

inductive MR_Run :: "((file_stat \<Rightarrow> file_stat \<Rightarrow> int) \<Rightarrow> file_stat list \<Rightarrow> file_stat list) \<Rightarrow>
    ((pair \<Rightarrow> pair \<Rightarrow> int) \<Rightarrow> pair list \<Rightarrow> pair list) \<Rightarrow> fsys \<Rightarrow> string list \<Rightarrow> (string \<Rightarrow> pair list) \<Rightarrow> nat \<Rightarrow>
    'r reducer \<Rightarrow> nat \<Rightarrow> (uchar list \<Rightarrow> int \<Rightarrow> ulong res) \<Rightarrow> (uchar list \<times> 'r) list list res option \<Rightarrow> bool"
  for qsf qs fs files mapper num_mappers red num_reducers part where
  no_file: "exec_map qsf fs num_mappers files = None \<Longrightarrow>
     MR_Run qsf qs fs files mapper num_mappers red num_reducers part None"
| fault: "exec_map qsf fs num_mappers files = Some (Inl e) \<Longrightarrow>
     MR_Run qsf qs fs files mapper num_mappers red num_reducers part (Some (Inl e))"
| run: "exec_map qsf fs num_mappers files = Some (Inr ls) \<Longrightarrow>
     interleaving (map (map_thread_runner mapper) ls) emitted \<Longrightarrow>
     MR_Run qsf qs fs files mapper num_mappers red num_reducers part (Some (MR_reduce qs emitted red num_reducers part))"

inductive_cases MR_RunE: "MR_Run qsf qs fs files mapper num_mappers red num_reducers part r"

section \<open>wordcount.c\<close>

definition wc_map :: "uchar list \<Rightarrow> pair list" where
  "wc_map f = map (\<lambda>t. (t, bytes ''1'')) (concat (map (\<lambda>l. strsep_all {32, 9, 10, 13} (cstr l)) (file_lines f)))"

text \<open>\<open>Reduce\<close> counts the values; \<open>count\<close> is an \<open>int\<close>.\<close>

function wc_count :: "pair list \<Rightarrow> uchar list \<Rightarrow> int \<Rightarrow> nat \<Rightarrow> (int \<times> nat) res" where
  "wc_count ps key n pos =
     (case get_next_value ps key pos of
        (None, pos) \<Rightarrow> Inr (n, pos)
      | (Some _, pos') \<Rightarrow> if n + 1 \<ge> 2 ^ 31 then Inl (Undef ''int overflow'') else wc_count ps key (n + 1) pos')"
  by pat_completeness auto
termination by (relation "measure (\<lambda>(ps, key, n, pos). length ps - pos)") (auto simp: get_next_value_def split: if_splits)

declare wc_count.simps [simp del]

definition wc_reduce :: "int reducer" where
  "wc_reduce ps key pos = wc_count ps key 0 pos"

section \<open>The hash table\<close>

lemma hash_bound:
  assumes "0 < n" "n < 2 ^ 31"
  shows "\<exists>h. MR_DefaultHashPartition key (int n) = Inr h \<and> unat h < n"
proof -
  have u: "unat (of_nat n :: ulong) = n" using assms(2) by (simp add: unat_of_nat)
  have "unat (fold hash_step key 5381 mod of_nat n :: ulong) = unat (fold hash_step key 5381) mod n"
    by (simp add: unat_mod u)
  then show ?thesis using assms(1) by (simp add: MR_DefaultHashPartition_def)
qed

text \<open>A partition function that stays inside the table.\<close>

definition partitions :: "(uchar list \<Rightarrow> int \<Rightarrow> ulong res) \<Rightarrow> nat \<Rightarrow> (uchar list \<Rightarrow> nat) \<Rightarrow> bool" where
  "partitions h n g \<longleftrightarrow> (\<forall>key. g key < n \<and> (\<exists>v. h key (int n) = Inr v \<and> unat v = g key))"

definition map_ok :: "(uchar list \<Rightarrow> int \<Rightarrow> ulong res) \<Rightarrow> nat \<Rightarrow> multi_map \<Rightarrow> bool" where
  "map_ok h n m \<longleftrightarrow> table_size m = n \<and> hash_func m = h \<and> length (lists m) = n \<and> (\<forall>l \<in> set (lists m). al_ok l \<and> iter_pos l = 0)"

lemma put_item_ok:
  assumes "map_ok h n m" "partitions h n g"
  shows "\<exists>m'. put_item p m = Inr m' \<and> map_ok h n m' \<and>
    map items (lists m') = (map items (lists m))[g (fst p) := items (lists m ! g (fst p)) @ [p]]"
proof -
  obtain v where v: "h (fst p) (int n) = Inr v" "unat v = g (fst p)" "g (fst p) < n"
    using assms(2) unfolding partitions_def by blast
  have l: "al_ok (lists m ! g (fst p))" "iter_pos (lists m ! g (fst p)) = 0" using assms(1) v(3) by (simp_all add: map_ok_def)
  obtain l' where l': "push_item p (lists m ! g (fst p)) = Inr l'" "al_ok l'" "items l' = items (lists m ! g (fst p)) @ [p]" "iter_pos l' = 0"
    using push_item_ok [OF l(1), of p] l(2) by auto
  have "put_item p m = Inr (m\<lparr>lists := (lists m)[g (fst p) := l']\<rparr>)" using assms(1) v l'(1) by (simp add: put_item_def map_ok_def)
  moreover have "map_ok h n (m\<lparr>lists := (lists m)[g (fst p) := l']\<rparr>)"
    using assms(1) l' set_update_subset_insert [of "lists m" "g (fst p)" l'] by (auto simp: map_ok_def)
  ultimately show ?thesis using l'(3) by (simp add: map_update)
qed

lemma emit_all_ok:
  assumes "map_ok h n m" "partitions h n g"
  shows "\<exists>m'. foldE MR_Emit es m = Inr m' \<and> map_ok h n m' \<and>
    (\<forall>i < n. items (lists m' ! i) = items (lists m ! i) @ filter (\<lambda>p. g (fst p) = i) es)"
  using assms(1)
proof (induction es arbitrary: m)
  case (Cons p es)
  obtain m1 where m1: "put_item p m = Inr m1" "map_ok h n m1"
    "map items (lists m1) = (map items (lists m))[g (fst p) := items (lists m ! g (fst p)) @ [p]]"
    using put_item_ok [OF Cons.prems assms(2)] by blast
  have len: "length (lists m) = n" "length (lists m1) = n" using Cons.prems m1(2) by (simp_all add: map_ok_def)
  have at: "items (lists m1 ! i) = (if i = g (fst p) then items (lists m ! i) @ [p] else items (lists m ! i))" if "i < n" for i
    using arg_cong [OF m1(3), of "\<lambda>xs. xs ! i"] that len by (simp add: nth_list_update)
  obtain m' where "foldE MR_Emit es m1 = Inr m'" "map_ok h n m'"
    "\<forall>i < n. items (lists m' ! i) = items (lists m1 ! i) @ filter (\<lambda>p. g (fst p) = i) es"
    using Cons.IH [OF m1(2)] by blast
  moreover have "MR_Emit p m = Inr m1" using m1(1) by (simp add: MR_Emit_def)
  ultimately show ?case using at by (intro exI [of _ m']) auto
qed simp

lemma init_map_ok: "map_ok h n (init_map h n)" "i < n \<Longrightarrow> items (lists (init_map h n) ! i) = []"
  using init_list_ok by (auto simp: map_ok_def init_map_def) (auto simp: init_list_def)

section \<open>The reduce phase\<close>

lemma takeWhile_drop_nth: "i < length xs \<Longrightarrow> P (xs ! i) \<Longrightarrow> takeWhile P (drop i xs) = xs ! i # takeWhile P (drop (Suc i) xs)"
  by (simp add: Cons_nth_drop_Suc [symmetric])

lemma wc_count_run:
  assumes "\<And>k v. (k, v) \<in> set ps \<Longrightarrow> 0 \<notin> set k" "0 \<notin> set key" "0 \<le> c" "c + int (length ps) - int pos < 2 ^ 31" "pos \<le> length ps"
  shows "wc_count ps key c pos = (let n = length (takeWhile (\<lambda>k. k = key) (drop pos (map fst ps))) in Inr (c + int n, pos + n))"
  using assms
proof (induction ps key c pos rule: wc_count.induct)
  case (1 ps key c pos)
  show ?case
  proof (cases "pos < length ps \<and> fst (ps ! pos) = key")
    case True
    then have g: "get_next_value ps key pos = (Some (snd (ps ! pos)), pos + 1)"
      using strcmp_eq_0 [of key key] 1(3) by (auto simp: get_next_value_def 1(4))
    have "wc_count ps key (c + 1) (pos + 1) = (let n = length (takeWhile (\<lambda>k. k = key) (drop (pos + 1) (map fst ps))) in Inr (c + 1 + int n, pos + 1 + n))"
      by (rule 1(1) [OF g [symmetric] refl]) (use 1(2-) True in auto)
    then show ?thesis using True g 1(5)
      by (simp add: wc_count.simps [of ps key c pos] takeWhile_drop_nth [of pos "map fst ps"] Let_def)
  next
    case False
    have "strcmp (fst (ps ! pos)) key \<noteq> 0" if "pos < length ps"
      using that False strcmp_eq_0 [of "fst (ps ! pos)" key] 1(2) [of "fst (ps ! pos)" "snd (ps ! pos)"] 1(3) by (auto simp: nth_mem)
    then have "get_next_value ps key pos = (None, pos)" by (simp add: get_next_value_def)
    moreover have "takeWhile (\<lambda>k. k = key) (drop pos (map fst ps)) = []"
      using False by (cases "pos < length ps") (auto simp: Cons_nth_drop_Suc [symmetric] takeWhile_eq_Nil_iff)
    ultimately show ?thesis by (simp add: wc_count.simps [of ps key c pos])
  qed
qed

text \<open>Runs seen from the front.\<close>

lemma rle_front: "rle (x # xs) = (Suc (length (takeWhile (\<lambda>y. y = x) xs)), x) # rle (dropWhile (\<lambda>y. y = x) xs)"
proof (induction xs arbitrary: x)
  case (Cons y ys)
  show ?case
  proof (cases "y = x")
    case True
    then show ?thesis using Cons.IH [of x] by simp
  next
    case False
    then show ?thesis using Cons.IH [of y] by simp
  qed
qed simp

lemma dropWhile_drop: "dropWhile P (drop i xs) = drop (i + length (takeWhile P (drop i xs))) xs"
  by (metis add.commute drop_drop dropWhile_eq_drop)

text \<open>Between two keys the loop only skips.\<close>

lemma reduce_loop_skip:
  assumes "\<And>k v. (k, v) \<in> set ps \<Longrightarrow> 0 \<notin> set k"
  shows "0 < i \<Longrightarrow> i \<le> e \<Longrightarrow> e \<le> length ps \<Longrightarrow> (\<And>j. i \<le> j \<Longrightarrow> j < e \<Longrightarrow> fst (ps ! j) = fst (ps ! (i - 1))) \<Longrightarrow>
    reduce_loop red ps i pos = reduce_loop red ps e pos"
proof (induction "e - i" arbitrary: i)
  case (Suc n)
  then have i: "i < e" "i < length ps" by auto
  have k: "fst (ps ! i) = fst (ps ! (i - 1))" using Suc.prems(4) [of i] i(1) by simp
  have "0 \<notin> set (fst (ps ! i))" using assms [of "fst (ps ! i)" "snd (ps ! i)"] i(2) by simp
  then have "strcmp (fst (ps ! (i - 1))) (fst (ps ! i)) = 0" using strcmp_eq_0 k by metis
  then have "reduce_loop red ps i pos = reduce_loop red ps (i + 1) pos" using i(2) Suc.prems(1) by (simp add: reduce_loop.simps [of red ps i pos])
  also have "\<dots> = reduce_loop red ps e pos" by (rule Suc.hyps(1)) (use Suc.hyps(2) Suc.prems i k in \<open>auto simp: Suc.prems(4)\<close>)
  finally show ?case .
qed simp

lemma reduce_loop_runs:
  assumes "\<And>k v. (k, v) \<in> set ps \<Longrightarrow> 0 \<notin> set k" "length ps < 2 ^ 31"
  shows "i \<le> length ps \<Longrightarrow> (i = 0 \<or> i = length ps \<or> fst (ps ! (i - 1)) \<noteq> fst (ps ! i)) \<Longrightarrow>
    reduce_loop wc_reduce ps i i = Inr (map (\<lambda>(n, k). (k, int n)) (rle (drop i (map fst ps))))"
proof (induction "length ps - i" arbitrary: i rule: less_induct)
  case less
  show ?case
  proof (cases "i = length ps")
    case True
    then show ?thesis by (simp add: reduce_loop.simps)
  next
    case False
    then have i: "i < length ps" using less.prems(1) by simp
    let ?k = "fst (ps ! i)" and ?ks = "map fst ps"
    have nz: "0 \<notin> set (fst (ps ! j))" if "j < length ps" for j using assms(1) [of "fst (ps ! j)" "snd (ps ! j)"] that by simp
    define n where "n = length (takeWhile (\<lambda>k. k = ?k) (drop i ?ks))"
    have d: "drop i ?ks = ?k # drop (Suc i) ?ks" using i by (simp add: Cons_nth_drop_Suc [symmetric])
    have n0: "0 < n" using d by (simp add: n_def)
    have n1: "i + n \<le> length ps" using length_takeWhile_le [of "\<lambda>k. k = ?k" "drop i ?ks"] i by (simp add: n_def)
    have run: "fst (ps ! j) = ?k" if "i \<le> j" "j < i + n" for j
    proof -
      have "takeWhile (\<lambda>k. k = ?k) (drop i ?ks) ! (j - i) = drop i ?ks ! (j - i)" using that by (intro takeWhile_nth) (simp add: n_def)
      moreover have "takeWhile (\<lambda>k. k = ?k) (drop i ?ks) ! (j - i) \<in> set (takeWhile (\<lambda>k. k = ?k) (drop i ?ks))"
        using that by (intro nth_mem) (simp add: n_def)
      ultimately show ?thesis using that n1 by (auto dest: set_takeWhileD)
    qed
    have stop: "fst (ps ! (i + n)) \<noteq> ?k" if "i + n < length ps"
      using nth_length_takeWhile [of "\<lambda>k. k = ?k" "drop i ?ks"] that by (simp add: n_def)
    have red: "wc_reduce ps ?k i = Inr (int n, i + n)"
      using wc_count_run [of ps ?k 0 i] assms i nz by (simp add: wc_reduce_def n_def Let_def)
    have start: "i = 0 \<or> strcmp (fst (ps ! (i - 1))) ?k \<noteq> 0"
      using less.prems(2) i strcmp_eq_0 [OF nz [of "i - 1"] nz [OF i]] by auto
    have "reduce_loop wc_reduce ps (i + 1) (i + n) = reduce_loop wc_reduce ps (i + n) (i + n)"
    proof (rule reduce_loop_skip [OF assms(1)])
      show "fst (ps ! j) = fst (ps ! (i + 1 - 1))" if "i + 1 \<le> j" "j < i + n" for j using run [of j] that by simp
    qed (use n0 n1 in simp_all)
    also have "\<dots> = Inr (map (\<lambda>(n, k). (k, int n)) (rle (drop (i + n) ?ks)))"
      by (rule less.hyps) (use n0 n1 i stop run [of "i + n - 1"] in auto)
    finally have rest: "reduce_loop wc_reduce ps (i + 1) (i + n) = Inr (map (\<lambda>(n, k). (k, int n)) (rle (drop (i + n) ?ks)))" .
    have "rle (drop i ?ks) = (n, ?k) # rle (drop (i + n) ?ks)"
      using rle_front [of ?k "drop (Suc i) ?ks"] dropWhile_drop [of "\<lambda>k. k = ?k" i ?ks] d by (simp add: n_def)
    then show ?thesis using i start red rest by (auto simp: reduce_loop.simps [of wc_reduce ps i i])
  qed
qed

text \<open>In a sorted list every key has one run.\<close>

lemma strcmp_sym: "strcmp b a = - strcmp a b"
  by (induction a b rule: strcmp.induct) auto

lemma rle_sorted:
  assumes "sorted_wrt R xs" "\<And>a b. a \<in> set xs \<Longrightarrow> b \<in> set xs \<Longrightarrow> R a b \<Longrightarrow> R b a \<Longrightarrow> a = b"
  shows "distinct (map snd (rle xs)) \<and> (\<forall>(n, k) \<in> set (rle xs). n = count_list xs k)"
  using assms
proof (induction "length xs" arbitrary: xs rule: less_induct)
  case less
  show ?case
  proof (cases xs)
    case (Cons x ys)
    let ?t = "takeWhile (\<lambda>y. y = x) ys" and ?z = "dropWhile (\<lambda>y. y = x) ys"
    have ys: "ys = ?t @ ?z" by simp
    have len: "length ?z < length xs" using Cons length_dropWhile_le [of "\<lambda>y. y = x" ys] by simp
    have sub: "set ?z \<subseteq> set ys" using set_dropWhileD by fast
    have sz: "sorted_wrt R ?z"
    proof -
      have "sorted_wrt R (?t @ ?z)" using less.prems(1) Cons by simp
      then show ?thesis by (simp only: sorted_wrt_append)
    qed
    have "a = b" if "a \<in> set ?z" "b \<in> set ?z" "R a b" "R b a" for a b
      by (rule less.prems(2)) (use that sub Cons in auto)
    then have IH: "distinct (map snd (rle ?z))" "\<forall>(n, k) \<in> set (rle ?z). n = count_list ?z k"
      using less.hyps [OF len sz] by blast+
    have nx: "x \<notin> set ?z"
    proof
      assume x: "x \<in> set ?z"
      then obtain z zs where z: "?z = z # zs" by (cases ?z) auto
      then have "z \<noteq> x" using hd_dropWhile [of "\<lambda>y. y = x" ys] by auto
      moreover have "z \<in> set ys" using z sub by auto
      moreover have "R x z" using less.prems(1) Cons \<open>z \<in> set ys\<close> by simp
      moreover have "R z x" using sz z x \<open>z \<noteq> x\<close> by auto
      ultimately show False using less.prems(2) [of x z] Cons by auto
    qed
    have kz: "k \<in> set ?z" if "(n, k) \<in> set (rle ?z)" for n k using that rle_set [of ?z] by force
    have ct: "count_list xs k = (if k = x then Suc (length ?t) else count_list ?z k)" for k
    proof -
      have "count_list ?t k = (if k = x then length ?t else 0)" by (induction ys) auto
      moreover have "count_list ys k = count_list (?t @ ?z) k" by (simp only: takeWhile_dropWhile_id)
      ultimately have "count_list ys k = (if k = x then length ?t else 0) + count_list ?z k" by (simp only: count_list_append)
      then show ?thesis using Cons nx by auto
    qed
    have "x \<notin> snd ` set (rle ?z)" using kz nx by force
    then show ?thesis using IH ct kz nx unfolding Cons rle_front by auto
  qed simp
qed

text \<open>The contract of \<open>qsort\<close> for the comparison of pairs.\<close>

definition qsort_ok :: "((pair \<Rightarrow> pair \<Rightarrow> int) \<Rightarrow> pair list \<Rightarrow> pair list) \<Rightarrow> bool" where
  "qsort_ok qs \<longleftrightarrow> (\<forall>ps. (\<forall>p \<in> set ps. 0 \<notin> set (fst p)) \<longrightarrow>
     mset (qs compare_pair ps) = mset ps \<and> sorted_wrt (\<lambda>p q. compare_pair p q \<le> 0) (qs compare_pair ps))"

lemma reduce_thread_ok:
  assumes "qsort_ok qs" "\<And>p. p \<in> set (items l) \<Longrightarrow> 0 \<notin> set (fst p)" "length (items l) < 2 ^ 31" "iter_pos l = 0"
  shows "\<exists>r. reduce_thread_runner qs wc_reduce l = Inr r \<and> distinct (map fst r) \<and>
    (\<forall>k c. (k, c) \<in> set r \<longleftrightarrow> c = int (count_list (map fst (items l)) k) \<and> 0 < c)"
proof -
  let ?ps = "qs compare_pair (items l)"
  have q: "mset ?ps = mset (items l)" "sorted_wrt (\<lambda>p q. compare_pair p q \<le> 0) ?ps"
    using assms(1,2) unfolding qsort_ok_def by blast+
  have st: "set ?ps = set (items l)" "length ?ps = length (items l)" using q(1) by (metis set_mset_mset, metis size_mset)
  have nz: "0 \<notin> set k" if "(k, v) \<in> set ?ps" for k v using assms(2) [of "(k, v)"] that st(1) by simp
  let ?r = "map (\<lambda>(n, k). (k, int n)) (rle (map fst ?ps))"
  have run: "reduce_thread_runner qs wc_reduce l = Inr ?r"
    using reduce_loop_runs [OF nz, where i = 0] assms(3,4) st(2) by (simp add: reduce_thread_runner_def)
  have "sorted_wrt (\<lambda>a b. strcmp a b \<le> 0) (map fst ?ps)" using q(2) by (simp add: sorted_wrt_map compare_pair_def)
  moreover have "a = b" if "a \<in> set (map fst ?ps)" "b \<in> set (map fst ?ps)" "strcmp a b \<le> 0" "strcmp b a \<le> 0" for a b
    using that nz strcmp_sym [of a b] strcmp_eq_0 [of a b] by auto
  ultimately have rl: "distinct (map snd (rle (map fst ?ps)))" "\<forall>(n, k) \<in> set (rle (map fst ?ps)). n = count_list (map fst ?ps) k"
    using rle_sorted [of "\<lambda>a b. strcmp a b \<le> 0" "map fst ?ps"] by auto
  have ce: "count_list (map fst ?ps) k = count_list (map fst (items l)) k" for k
    using q(1) by (metis count_mset mset_map)
  have "distinct (map fst ?r)" using rl(1) by (simp add: case_prod_beta o_def)
  moreover have "(k, c) \<in> set ?r \<longleftrightarrow> c = int (count_list (map fst (items l)) k) \<and> 0 < c" for k c
  proof
    assume "(k, c) \<in> set ?r"
    then obtain n where n: "(n, k) \<in> set (rle (map fst ?ps))" "c = int n" by auto
    then show "c = int (count_list (map fst (items l)) k) \<and> 0 < c" using rl(2) rle_bound [OF n(1)] ce by auto
  next
    assume c: "c = int (count_list (map fst (items l)) k) \<and> 0 < c"
    then have "k \<in> set (map fst ?ps)" using ce count_notin by fastforce
    then obtain n where "(n, k) \<in> set (rle (map fst ?ps))" using rle_set [of "map fst ?ps"] by force
    then show "(k, c) \<in> set ?r" using rl(2) c ce by force
  qed
  ultimately show ?thesis using run by blast
qed

section \<open>Whole runs\<close>

lemma exec_reduce_ok:
  assumes "\<And>l. l \<in> set ls \<Longrightarrow> \<exists>r. reduce_thread_runner qs red l = Inr r \<and> P l r"
  shows "\<exists>rs. exec_reduce qs red ls = Inr rs \<and> list_all2 P ls rs"
  using assms
proof (induction ls)
  case (Cons l ls)
  obtain r where r: "reduce_thread_runner qs red l = Inr r" "P l r" using Cons.prems [of l] by auto
  obtain rs where "exec_reduce qs red ls = Inr rs" "list_all2 P ls rs" using Cons.IH Cons.prems by auto
  then show ?case using r by (intro exI [of _ "r # rs"]) simp
qed simp

lemma interleaving_mset: "interleaving ls es \<Longrightarrow> mset es = mset (concat ls)"
proof (induction rule: interleaving.induct)
  case (emit i ls x xs es)
  have "ls = take i ls @ (x # xs) # drop (Suc i) ls" using emit(1,2) id_take_nth_drop by metis
  then have "mset (concat ls) = mset (concat (take i ls)) + mset (x # xs) + mset (concat (drop (Suc i) ls))"
    by (metis concat.simps(2) concat_append mset_append union_assoc)
  moreover have "mset (concat (ls[i := xs])) = mset (concat (take i ls)) + mset xs + mset (concat (drop (Suc i) ls))"
    using emit(1) by (simp add: upd_conv_take_nth_drop)
  ultimately show ?case using emit(4) by simp
qed (simp add: concat_eq_Nil_conv)

lemma distinct_concat_idx:
  assumes "\<And>i. i < length xss \<Longrightarrow> distinct (xss ! i)" "\<And>i k. i < length xss \<Longrightarrow> k \<in> set (xss ! i) \<Longrightarrow> g k = i + off"
  shows "distinct (concat xss)"
  using assms
proof (induction xss arbitrary: off)
  case (Cons xs xss)
  have "distinct (concat xss)" by (rule Cons.IH [where off = "Suc off"]) (use Cons.prems [of "Suc _"] in auto)
  moreover have "g k \<noteq> off" if k: "k \<in> set (concat xss)" for k
  proof -
    obtain i where "i < length xss" "k \<in> set (xss ! i)" using k by (metis UN_E in_set_conv_nth set_concat)
    then show ?thesis using Cons.prems(2) [of "Suc i" k] by simp
  qed
  moreover have "distinct xs" "\<And>k. k \<in> set xs \<Longrightarrow> g k = off" using Cons.prems(1) [of 0] Cons.prems(2) [of 0] by auto
  ultimately show ?case by auto
qed simp

lemma MR_reduce_counts:
  assumes "partitions h n g" "qsort_ok qs" "\<And>p. p \<in> set es \<Longrightarrow> 0 \<notin> set (fst p)" "length es < 2 ^ 31"
  shows "\<exists>outs. MR_reduce qs es wc_reduce n h = Inr outs \<and> distinct (map fst (concat outs)) \<and>
    (\<forall>k c. (k, c) \<in> set (concat outs) \<longleftrightarrow> c = int (count_list (map fst es) k) \<and> 0 < c)"
proof -
  obtain m where m: "foldE MR_Emit es (init_map h n) = Inr m" "map_ok h n m" "\<forall>i < n. items (lists m ! i) = filter (\<lambda>p. g (fst p) = i) es"
    using emit_all_ok [OF init_map_ok(1) assms(1), of es] init_map_ok(2) by auto
  have len: "length (lists m) = n" using m(2) by (simp add: map_ok_def)
  let ?P = "\<lambda>l r. distinct (map fst r) \<and> (\<forall>k c. (k, c) \<in> set r \<longleftrightarrow> c = int (count_list (map fst (items l)) k) \<and> 0 < c)"
  have "\<exists>r. reduce_thread_runner qs wc_reduce l = Inr r \<and> ?P l r" if l: "l \<in> set (lists m)" for l
  proof (rule reduce_thread_ok [OF assms(2)])
    obtain i where "i < n" "l = lists m ! i" using l len by (auto simp: in_set_conv_nth)
    then have it: "items l = filter (\<lambda>p. g (fst p) = i) es" using m(3) by simp
    show "0 \<notin> set (fst p)" if "p \<in> set (items l)" for p using that it assms(3) by auto
    show "length (items l) < 2 ^ 31" unfolding it by (rule le_less_trans [OF length_filter_le assms(4)])
    show "iter_pos l = 0" using l m(2) by (simp add: map_ok_def)
  qed
  then obtain outs where outs: "exec_reduce qs wc_reduce (lists m) = Inr outs" "list_all2 ?P (lists m) outs"
    using exec_reduce_ok [of "lists m" qs wc_reduce ?P] by blast
  have lo: "length outs = n" using list_all2_lengthD [OF outs(2)] len by simp
  have cnt: "count_list (map fst (filter (\<lambda>p. g (fst p) = i) es)) k = (if g k = i then count_list (map fst es) k else 0)" for i k
    by (induction es) auto
  have P: "distinct (map fst (outs ! i))" "(k, c) \<in> set (outs ! i) \<longleftrightarrow> g k = i \<and> c = int (count_list (map fst es) k) \<and> 0 < c"
    if "i < n" for i k c
    using list_all2_nthD [OF outs(2), of i] that len m(3) cnt [of i k] by auto
  have gk: "g k < n" for k using assms(1) by (simp add: partitions_def)
  have keys: "g k = i" if "i < n" "k \<in> fst ` set (outs ! i)" for i k using that P(2) [of i] by auto
  have "distinct (concat (map (map fst) outs))"
    by (rule distinct_concat_idx [where off = 0 and g = g]) (use P(1) keys lo in auto)
  then have "distinct (map fst (concat outs))" by (simp add: map_concat)
  moreover have "(k, c) \<in> set (concat outs) \<longleftrightarrow> c = int (count_list (map fst es) k) \<and> 0 < c" for k c
  proof -
    have "(k, c) \<in> set (concat outs) \<longleftrightarrow> (\<exists>i < n. (k, c) \<in> set (outs ! i))"
      using lo by (metis (no_types, lifting) UN_iff in_set_conv_nth set_concat)
    then show ?thesis using P(2) gk by blast
  qed
  ultimately show ?thesis using m(1) outs(1) by (simp add: MR_reduce_def)
qed

text \<open>The words of a file: of every line, the stretches between blanks, empty ones included.\<close>

definition words :: "uchar list \<Rightarrow> uchar list list" where
  "words f = concat (map (\<lambda>l. strsep_all {32, 9, 10, 13} (cstr l)) (file_lines f))"

lemma wc_map_words: "map fst (wc_map f) = words f"
  by (simp add: wc_map_def words_def o_def)

lemma wc_map_string: "p \<in> set (wc_map f) \<Longrightarrow> 0 \<notin> set (fst p)"
proof -
  assume "p \<in> set (wc_map f)"
  then obtain l t where t: "t \<in> set (strsep_all {32, 9, 10, 13} (cstr l))" "fst p = t" by (auto simp: wc_map_def)
  have "0 \<notin> set (cstr l)" by (auto simp: cstr_def dest: set_takeWhileD)
  then show ?thesis using strsep_all_subset [OF t(1)] t(2) by blast
qed

text \<open>The reduce phase after the emissions of mappers that were given the file contents \<open>assigned\<close>.\<close>

lemma reduce_counts:
  assumes "qsort_ok qs" "0 < n" "n < 2 ^ 31" "interleaving (map (\<lambda>fs. concat (map wc_map fs)) assigned) es" "length es < 2 ^ 31"
  shows "\<exists>outs. MR_reduce qs es wc_reduce n MR_DefaultHashPartition = Inr outs \<and> distinct (map fst (concat outs)) \<and>
    (\<forall>k c. (k, c) \<in> set (concat outs) \<longleftrightarrow> c = int (count_list (concat (map words (concat assigned))) k) \<and> 0 < c)"
proof -
  have "concat (map (\<lambda>fs. concat (map wc_map fs)) assigned) = concat (map wc_map (concat assigned))" by (induction assigned) auto
  then have m: "mset es = mset (concat (map wc_map (concat assigned)))" using interleaving_mset [OF assms(4)] by simp
  define g where "g key = unat (case MR_DefaultHashPartition key (int n) of Inr h \<Rightarrow> h | Inl _ \<Rightarrow> 0)" for key
  have p: "partitions MR_DefaultHashPartition n g"
    unfolding partitions_def g_def using hash_bound [OF assms(2,3)] by (metis sum.case(2))
  have "0 \<notin> set (fst q)" if "q \<in> set es" for q
  proof -
    have "q \<in> set (concat (map wc_map (concat assigned)))" using that m by (metis set_mset_mset)
    then obtain f where "q \<in> set (wc_map f)" by auto
    then show ?thesis by (rule wc_map_string)
  qed
  from MR_reduce_counts [OF p assms(1) this assms(5)] obtain outs where
    o: "MR_reduce qs es wc_reduce n MR_DefaultHashPartition = Inr outs" "distinct (map fst (concat outs))"
      "\<forall>k c. (k, c) \<in> set (concat outs) \<longleftrightarrow> c = int (count_list (map fst es) k) \<and> 0 < c" by blast
  have "map fst (concat (map wc_map fs)) = concat (map words fs)" for fs by (induction fs) (auto simp: wc_map_words)
  then have "mset (map fst es) = mset (concat (map words (concat assigned)))" using m mset_map by metis
  then have "count_list (map fst es) k = count_list (concat (map words (concat assigned))) k" for k by (metis count_mset)
  with o show ?thesis by auto
qed

lemma interleaving_exists: "\<exists>es. interleaving ls es"
proof (induction "sum_list (map length ls)" arbitrary: ls)
  case 0
  then show ?case by (auto intro!: exI [of _ "[]"] interleaving.idle)
next
  case (Suc k)
  have "\<exists>l \<in> set ls. l \<noteq> []"
  proof (rule ccontr)
    assume "\<not> (\<exists>l \<in> set ls. l \<noteq> [])"
    then have "sum_list (map length ls) = 0" by simp
    with Suc(2) show False by linarith
  qed
  then obtain i x xs where i: "i < length ls" "ls ! i = x # xs" by (metis in_set_conv_nth neq_Nil_conv)
  have "sum_list (map length ls) = Suc (sum_list (map length (ls[i := xs])))"
    using i by (simp add: map_update sum_list_update flip: Suc(2))
  with Suc(2) obtain es where "interleaving (ls[i := xs]) es" using Suc(1) [of "ls[i := xs]"] by auto
  with i show ?case by (blast intro: interleaving.emit)
qed

text \<open>C13: Word counting is correct.  When the files can be opened, a run of \<open>MR_Run\<close> with the map and
  reduce functions of the program exists, and every run, whatever the interleaving of the mapper
  threads, returns if \<open>qsort\<close> sorts and the files given to the mappers have fewer than \<open>2 ^ 31\<close>
  words: the reducers together report every word of these files exactly once, with its
  number of occurrences.\<close>

theorem wordcount_correct:
  assumes "qsort_ok qs" "0 < n" "n < 2 ^ 31" "exec_map qsf fs num_mappers files = Some (Inr ls)"
    "length (concat (map (\<lambda>p. words (the (fs p))) (concat (map items ls)))) < 2 ^ 31"
  shows "(\<exists>r. MR_Run qsf qs fs files (\<lambda>p. wc_map (the (fs p))) num_mappers wc_reduce n MR_DefaultHashPartition r) \<and>
    (\<forall>r. MR_Run qsf qs fs files (\<lambda>p. wc_map (the (fs p))) num_mappers wc_reduce n MR_DefaultHashPartition r \<longrightarrow>
      (\<exists>outs. r = Some (Inr outs) \<and> distinct (map fst (concat outs)) \<and>
        (\<forall>k c. (k, c) \<in> set (concat outs) \<longleftrightarrow>
          c = int (count_list (concat (map (\<lambda>p. words (the (fs p))) (concat (map items ls)))) k) \<and> 0 < c)))"
proof -
  let ?m = "map_thread_runner (\<lambda>p. wc_map (the (fs p)))"
  let ?as = "map (\<lambda>l. map (\<lambda>p. the (fs p)) (items l)) ls"
  have m: "map ?m ls = map (\<lambda>fs. concat (map wc_map fs)) ?as"
    by (simp add: map_thread_runner_def o_def)
  have w: "concat (map words (concat ?as)) = concat (map (\<lambda>p. words (the (fs p))) (concat (map items ls)))"
    by (induction ls) (simp_all add: o_def)
  have len: "length es < 2 ^ 31" if "interleaving (map ?m ls) es" for es
  proof -
    have "length es = length (concat (map ?m ls))" using interleaving_mset [OF that] by (metis size_mset)
    also have "\<dots> = length (map fst (concat (map ?m ls)))" by simp
    also have "map fst (concat (map ?m ls)) = concat (map (\<lambda>p. words (the (fs p))) (concat (map items ls)))"
      by (induction ls) (simp_all add: map_thread_runner_def map_concat o_def wc_map_words)
    finally show ?thesis using assms(5) by simp
  qed
  have "\<exists>outs. r = Some (Inr outs) \<and> distinct (map fst (concat outs)) \<and>
        (\<forall>k c. (k, c) \<in> set (concat outs) \<longleftrightarrow>
          c = int (count_list (concat (map (\<lambda>p. words (the (fs p))) (concat (map items ls)))) k) \<and> 0 < c)"
    if R: "MR_Run qsf qs fs files (\<lambda>p. wc_map (the (fs p))) num_mappers wc_reduce n MR_DefaultHashPartition r" for r
  proof -
    obtain es where es: "interleaving (map ?m ls) es" "r = Some (MR_reduce qs es wc_reduce n MR_DefaultHashPartition)"
      using R assms(4) by (auto elim: MR_RunE)
    from reduce_counts [OF assms(1-3) es(1) [unfolded m] len [OF es(1)]] show ?thesis unfolding es(2) w by blast
  qed
  moreover obtain es where "interleaving (map ?m ls) es" using interleaving_exists by blast
  from MR_Run.run [OF assms(4) this] have
    "\<exists>r. MR_Run qsf qs fs files (\<lambda>p. wc_map (the (fs p))) num_mappers wc_reduce n MR_DefaultHashPartition r" by blast
  ultimately show ?thesis by blast
qed

lemma strcmp_le: "0 \<notin> set a \<Longrightarrow> 0 \<notin> set b \<Longrightarrow> strcmp a b \<le> 0 \<longleftrightarrow> a \<le> b"
proof (induction a b rule: strcmp.induct)
  case (4 c a d b)
  have "uint c - uint d \<le> 0 \<longleftrightarrow> c \<le> d" by (simp add: word_le_def)
  with 4 show ?case by (auto simp: less_le)
qed (auto simp: word_neq_0_conv word_less_def)

lemma sort_key_qsort: "qsort_ok (\<lambda>_ ps. sort_key fst ps)"
proof -
  have "sorted_wrt (\<lambda>p q. compare_pair p q \<le> 0) (sort_key fst ps)" if "\<forall>p \<in> set ps. 0 \<notin> set (fst p)" for ps
  proof -
    have "sorted_wrt (\<lambda>p q. fst p \<le> fst q) (sort_key fst ps)"
      using sorted_sort_key [of fst ps] by (simp add: sorted_map)
    then show ?thesis by (rule sorted_wrt_mono_rel [rotated]) (use that in \<open>auto simp: compare_pair_def strcmp_le\<close>)
  qed
  then show ?thesis by (simp add: qsort_ok_def)
qed

theorem wordcount_correct_witness:
  "\<exists>outs. MR_Run (\<lambda>_. sort_key st_size) (\<lambda>_ ps. sort_key fst ps) [''f'' \<mapsto> [97, 32, 98], ''g'' \<mapsto> [98]] [''f'', ''g'']
       (\<lambda>p. wc_map (the ([''f'' \<mapsto> [97, 32, 98], ''g'' \<mapsto> [98]] p))) 2 wc_reduce 10 MR_DefaultHashPartition (Some (Inr outs)) \<and>
     ([98], 2) \<in> set (concat outs) \<and> ([97], 1) \<in> set (concat outs)"
proof -
  let ?fs = "[''f'' \<mapsto> [97, 32, 98], ''g'' \<mapsto> [98 :: uchar]]"
  have w: "words [97, 32, 98] = [[97], [98]]" "words [98] = [[98]]"
    by (simp_all add: words_def file_lines.simps getline_def cstr_def)
  have "map_option (map_sum (\<lambda>e. e) (map items)) (exec_map (\<lambda>_. sort_key st_size) ?fs 2 [''f'', ''g'']) = Some (Inr [[''g'', ''f''], []])"
    by code_simp
  then obtain ls where e: "exec_map (\<lambda>_. sort_key st_size) ?fs 2 [''f'', ''g''] = Some (Inr ls)" "map items ls = [[''g'', ''f''], []]"
    by (cases "the (exec_map (\<lambda>_. sort_key st_size) ?fs 2 [''f'', ''g''])") auto
  have ws: "concat (map (\<lambda>p. words (the (?fs p))) (concat (map items ls))) = [[98], [97], [98]]" by (simp add: e(2) w)
  obtain r outs where "MR_Run (\<lambda>_. sort_key st_size) (\<lambda>_ ps. sort_key fst ps) ?fs [''f'', ''g'']
       (\<lambda>p. wc_map (the (?fs p))) 2 wc_reduce 10 MR_DefaultHashPartition r" "r = Some (Inr outs)"
    "\<forall>k c. (k, c) \<in> set (concat outs) \<longleftrightarrow> c = int (count_list [[98], [97], [98]] k) \<and> 0 < c"
    using wordcount_correct [OF sort_key_qsort, of 10 "\<lambda>_. sort_key st_size" ?fs 2 "[''f'', ''g'']" ls] e(1) unfolding ws by auto
  then show ?thesis by (intro exI [of _ outs]) auto
qed

section \<open>The distribution of the files\<close>

lemma fill_split:
  assumes "al_ok l"
  shows "\<exists>l' took rest. fill_mapper share accum fs l = Inr (l', rest) \<and> al_ok l' \<and> fs = took @ rest \<and> items l' = items l @ map fpath took"
  using assms
proof (induction share accum fs l rule: fill_mapper.induct)
  case (2 share accum f fs l)
  show ?case
  proof (cases "accum < share")
    case True
    obtain l1 where l1: "push_item (fpath f) l = Inr l1" "al_ok l1" "items l1 = items l @ [fpath f]" using al.push_abs [OF 2(2)] by blast
    obtain l' took rest where "fill_mapper share (accum + st_size f) fs l1 = Inr (l', rest)" "al_ok l'" "fs = took @ rest"
      "items l' = items l1 @ map fpath took" using 2(1) [OF True l1(1,2)] by blast
    then show ?thesis using True l1 by (intro exI [of _ l'] exI [of _ "f # took"] exI [of _ rest]) simp
  qed (use 2(2) in simp)
qed simp

lemma allocate_split: "\<exists>ls rest. allocate k share fs = Inr ls \<and> length ls = k \<and> map fpath fs = concat (map items ls) @ rest"
proof (induction k arbitrary: fs)
  case (Suc k)
  obtain l took r where f: "fill_mapper share 0 fs init_list = Inr (l, r)" "fs = took @ r" "items l = map fpath took"
    using fill_split [OF init_list_ok(1), of share 0 fs] unfolding init_list_ok(2) by auto
  obtain ls rest where "allocate k share r = Inr ls" "length ls = k" "map fpath r = concat (map items ls) @ rest" using Suc by blast
  then show ?case using f by (intro exI [of _ "l # ls"] exI [of _ rest]) simp
qed simp

lemma allocate_nothing: "allocate k 0 fs = Inr (replicate k init_list)"
proof (induction k)
  case (Suc k)
  have "fill_mapper 0 0 fs init_list = Inr (init_list, fs)" by (cases fs) simp_all
  then show ?case using Suc by simp
qed simp

text \<open>C38: The map phase gives no file to two mappers, but it can leave files out.  The files are
  handed out in the order of their sizes, each at most once; with fewer bytes in all than there
  are mappers no mapper gets any file, so the program reports nothing.\<close>

theorem exec_map_at_most_once:
  assumes "\<forall>p \<in> set files. fs p \<noteq> None" "mset (qs compare_file_size (map (\<lambda>p. \<lparr>fpath = p, st_size = length (the (fs p))\<rparr>) files)) =
      mset (map (\<lambda>p. \<lparr>fpath = p, st_size = length (the (fs p))\<rparr>) files)"
  shows "\<exists>ls. exec_map qs fs num_mappers files = Some (Inr ls) \<and> mset (concat (map items ls)) \<subseteq># mset files \<and>
    (sum_list (map (\<lambda>p. length (the (fs p))) files) < num_mappers \<longrightarrow> concat (map items ls) = [])"
proof -
  let ?st = "map (\<lambda>p. \<lparr>fpath = p, st_size = length (the (fs p))\<rparr>) files"
  let ?tot = "sum_list (map st_size ?st)"
  obtain ls rest where ls: "allocate num_mappers (?tot div num_mappers) (qs compare_file_size ?st) = Inr ls"
    "map fpath (qs compare_file_size ?st) = concat (map items ls) @ rest"
    using allocate_split by blast
  have "mset (map fpath (qs compare_file_size ?st)) = mset (map fpath ?st)" using assms(2) by (simp only: mset_map)
  also have "map fpath ?st = files" by (simp add: o_def)
  finally have "mset (concat (map items ls)) \<subseteq># mset files" unfolding ls(2) by (metis mset_append mset_subset_eq_add_left)
  moreover have "exec_map qs fs num_mappers files = Some (Inr ls)" using assms(1) ls(1) by (simp add: exec_map_def)
  moreover have "concat (map items ls) = []" if "sum_list (map (\<lambda>p. length (the (fs p))) files) < num_mappers"
  proof -
    have "?tot div num_mappers = 0" using that by (simp add: o_def)
    then have "ls = replicate num_mappers init_list" using ls(1) allocate_nothing by simp
    then show ?thesis by (simp add: init_list_ok(2))
  qed
  ultimately show ?thesis by blast
qed

theorem exec_map_at_most_once_witness:
  "\<exists>ls. exec_map (\<lambda>_. sort_key st_size) (\<lambda>_. Some [104, 101, 108, 108, 111]) 10 [''f''] = Some (Inr ls) \<and> concat (map items ls) = []"
  using exec_map_at_most_once [of "[''f'']" "\<lambda>_. Some [104, 101, 108, 108, 111]" "\<lambda>_. sort_key st_size" 10] by auto

text \<open>C28: The growing array is a list.  Pushing any number of items onto a fresh list returns, leaves
  exactly these items in order, never writes outside the array, and keeps the array within twice
  the number of items (or the initial size).\<close>

theorem array_list_refines:
  "\<exists>l. foldE push_item xs init_list = Inr l \<and> al_ok l \<and> items l = xs \<and> al_length l = length xs \<and> al_volume l \<le> max 8 (2 * length xs)"
proof (induction xs rule: rev_induct)
  case Nil
  then show ?case using init_list_ok by (simp add: init_list_def default_volume_def)
next
  case (snoc x xs)
  then obtain l where l: "foldE push_item xs init_list = Inr l" "al_ok l" "items l = xs" "al_length l = length xs" "al_volume l \<le> max 8 (2 * length xs)"
    by blast
  obtain l' where l': "push_item x l = Inr l'" "al_ok l'" "items l' = items l @ [x]" using al.push_abs [OF l(2)] by blast
  have "al_length l' = length xs + 1" "al_volume l' \<le> max 8 (2 * (length xs + 1))"
    using push_item_volume [OF l(2) l'(1)] l(4,5) by auto
  then show ?case using l l' by (simp add: foldE_append)
qed

end
