(* ===== verification/Lab_Shell.thy ===== *)
theory Lab_Shell
  imports C_Stdio
begin

text \<open>
  The shell of Unix_Shell (seush.c).  A line of input is a byte buffer and a pointer into it is an
  integer index, because \<open>trim\<close> can move in front of the buffer: an access outside the buffer is
  an error value, and so is reading a string that has no zero byte.  The nodes of the linked
  lists live in a heap; \<open>malloc\<close> leaves the field \<open>next\<close> with whatever the memory held, which is
  the parameter \<open>junk\<close>.  \<open>access\<close>, \<open>chdir\<close>, \<open>fork\<close>, \<open>execv\<close> and \<open>wait\<close> are calls of the operating
  system: the answers of the first two are parameters, which may depend on the directories the
  shell has changed to so far; the others appear in the trace of a run.
\<close>

section \<open>Buffers\<close>

definition rd :: "uchar list \<Rightarrow> int \<Rightarrow> uchar res" where
  "rd b i = (if 0 \<le> i \<and> nat i < length b then Inr (b ! nat i) else Inl (Undef ''read outside the buffer''))"

definition wr :: "int \<Rightarrow> uchar \<Rightarrow> uchar list \<Rightarrow> uchar list res" where
  "wr i c b = (if 0 \<le> i \<and> nat i < length b then Inr (b[nat i := c]) else Inl (Undef ''write outside the buffer''))"

text \<open>The string at a pointer.\<close>

definition str_at :: "uchar list \<Rightarrow> int \<Rightarrow> uchar list res" where
  "str_at b p = (if 0 \<le> p \<and> 0 \<in> set (drop (nat p) b) then Inr (cstr (drop (nat p) b)) else Inl (Undef ''unterminated string''))"

definition isspace :: "uchar \<Rightarrow> bool" where
  "isspace c \<longleftrightarrow> c = 32 \<or> 9 \<le> c \<and> c \<le> 13"

section \<open>Linked lists\<close>

record 'a link_node =
  nvalue :: 'a
  nxt :: "nat option"

record link_t =
  head :: "nat option"
  tail :: "nat option"
  llength :: nat

text \<open>Allocated nodes by address; a freed one is \<open>None\<close>.\<close>

type_synonym 'a heap = "'a link_node option list"

definition node_at :: "nat \<Rightarrow> 'a heap \<Rightarrow> 'a link_node res" where
  "node_at a h = (if a < length h then case h ! a of Some n \<Rightarrow> Inr n | None \<Rightarrow> Inl (Undef ''freed node'')
     else Inl (Undef ''wild pointer''))"

definition link_init :: link_t where
  "link_init = \<lparr>head = None, tail = None, llength = 0\<rparr>"

definition link_add :: "(nat \<Rightarrow> nat option) \<Rightarrow> 'a \<Rightarrow> link_t \<times> 'a heap \<Rightarrow> (link_t \<times> 'a heap) res" where
  "link_add junk v = (\<lambda>(l, h).
     let a = length h; h = h @ [Some \<lparr>nvalue = v, nxt = junk a\<rparr>] in
     case (head l, tail l) of
       (None, _) \<Rightarrow> Inr (l\<lparr>head := Some a, tail := Some a, llength := llength l + 1\<rparr>, h)
     | (_, None) \<Rightarrow> Inl (Undef ''null pointer'')
     | (_, Some t) \<Rightarrow>
         bindE (node_at t h) (\<lambda>n.
         let h = h[a := Some \<lparr>nvalue = v, nxt = nxt n\<rparr>]; h = h[t := Some (n\<lparr>nxt := Some a\<rparr>)]
         in Inr (l\<lparr>tail := Some a, llength := llength l + 1\<rparr>, h)))"

text \<open>The loop of \<open>parse_cmd\<close> that follows \<open>next\<close> and fills the slots of \<open>argv\<close>.\<close>

fun argv_walk :: "nat \<Rightarrow> nat option \<Rightarrow> 'a heap \<Rightarrow> 'a list res" where
  "argv_walk slots None h = Inr []"
| "argv_walk 0 (Some a) h = bindE (node_at a h) (\<lambda>_. Inl (Undef ''argv overrun''))"
| "argv_walk (Suc slots) (Some a) h = bindE (node_at a h) (\<lambda>n. bindE (argv_walk slots (nxt n) h) (\<lambda>vs. Inr (nvalue n # vs)))"

text \<open>Freeing the nodes; a list that is longer than the heap has a cycle.\<close>

fun free_nodes :: "nat \<Rightarrow> nat option \<Rightarrow> 'a heap \<Rightarrow> 'a heap res" where
  "free_nodes fuel None h = Inr h"
| "free_nodes 0 (Some a) h = Inl (Block ''cyclic list'')"
| "free_nodes (Suc fuel) (Some a) h = bindE (node_at a h) (\<lambda>n. free_nodes fuel (nxt n) (h[a := None]))"

definition link_clear :: "link_t \<times> 'a heap \<Rightarrow> (link_t \<times> 'a heap) res" where
  "link_clear = (\<lambda>(l, h). bindE (free_nodes (length h) (head l) h) (\<lambda>h. Inr (link_init, h)))"

section \<open>The search path\<close>

text \<open>The value of a node of the path is the address of the buffer that was allocated for it, in a heap
  of strings of its own.\<close>

type_synonym strs = "uchar list option list"

definition str_of :: "nat \<Rightarrow> strs \<Rightarrow> uchar list res" where
  "str_of a ss = (if a < length ss then case ss ! a of Some d \<Rightarrow> Inr d | None \<Rightarrow> Inl (Undef ''freed string'')
     else Inl (Undef ''wild pointer''))"

definition path_add :: "(nat \<Rightarrow> nat option) \<Rightarrow> uchar list \<Rightarrow> link_t \<times> nat heap \<times> strs \<Rightarrow> (link_t \<times> nat heap \<times> strs) res" where
  "path_add junk str = (\<lambda>(l, h, ss).
     if str = [] then Inl (Undef ''read outside the buffer'')
     else let str_len = (if last str = 47 then length str - 1 else length str);
              new_path = take (str_len + 1) (str @ [0])
          in bindE (link_add junk (length ss) (l, h)) (\<lambda>(l, h). Inr (l, h, ss @ [Some new_path])))"

fun free_values :: "nat \<Rightarrow> nat option \<Rightarrow> nat heap \<Rightarrow> strs \<Rightarrow> strs res" where
  "free_values fuel None h ss = Inr ss"
| "free_values 0 (Some a) h ss = Inl (Block ''cyclic list'')"
| "free_values (Suc fuel) (Some a) h ss =
     bindE (node_at a h) (\<lambda>n. bindE (str_of (nvalue n) ss) (\<lambda>_. free_values fuel (nxt n) h (ss[nvalue n := None])))"

definition path_clear :: "link_t \<times> nat heap \<times> strs \<Rightarrow> (link_t \<times> nat heap \<times> strs) res" where
  "path_clear = (\<lambda>(l, h, ss).
     bindE (free_values (Suc (length h)) (head l) h ss) (\<lambda>ss.
     bindE (link_clear (l, h)) (\<lambda>(l, h). Inr (l, h, ss))))"

section \<open>Parsing\<close>

text \<open>\<open>strsep\<close> in a loop: the pointers to the tokens, the delimiters overwritten with zero bytes.
  The fuel is the length of the buffer.\<close>

fun token_end :: "uchar set \<Rightarrow> nat \<Rightarrow> uchar list \<Rightarrow> nat \<Rightarrow> nat res" where
  "token_end ds fuel b p =
     bindE (rd b (int p)) (\<lambda>c. if c = 0 \<or> c \<in> ds then Inr p
       else case fuel of 0 \<Rightarrow> Inl (Block ''strsep'') | Suc fuel \<Rightarrow> token_end ds fuel b (p + 1))"

declare token_end.simps [simp del]

fun strsep_loop :: "uchar set \<Rightarrow> nat \<Rightarrow> uchar list \<Rightarrow> nat \<Rightarrow> (nat list \<times> uchar list) res" where
  "strsep_loop ds fuel b p =
     bindE (token_end ds (length b) b p) (\<lambda>e.
     bindE (rd b (int e)) (\<lambda>c.
     if c = 0 then Inr ([p], b)
     else case fuel of 0 \<Rightarrow> Inl (Block ''strsep'')
       | Suc fuel \<Rightarrow> bindE (strsep_loop ds fuel (b[e := 0]) (e + 1)) (\<lambda>(ts, b). Inr (p # ts, b))))"

declare strsep_loop.simps [simp del]

definition blanks :: "uchar set" where "blanks = {32, 9, 10, 13}"

text \<open>\<open>parse_cmd\<close>: the arguments, \<open>[]\<close> for a null \<open>cmd_name\<close>, and the buffer.\<close>

definition parse_cmd :: "(nat \<Rightarrow> nat option) \<Rightarrow> uchar list \<Rightarrow> nat \<Rightarrow> (uchar list list \<times> uchar list) res" where
  "parse_cmd junk b p =
     bindE (strsep_loop blanks (length b) b p) (\<lambda>(ts, b).
     bindE (foldE (\<lambda>t lh. bindE (rd b (int t)) (\<lambda>c. if c \<noteq> 0 then link_add junk t lh else Inr lh)) ts (link_init, [])) (\<lambda>(l, h).
     if llength l > 0 then
       bindE (argv_walk (llength l + 1) (head l) h) (\<lambda>ptrs.
       bindE (link_clear (l, h)) (\<lambda>_. Inr (map (\<lambda>t. cstr (drop t b)) (take (llength l) ptrs), b)))
     else Inr ([], b)))"

text \<open>\<open>trim\<close>: the new pointer and buffer.\<close>

fun skip_space :: "nat \<Rightarrow> uchar list \<Rightarrow> int \<Rightarrow> int res" where
  "skip_space fuel b p =
     bindE (rd b p) (\<lambda>c. if isspace c then (case fuel of 0 \<Rightarrow> Inl (Block ''trim'') | Suc fuel \<Rightarrow> skip_space fuel b (p + 1)) else Inr p)"

declare skip_space.simps [simp del]

fun back_space :: "nat \<Rightarrow> uchar list \<Rightarrow> int \<Rightarrow> int \<Rightarrow> int res" where
  "back_space fuel b p len =
     bindE (rd b (p + len - 1)) (\<lambda>c. if isspace c then (case fuel of 0 \<Rightarrow> Inl (Block ''trim'') | Suc fuel \<Rightarrow> back_space fuel b p (len - 1)) else Inr len)"

declare back_space.simps [simp del]

definition trim :: "uchar list \<Rightarrow> int \<Rightarrow> (int \<times> uchar list) res" where
  "trim b p =
     bindE (skip_space (length b) b p) (\<lambda>p.
     bindE (str_at b p) (\<lambda>s.
     bindE (back_space (length b) b p (int (length s))) (\<lambda>len.
     bindE (wr (p + len) 0 b) (\<lambda>b. Inr (p, b)))))"

text \<open>\<open>parse_redirect_dest\<close>: \<open>None\<close> for a format error, otherwise the destination if there is one.\<close>

definition parse_redirect_dest :: "uchar list \<Rightarrow> int \<Rightarrow> (uchar list option option \<times> uchar list) res" where
  "parse_redirect_dest b p =
     bindE (trim b p) (\<lambda>(p, b).
     bindE (str_at b p) (\<lambda>s.
     if take 1 s = [62] then Inr (None, b)
     else if 62 \<notin> set s then Inr (Some None, b)
     else let divider = p + int (length (takeWhile (\<lambda>c. c \<noteq> 62) s)) in
       bindE (wr divider 0 b) (\<lambda>b.
       bindE (str_at b (divider + 1)) (\<lambda>s.
       if 62 \<in> set s then Inr (None, b)
       else bindE (trim b (divider + 1)) (\<lambda>(q, b).
         bindE (str_at b q) (\<lambda>dest.
         if dest = [] \<or> (\<exists>c \<in> set dest. isspace c) then Inr (None, b)
         else Inr (Some (Some dest), b)))))))"

section \<open>Commands\<close>

datatype exec_result = SUCCESS | ERROR | NOT_EXEC

text \<open>What a child process does, and the steps of the shell that can be seen from outside.\<close>

datatype child = Execv "uchar list" "uchar list list" "uchar list option" | NotFound "uchar list option"

text \<open>\<open>Chdir\<close> is a change of directory that succeeded.\<close>

datatype act = PrintError | Chdir "uchar list option" | Fork child | Wait nat | Exit int | Prompt

record shell =
  path_link :: link_t
  path_heap :: "nat heap"
  path_strs :: strs
  acts :: "act list"

definition perform :: "act \<Rightarrow> shell \<Rightarrow> shell" where
  "perform a s = s\<lparr>acts := acts s @ [a]\<rparr>"

text \<open>The changes of directory so far, which fix the working directory.\<close>

fun entered :: "act list \<Rightarrow> uchar list option list" where
  "entered [] = []"
| "entered (a # as) = (case a of Chdir d \<Rightarrow> d # entered as | _ \<Rightarrow> entered as)"

text \<open>The operating system: \<open>access(path, X_OK) = 0\<close> and \<open>chdir(path) = 0\<close> in the working directory,
  and what fresh memory holds in the place of the field \<open>next\<close>.\<close>

record os =
  os_access :: "uchar list option list \<Rightarrow> uchar list \<Rightarrow> bool"
  os_chdir :: "uchar list option list \<Rightarrow> uchar list option \<Rightarrow> bool"
  os_junk :: "nat \<Rightarrow> nat option"

definition exec_built_in_cmd :: "os \<Rightarrow> uchar list list \<Rightarrow> shell \<Rightarrow> (exec_result \<times> shell) res" where
  "exec_built_in_cmd os argv s =
     (if argv ! 0 = bytes ''exit'' then
        (if length argv > 1 then Inr (ERROR, s) else Inr (SUCCESS, perform (Exit 0) s))
      else if argv ! 0 = bytes ''cd'' then
        (let dir = (if length argv > 1 then Some (argv ! 1) else None) in
         Inr (if os_chdir os (entered (acts s)) dir then (SUCCESS, perform (Chdir dir) s) else (ERROR, s)))
      else if argv ! 0 = bytes ''path'' then
        bindE (path_clear (path_link s, path_heap s, path_strs s)) (\<lambda>p.
        bindE (foldE (path_add (os_junk os)) (tl argv) p) (\<lambda>(l, h, ss).
        Inr (SUCCESS, s\<lparr>path_link := l, path_heap := h, path_strs := ss\<rparr>)))
      else Inr (NOT_EXEC, s))"

text \<open>The search of the child: the name itself, then the directories of the path in order.  The
  buffer for a candidate is sized with the length of \<open>cmd_line\<close>, the name being copied into it.\<close>

fun search :: "os \<Rightarrow> uchar list option list \<Rightarrow> uchar list \<Rightarrow> nat \<Rightarrow> uchar list \<Rightarrow> nat \<Rightarrow> nat option \<Rightarrow> nat heap \<Rightarrow> strs \<Rightarrow>
    uchar list option res" where
  "search os cwd name cmd_line_len cmd_path fuel current_node h ss =
     (if os_access os cwd cmd_path then Inr (Some cmd_path)
      else case current_node of None \<Rightarrow> Inr None
        | Some a \<Rightarrow>
            (case fuel of 0 \<Rightarrow> Inl (Block ''cyclic list'')
             | Suc fuel \<Rightarrow>
                bindE (node_at a h) (\<lambda>n.
                bindE (str_of (nvalue n) ss) (\<lambda>d.
                bindE (str_at d 0) (\<lambda>dir.
                if length dir + 1 + length name + 1 > length dir + 1 + cmd_line_len + 1 then Inl (Undef ''heap overflow'')
                else search os cwd name cmd_line_len (dir @ [47] @ name) fuel (nxt n) h ss)))))"

declare search.simps [simp del]

definition run_child :: "os \<Rightarrow> uchar list list \<Rightarrow> nat \<Rightarrow> uchar list option \<Rightarrow> shell \<Rightarrow> child res" where
  "run_child os argv cmd_line_len dest s =
     bindE (search os (entered (acts s)) (argv ! 0) cmd_line_len (argv ! 0) (length (path_heap s))
       (head (path_link s)) (path_heap s) (path_strs s)) (\<lambda>r.
     Inr (case r of Some p \<Rightarrow> Execv p argv dest | None \<Rightarrow> NotFound dest))"

definition exec_single_cmd :: "os \<Rightarrow> uchar list \<Rightarrow> nat \<Rightarrow> shell \<Rightarrow> (nat \<times> uchar list \<times> shell) res" where
  "exec_single_cmd os b p s =
     bindE (parse_redirect_dest b (int p)) (\<lambda>(r, b).
     case r of None \<Rightarrow> Inr (0, b, perform PrintError s)
     | Some dest \<Rightarrow>
         bindE (parse_cmd (os_junk os) b p) (\<lambda>(argv, b).
         if argv = [] then Inr (0, b, s)
         else bindE (exec_built_in_cmd os argv s) (\<lambda>(res, s).
           case res of ERROR \<Rightarrow> Inr (0, b, perform PrintError s)
           | SUCCESS \<Rightarrow> Inr (0, b, s)
           | NOT_EXEC \<Rightarrow>
               bindE (str_at b (int p)) (\<lambda>cl.
               bindE (run_child os argv (length cl) dest s) (\<lambda>c. Inr (1, b, perform (Fork c) s))))))"

text \<open>The commands between ampersands are started one after the other; after \<open>exit\<close> the shell is
  gone.\<close>

definition exited :: "shell \<Rightarrow> bool" where
  "exited s \<longleftrightarrow> Exit 0 \<in> set (acts s)"

fun run_tokens :: "os \<Rightarrow> nat list \<Rightarrow> nat \<Rightarrow> uchar list \<Rightarrow> shell \<Rightarrow> (nat \<times> shell) res" where
  "run_tokens os [] n b s = Inr (n, s)"
| "run_tokens os (t # ts) n b s =
     (if exited s then Inr (n, s)
      else bindE (rd b (int t)) (\<lambda>c.
        if c = 0 then run_tokens os ts n b s
        else bindE (exec_single_cmd os b t s) (\<lambda>(k, b, s). run_tokens os ts (n + k) b s)))"

definition exec_parallel_cmd :: "os \<Rightarrow> uchar list \<Rightarrow> shell \<Rightarrow> shell res" where
  "exec_parallel_cmd os b s =
     bindE (strsep_loop {38} (length b) b 0) (\<lambda>(ts, b).
     bindE (run_tokens os ts 0 b s) (\<lambda>(n, s). Inr (if exited s then s else perform (Wait n) s)))"

text \<open>\<open>main\<close> on the lines of its input; in the code the line is read by \<open>getline\<close> into a fresh buffer
  with a zero byte at its end.\<close>

definition run_line :: "os \<Rightarrow> uchar list \<Rightarrow> shell \<Rightarrow> shell res" where
  "run_line os line s =
     (let b = line @ [0] in
      bindE (str_at b 0) (\<lambda>l.
      bindE (rd b (int (length l) - 1)) (\<lambda>c.
      exec_parallel_cmd os (if isspace c then b[length l - 1 := 0] else b) s)))"

definition seush_start :: "os \<Rightarrow> shell res" where
  "seush_start os = bindE (path_add (os_junk os) (bytes ''/bin'') (link_init, [], []))
     (\<lambda>(l, h, ss). Inr \<lparr>path_link = l, path_heap = h, path_strs = ss, acts = []\<rparr>)"

fun run_lines :: "os \<Rightarrow> bool \<Rightarrow> uchar list list \<Rightarrow> shell \<Rightarrow> shell res" where
  "run_lines os tty [] s = Inr (perform (Exit 0) (if tty then perform Prompt s else s))"
| "run_lines os tty (l # ls) s =
     bindE (run_line os l (if tty then perform Prompt s else s)) (\<lambda>s. if exited s then Inr s else run_lines os tty ls s)"

definition seush :: "os \<Rightarrow> fsys \<Rightarrow> uchar list \<Rightarrow> string list \<Rightarrow> act list res" where
  "seush os fs stdin args =
     (case args of
        [] \<Rightarrow> bindE (seush_start os) (\<lambda>s. bindE (run_lines os True (file_lines stdin) s) (\<lambda>s. Inr (acts s)))
      | [f] \<Rightarrow> (case fs f of None \<Rightarrow> Inr [PrintError, Exit 1]
          | Some batch \<Rightarrow> bindE (seush_start os) (\<lambda>s. bindE (run_lines os False (file_lines batch) s) (\<lambda>s. Inr (acts s))))
      | _ \<Rightarrow> Inr [PrintError, Exit 1])"

section \<open>Lists built by appending\<close>

text \<open>The nodes of a list built with \<open>link_add\<close> alone follow one another in the heap, behind what was
  allocated before, \<open>g\<close>.  The last one points to \<open>e\<close>, which is what the memory of the first one held.\<close>

definition chain :: "nat option \<Rightarrow> 'a heap \<Rightarrow> 'a list \<Rightarrow> 'a heap" where
  "chain e g vs = g @ map (\<lambda>i. Some \<lparr>nvalue = vs ! i, nxt = (if i + 1 < length vs then Some (length g + i + 1) else e)\<rparr>) [0..<length vs]"

definition chain_link :: "'a heap \<Rightarrow> 'a list \<Rightarrow> link_t" where
  "chain_link g vs = \<lparr>head = (if vs = [] then None else Some (length g)),
     tail = (if vs = [] then None else Some (length g + length vs - 1)), llength = length vs\<rparr>"

lemma length_chain [simp]: "length (chain e g vs) = length g + length vs"
  by (simp add: chain_def)

lemma chain_nth [simp]: "i < length vs \<Longrightarrow>
  chain e g vs ! (length g + i) = Some \<lparr>nvalue = vs ! i, nxt = (if i + 1 < length vs then Some (length g + i + 1) else e)\<rparr>"
  by (simp add: chain_def nth_append)

lemma chain_node: "i < length vs \<Longrightarrow>
  node_at (length g + i) (chain e g vs) = Inr \<lparr>nvalue = vs ! i, nxt = (if i + 1 < length vs then Some (length g + i + 1) else e)\<rparr>"
  by (simp add: node_at_def)

lemma chain_snoc:
  "(chain e g (us @ [x]) @ [Some \<lparr>nvalue = v, nxt = e\<rparr>])[length g + length us := Some \<lparr>nvalue = x, nxt = Some (Suc (length g + length us))\<rparr>]
    = chain e g (us @ [x, v])"
  by (simp add: chain_def list_update_append nth_append)

lemma link_add_first: "link_add junk v (link_init, g) = Inr (chain_link g [v], chain (junk (length g)) g [v])"
  by (simp add: link_add_def link_init_def chain_link_def chain_def Let_def)

lemma link_add_chain:
  assumes "vs \<noteq> []"
  shows "link_add junk v (chain_link g vs, chain e g vs) = Inr (chain_link g (vs @ [v]), chain e g (vs @ [v]))"
proof -
  obtain us x where vs: "vs = us @ [x]" using assms by (cases vs rule: rev_exhaust) auto
  have "node_at (length g + length us) (chain e g (us @ [x]) @ [Some \<lparr>nvalue = v, nxt = j\<rparr>]) = Inr \<lparr>nvalue = x, nxt = e\<rparr>" for j
    using chain_nth [of "length us" "us @ [x]" e g] by (simp add: node_at_def nth_append)
  moreover have "(chain e g (us @ [x]) @ [Some \<lparr>nvalue = v, nxt = j\<rparr>])[Suc (length g + length us) := y] = chain e g (us @ [x]) @ [y]" for j y
    by (simp add: list_update_append)
  ultimately show ?thesis using chain_snoc [of e g us x v] by (simp add: vs link_add_def chain_link_def Let_def)
qed

lemma link_add_more:
  "vs \<noteq> [] \<Longrightarrow> foldE (link_add junk) xs (chain_link g vs, chain e g vs) = Inr (chain_link g (vs @ xs), chain e g (vs @ xs))"
  by (induction xs arbitrary: vs) (simp_all add: link_add_chain)

lemma chain_empty: "chain_link g [] = link_init" "chain e g [] = g"
  by (simp_all add: chain_link_def link_init_def chain_def)

lemma link_add_all: "foldE (link_add junk) xs (link_init, g) = Inr (chain_link g xs, chain (junk (length g)) g xs)"
  by (cases xs) (simp_all add: chain_empty link_add_first link_add_more)

lemma argv_walk_chain:
  "i < length vs \<Longrightarrow> length vs - i \<le> slots \<Longrightarrow> argv_walk slots (Some (length g + i)) (chain None g vs) = Inr (drop i vs)"
proof (induction slots arbitrary: i)
  case (Suc slots)
  note n = chain_node [OF Suc.prems(1), of g None]
  show ?case
  proof (cases "i + 1 < length vs")
    case True
    then have "argv_walk slots (Some (length g + (i + 1))) (chain None g vs) = Inr (drop (i + 1) vs)" using Suc by (intro Suc.IH) auto
    then show ?thesis using n True Suc.prems by (simp add: Cons_nth_drop_Suc)
  next
    case False
    then show ?thesis using n Suc.prems by (simp add: Cons_nth_drop_Suc [symmetric])
  qed
qed simp

text \<open>A list whose last node points anywhere is never walked to an end.\<close>

lemma argv_walk_junk: "\<exists>e. argv_walk slots (Some a) (chain (Some x) [] vs) = Inl (Undef e)"
proof (induction slots arbitrary: a)
  case 0
  show ?case by (cases "a < length vs") (use chain_node [of a vs "[]" "Some x"] in \<open>auto simp: node_at_def\<close>)
next
  case (Suc slots)
  show ?case
  proof (cases "a < length vs")
    case True
    then obtain v b where "node_at a (chain (Some x) [] vs) = Inr \<lparr>nvalue = v, nxt = Some b\<rparr>"
      using chain_node [of a vs "[]" "Some x"] by (cases "a + 1 < length vs") auto
    with Suc.IH [of b] show ?thesis by auto
  qed (simp add: node_at_def)
qed

lemma free_nodes_chain:
  assumes "length h = length g + length vs" "\<And>j. i \<le> j \<Longrightarrow> j < length vs \<Longrightarrow> h ! (length g + j) = chain None g vs ! (length g + j)"
  shows "i < length vs \<Longrightarrow> length vs - i \<le> fuel \<Longrightarrow> \<exists>h'. free_nodes fuel (Some (length g + i)) h = Inr h'"
  using assms
proof (induction fuel arbitrary: i h)
  case (Suc fuel)
  have n: "node_at (length g + i) h = Inr \<lparr>nvalue = vs ! i, nxt = (if i + 1 < length vs then Some (length g + (i + 1)) else None)\<rparr>"
    using Suc.prems by (simp add: node_at_def)
  show ?case
  proof (cases "i + 1 < length vs")
    case True
    then have "\<exists>h'. free_nodes fuel (Some (length g + (i + 1))) (h[length g + i := None]) = Inr h'"
      using Suc.prems by (intro Suc.IH) auto
    then show ?thesis using n True by simp
  qed (use n in simp)
qed simp

lemma link_clear_chain: "\<exists>h. link_clear (chain_link g vs, chain None g vs) = Inr (link_init, h)"
  using free_nodes_chain [of "chain None g vs" g vs 0 "length g + length vs"] by (cases "vs = []") (auto simp: link_clear_def chain_link_def chain_def)

section \<open>Tokens\<close>

lemma rd_ok: "p < length b \<Longrightarrow> rd b (int p) = Inr (b ! p)"
  by (simp add: rd_def)

lemma token_end_ok:
  "0 \<in> set (drop p b) \<Longrightarrow> length b - p \<le> Suc fuel \<Longrightarrow>
   token_end ds fuel b p = Inr (p + length (takeWhile (\<lambda>c. c \<noteq> 0 \<and> c \<notin> ds) (drop p b)))"
proof (induction fuel arbitrary: p)
  case (0 p)
  then have p: "p < length b" by (metis drop_all empty_iff empty_set not_le)
  with 0 have "drop p b = [0]" by (cases "drop p b"; cases "tl (drop p b)") (auto simp: drop_eq_Nil dest: arg_cong [of _ _ length])
  moreover from this have "b ! p = 0" using p by (metis hd_drop_conv_nth list.sel(1))
  ultimately show ?case using p by (simp add: token_end.simps rd_ok)
next
  case (Suc fuel p)
  then have p: "p < length b" by (metis drop_all empty_iff empty_set not_le)
  then have d: "drop p b = b ! p # drop (Suc p) b" by (simp add: Cons_nth_drop_Suc)
  show ?case
  proof (cases "b ! p = 0 \<or> b ! p \<in> ds")
    case True
    then show ?thesis using p d by (simp add: token_end.simps [of ds "Suc fuel"] rd_ok)
  next
    case False
    then have "0 \<in> set (drop (Suc p) b)" using Suc.prems(1) d by auto
    then have "token_end ds fuel b (Suc p) = Inr (Suc p + length (takeWhile (\<lambda>c. c \<noteq> 0 \<and> c \<notin> ds) (drop (Suc p) b)))"
      using Suc.prems(2) by (intro Suc.IH) auto
    then show ?thesis using False p d by (simp add: token_end.simps [of ds "Suc fuel"] rd_ok)
  qed
qed

lemma cstr_split:
  assumes "0 \<in> set xs"
  obtains ys where "xs = cstr xs @ 0 # ys"
proof -
  have "dropWhile (\<lambda>c. c \<noteq> 0) xs \<noteq> []" using assms by (simp add: dropWhile_eq_Nil_conv)
  then obtain c ys where d: "dropWhile (\<lambda>c. c \<noteq> 0) xs = c # ys" by (cases "dropWhile (\<lambda>c. c \<noteq> 0) xs") auto
  then have "c = 0" using hd_dropWhile [of "\<lambda>c. c \<noteq> 0" xs] by auto
  with d that [of ys] show ?thesis unfolding cstr_def by (metis takeWhile_dropWhile_id)
qed

lemma cstr_append: "0 \<notin> set u \<Longrightarrow> cstr (u @ 0 # ys) = u"
  by (induction u) (auto simp: cstr_def)

lemma cstr_append_nz: "0 \<notin> set u \<Longrightarrow> c \<noteq> 0 \<Longrightarrow> cstr (u @ c # s) = u @ c # cstr s"
  by (induction u) (auto simp: cstr_def)

lemma strsep_all_append: "set u \<inter> ds = {} \<Longrightarrow> c \<in> ds \<Longrightarrow> strsep_all ds (u @ c # s) = u # strsep_all ds s"
  by (induction u) auto

lemma strsep_all_single: "set u \<inter> ds = {} \<Longrightarrow> strsep_all ds u = [u]"
  by (induction u) auto

lemma strsep_loop_ok:
  assumes "0 \<notin> ds"
  shows "0 \<in> set (drop p b) \<Longrightarrow> length b - p \<le> Suc fuel \<Longrightarrow>
    \<exists>ts b'. strsep_loop ds fuel b p = Inr (ts, b') \<and> length b' = length b \<and> take p b' = take p b \<and>
      map (\<lambda>t. cstr (drop t b')) ts = strsep_all ds (cstr (drop p b)) \<and> (\<forall>t \<in> set ts. t < length b) \<and>
      ts \<noteq> [] \<and> hd ts = p \<and> 0 \<in> set (drop p b')"
proof (induction fuel arbitrary: b p)
  case (0 b p)
  then have "p < length b" by (metis drop_all empty_iff empty_set not_le)
  moreover from this have "drop p b = [0]" using 0 by (cases "drop p b"; cases "tl (drop p b)") (auto dest: arg_cong [of _ _ length])
  moreover from this \<open>p < length b\<close> have "b ! p = 0" by (metis hd_drop_conv_nth list.sel(1))
  moreover have "token_end ds (length b) b p = Inr p"
    using token_end_ok [OF 0(1), of "length b" ds] \<open>drop p b = [0]\<close> by simp
  ultimately show ?case by (simp add: strsep_loop.simps rd_ok cstr_def)
next
  case (Suc fuel b p)
  let ?P = "\<lambda>c. c \<noteq> 0 \<and> c \<notin> ds"
  define u where "u = takeWhile ?P (drop p b)"
  let ?e = "p + length u"
  have te: "token_end ds (length b) b p = Inr ?e" using token_end_ok [OF Suc.prems(1), of "length b" ds] by (simp add: u_def)
  have "\<not> (\<forall>c \<in> set (drop p b). ?P c)" using Suc.prems(1) by blast
  moreover have "\<forall>c \<in> set u. ?P c" unfolding u_def by (auto dest: set_takeWhileD)
  moreover have "u = take (length u) (drop p b)" unfolding u_def by (rule takeWhile_eq_take)
  ultimately have ul: "length u < length (drop p b)" by (metis not_less take_all)
  then have e: "?e < length b" by simp
  have rde: "rd b (int p + int (length u)) = Inr (b ! ?e)" using rd_ok [OF e] by simp
  have be: "\<not> ?P (b ! ?e)" using nth_length_takeWhile [of ?P "drop p b"] ul unfolding u_def [symmetric] by simp
  have us: "set u \<inter> ds = {}" "0 \<notin> set u" unfolding u_def by (auto dest: set_takeWhileD)
  have db: "drop p b = u @ b ! ?e # drop (Suc ?e) b"
  proof -
    have "drop p b = u @ drop (length u) (drop p b)" unfolding u_def by (metis dropWhile_eq_drop takeWhile_dropWhile_id)
    then show ?thesis using e by (simp add: Cons_nth_drop_Suc add.commute)
  qed
  show ?case
  proof (cases "b ! ?e = 0")
    case True
    then have "cstr (drop p b) = u" using db us(2) cstr_append by metis
    then show ?thesis using te e True us(1) Suc.prems(1)
      by (intro exI [of _ "[p]"] exI [of _ b]) (simp add: strsep_loop.simps [of ds "Suc fuel"] rde strsep_all_single)
  next
    case False
    then have ed: "b ! ?e \<in> ds" using be by simp
    let ?b = "b[?e := 0]"
    have dd: "drop (?e + 1) ?b = drop (?e + 1) b" by simp
    have "0 \<in> set (drop (?e + 1) ?b)" using Suc.prems(1) db us(2) False unfolding dd by (metis One_nat_def Un_iff add.right_neutral add_Suc_right set_ConsD set_append)
    moreover have "length ?b - (?e + 1) \<le> Suc fuel" using Suc.prems(2) by simp
    ultimately obtain ts b' where IH: "strsep_loop ds fuel ?b (?e + 1) = Inr (ts, b')" "length b' = length ?b" "take (?e + 1) b' = take (?e + 1) ?b"
      "map (\<lambda>t. cstr (drop t b')) ts = strsep_all ds (cstr (drop (?e + 1) ?b))" "\<forall>t \<in> set ts. t < length ?b"
      using Suc.IH by blast
    have s: "cstr (drop p b) = u @ b ! ?e # cstr (drop (?e + 1) b)"
      using db us(2) False cstr_append_nz [of u "b ! ?e"] by simp
    have front: "cstr (drop p b') = u" "0 \<in> set (drop p b')"
    proof -
      have "take (length u + 1) (drop p b') = drop p (take (?e + 1) b')" by (simp add: drop_take add.commute)
      also have "\<dots> = take (length u + 1) (drop p ?b)" unfolding IH(3) by (simp add: drop_take add.commute)
      also have "\<dots> = u @ [0]" using db e by (simp add: drop_update_swap take_update_swap list_update_append)
      finally have "drop p b' = u @ 0 # drop (length u + 1) (drop p b')" by (metis append_Cons append_Nil append_assoc append_take_drop_id)
      then show "cstr (drop p b') = u" "0 \<in> set (drop p b')" using us(2) cstr_append by (metis, metis in_set_conv_decomp)
    qed
    have "take p b' = take p b"
    proof -
      have "take p b' = take p (take (?e + 1) b')" by simp
      also have "\<dots> = take p ?b" unfolding IH(3) by simp
      finally show ?thesis by simp
    qed
    moreover have "strsep_loop ds (Suc fuel) b p = Inr (p # ts, b')" using te e False IH(1) by (simp add: strsep_loop.simps [of ds "Suc fuel"] rde)
    moreover have "strsep_all ds (cstr (drop p b)) = u # strsep_all ds (cstr (drop (?e + 1) b))" unfolding s by (rule strsep_all_append [OF us(1) ed])
    ultimately show ?thesis using IH front e by (intro exI [of _ "p # ts"] exI [of _ b']) auto
  qed
qed

text \<open>\<open>parse_cmd\<close> splits the line into its words.\<close>

definition cmd_words :: "uchar list \<Rightarrow> uchar list list" where
  "cmd_words s = filter (\<lambda>t. t \<noteq> []) (strsep_all blanks s)"

lemma blanks_0: "0 \<notin> blanks"
  by (simp add: blanks_def)

lemma foldE_filter: "foldE (\<lambda>t s. if P t then f t s else Inr s) ts s = foldE f (filter P ts) s"
proof (induction ts arbitrary: s)
  case (Cons t ts)
  then have "foldE (\<lambda>t s. if P t then f t s else Inr s) ts = foldE f (filter P ts)" by blast
  then show ?case by simp
qed simp

lemma parse_cmd_list:
  assumes "0 \<in> set (drop p b)"
  shows "\<exists>ps b'. parse_cmd junk b p =
      (if ps = [] then Inr ([], b')
       else bindE (argv_walk (length ps + 1) (Some 0) (chain (junk 0) [] ps)) (\<lambda>ptrs.
         bindE (link_clear (chain_link ([] :: nat heap) ps, chain (junk 0) [] ps)) (\<lambda>_.
         Inr (map (\<lambda>t. cstr (drop t b')) (take (length ps) ptrs), b')))) \<and>
    map (\<lambda>t. cstr (drop t b')) ps = cmd_words (cstr (drop p b)) \<and> length b' = length b \<and> 0 \<in> set (drop p b') \<and>
    cstr (drop p b') = hd (strsep_all blanks (cstr (drop p b)))"
proof -
  obtain ts b' where t: "strsep_loop blanks (length b) b p = Inr (ts, b')" "length b' = length b"
    "map (\<lambda>t. cstr (drop t b')) ts = strsep_all blanks (cstr (drop p b))" "\<forall>t \<in> set ts. t < length b" "ts \<noteq> []" "hd ts = p" "0 \<in> set (drop p b')"
    using strsep_loop_ok [of blanks p b "length b"] assms blanks_0 by (metis diff_le_self le_SucI)
  let ?P = "\<lambda>t. cstr (drop t b') \<noteq> []"
  let ?ps = "filter ?P ts"
  have rd: "rd b' (int t) = Inr (b' ! t)" "b' ! t \<noteq> 0 \<longleftrightarrow> ?P t" if "t \<in> set ts" for t
    using that t(2,4) by (auto simp: rd_ok cstr_def Cons_nth_drop_Suc [symmetric])
  have "foldE (\<lambda>t lh. bindE (rd b' (int t)) (\<lambda>c. if c \<noteq> 0 then link_add junk t lh else Inr lh)) ts (link_init, []) =
      foldE (\<lambda>t lh. if ?P t then link_add junk t lh else Inr lh) ts (link_init, [])"
    by (rule foldE_cong) (use rd in auto)
  also have "\<dots> = foldE (link_add junk) ?ps (link_init, [])" by (simp add: foldE_filter)
  also have "\<dots> = Inr (chain_link ([] :: nat heap) ?ps, chain (junk 0) [] ?ps)"
    using link_add_all [of junk ?ps "[]"] by simp
  finally have f: "foldE (\<lambda>t lh. bindE (rd b' (int t)) (\<lambda>c. if c \<noteq> 0 then link_add junk t lh else Inr lh)) ts (link_init, []) =
      Inr (chain_link ([] :: nat heap) ?ps, chain (junk 0) [] ?ps)" .
  have w: "map (\<lambda>t. cstr (drop t b')) ?ps = cmd_words (cstr (drop p b))"
    unfolding cmd_words_def t(3) [symmetric] by (simp add: filter_map o_def)
  have ll: "llength (chain_link ([] :: nat heap) ps) = length ps" "ps \<noteq> [] \<Longrightarrow> head (chain_link ([] :: nat heap) ps) = Some 0"
    for ps :: "nat list" by (simp_all add: chain_link_def)
  define ps where "ps = ?ps"
  have "parse_cmd junk b p = (if ps = [] then Inr ([], b')
       else bindE (argv_walk (length ps + 1) (Some 0) (chain (junk 0) [] ps)) (\<lambda>ptrs.
         bindE (link_clear (chain_link ([] :: nat heap) ps, chain (junk 0) [] ps)) (\<lambda>_.
         Inr (map (\<lambda>t. cstr (drop t b')) (take (length ps) ptrs), b'))))"
    using t(1) f unfolding ps_def [symmetric] by (simp add: parse_cmd_def ll)
  moreover have "cstr (drop p b') = hd (strsep_all blanks (cstr (drop p b)))" using t(3,5,6) by (metis hd_map)
  ultimately show ?thesis using w t(2,7) unfolding ps_def [symmetric] by blast
qed

lemma parse_cmd_ok:
  assumes "junk 0 = None" "0 \<in> set (drop p b)"
  shows "\<exists>b'. parse_cmd junk b p = Inr (cmd_words (cstr (drop p b)), b') \<and> length b' = length b \<and> 0 \<in> set (drop p b') \<and>
    cstr (drop p b') = hd (strsep_all blanks (cstr (drop p b)))"
proof -
  obtain ps b' where p: "parse_cmd junk b p =
      (if ps = [] then Inr ([], b')
       else bindE (argv_walk (length ps + 1) (Some 0) (chain (junk 0) [] ps)) (\<lambda>ptrs.
         bindE (link_clear (chain_link ([] :: nat heap) ps, chain (junk 0) [] ps)) (\<lambda>_.
         Inr (map (\<lambda>t. cstr (drop t b')) (take (length ps) ptrs), b'))))"
    "map (\<lambda>t. cstr (drop t b')) ps = cmd_words (cstr (drop p b))" "length b' = length b" "0 \<in> set (drop p b')"
    "cstr (drop p b') = hd (strsep_all blanks (cstr (drop p b)))"
    using parse_cmd_list [OF assms(2), of junk] by blast
  obtain lh where c: "link_clear (chain_link ([] :: nat heap) ps, chain None [] ps) = Inr lh" using link_clear_chain by blast
  have "ps \<noteq> [] \<Longrightarrow> argv_walk (length ps + 1) (Some 0) (chain None [] ps) = Inr ps"
    using argv_walk_chain [of 0 ps "length ps + 1" "[]"] by simp
  then have "parse_cmd junk b p = Inr (cmd_words (cstr (drop p b)), b')"
    using p(1,2) c assms(1) by (cases "ps = []") simp_all
  then show ?thesis using p(3-5) by blast
qed

lemma parse_cmd_junk:
  assumes "junk 0 \<noteq> None" "0 \<in> set (drop p b)" "cmd_words (cstr (drop p b)) \<noteq> []"
  shows "\<exists>e. parse_cmd junk b p = Inl (Undef e)"
proof -
  obtain x where x: "junk 0 = Some x" using assms(1) by blast
  obtain ps b' where p: "parse_cmd junk b p =
      (if ps = [] then Inr ([], b')
       else bindE (argv_walk (length ps + 1) (Some 0) (chain (junk 0) [] ps)) (\<lambda>ptrs.
         bindE (link_clear (chain_link ([] :: nat heap) ps, chain (junk 0) [] ps)) (\<lambda>_.
         Inr (map (\<lambda>t. cstr (drop t b')) (take (length ps) ptrs), b'))))"
    "map (\<lambda>t. cstr (drop t b')) ps = cmd_words (cstr (drop p b))"
    using parse_cmd_list [OF assms(2), of junk] by blast
  obtain e where "argv_walk (length ps + 1) (Some 0) (chain (junk 0) [] ps) = Inl (Undef e)"
    using argv_walk_junk [of "length ps + 1" 0 x ps] x by auto
  moreover have "ps \<noteq> []" using p(2) assms(3) by auto
  ultimately show ?thesis using p(1) by simp
qed

text \<open>\<open>trim\<close> on a string between visible bytes, behind the blanks \<open>w\<close>.\<close>

lemma skip_space_blanks:
  assumes "\<forall>c \<in> set w. isspace c" "\<not> isspace c"
  shows "length w \<le> i + fuel \<Longrightarrow> i \<le> length w \<Longrightarrow> skip_space fuel (w @ c # r) (int i) = Inr (int (length w))"
proof (induction fuel arbitrary: i)
  case 0
  then show ?case using assms(2) by (simp add: skip_space.simps rd_def nth_append)
next
  case (Suc fuel)
  show ?case
  proof (cases "i = length w")
    case True
    then show ?thesis using assms(2) by (simp add: skip_space.simps [of "Suc fuel"] rd_def nth_append)
  next
    case False
    then have i: "i < length w" using Suc.prems by simp
    then have "isspace (w ! i)" using assms(1) by simp
    moreover have "skip_space fuel (w @ c # r) (int (i + 1)) = Inr (int (length w))" using Suc i by (intro Suc.IH) auto
    ultimately show ?thesis using i by (simp add: skip_space.simps [of "Suc fuel"] rd_def nth_append add.commute)
  qed
qed

lemma trim_ok:
  assumes "\<forall>c \<in> set w. isspace c" "0 \<notin> set s" "s \<noteq> []" "\<not> isspace (hd s)" "\<not> isspace (last s)"
  shows "trim (w @ s @ 0 # r) 0 = Inr (int (length w), w @ s @ 0 # r)"
proof -
  let ?b = "w @ s @ 0 # r"
  obtain c s' where c: "s = c # s'" using assms(3) by (cases s) auto
  then have "skip_space (length ?b) ?b 0 = Inr (int (length w))"
    using skip_space_blanks [OF assms(1), of c 0 "length ?b" "s' @ 0 # r"] assms(4) by simp
  moreover have "str_at ?b (int (length w)) = Inr s" using cstr_append [OF assms(2)] by (simp add: str_at_def)
  moreover have e: "int (length w) + int (length s) - 1 = int (length w + length s')" "length s' < length s" "last s = s ! length s'"
    using c by (simp_all add: last_conv_nth)
  then have "rd ?b (int (length w) + int (length s) - 1) = Inr (last s)"
    unfolding e(1) by (subst rd_ok) (simp_all add: nth_append)
  then have "back_space (length ?b) ?b (int (length w)) (int (length s)) = Inr (int (length s))" using assms(5) by (simp add: back_space.simps)
  moreover have "nat (int (length w) + int (length s)) = length w + length s" by simp
  then have "wr (int (length w) + int (length s)) 0 ?b = Inr ?b" by (simp add: wr_def list_update_append)
  ultimately show ?thesis by (simp add: trim_def)
qed

section \<open>Running a line\<close>

lemma search_find:
  assumes "\<forall>d \<in> set dirs. 0 \<notin> set d" "length name \<le> n" "drop k ss = map (\<lambda>d. Some (d @ [0])) dirs" "length ss = k + length dirs"
  shows "i \<le> length dirs \<Longrightarrow> length dirs - i \<le> fuel \<Longrightarrow>
    search os cwd name n p fuel (if i < length dirs then Some (length g + i) else None) (chain None g [k..<k + length dirs]) ss =
      Inr (find (os_access os cwd) (p # map (\<lambda>d. d @ [47] @ name) (drop i dirs)))"
proof (induction fuel arbitrary: i p)
  case 0
  then show ?case by (simp add: search.simps [of os cwd name n p])
next
  case (Suc fuel)
  show ?case
  proof (cases "i < length dirs")
    case False
    then show ?thesis by (simp add: search.simps [of os cwd name n p])
  next
    case True
    then have "ss ! (k + i) = Some (dirs ! i @ [0])"
      using arg_cong [OF assms(3), of "\<lambda>xs. xs ! i"] assms(4) by simp
    then have so: "str_of (k + i) ss = Inr (dirs ! i @ [0])" using True assms(4) by (simp add: str_of_def)
    have sa: "str_at (dirs ! i @ [0]) 0 = Inr (dirs ! i)"
      using cstr_append [of "dirs ! i" "[]"] assms(1) True by (simp add: str_at_def)
    note n = chain_node [of i "[k..<k + length dirs]" g None]
    have d: "drop i dirs = dirs ! i # drop (Suc i) dirs" using True by (simp add: Cons_nth_drop_Suc)
    have "search os cwd name n (dirs ! i @ [47] @ name) fuel (if i + 1 < length dirs then Some (length g + (i + 1)) else None)
        (chain None g [k..<k + length dirs]) ss =
      Inr (find (os_access os cwd) ((dirs ! i @ [47] @ name) # map (\<lambda>d. d @ [47] @ name) (drop (i + 1) dirs)))"
      using Suc.prems True by (intro Suc.IH) auto
    then show ?thesis
      using True so sa n assms(2) unfolding d
      by (cases "Suc i < length dirs") (simp_all add: search.simps [of os cwd name n p "Suc fuel"])
  qed
qed

text \<open>A line without redirection and without ampersand that starts and ends with a visible byte.\<close>

definition plain :: "uchar list \<Rightarrow> bool" where
  "plain s \<longleftrightarrow> s \<noteq> [] \<and> \<not> isspace (hd s) \<and> \<not> isspace (last s) \<and> set s \<inter> {0, NL, 38, 62} = {}"

lemma hd_strsep_words:
  assumes "s \<noteq> []" "hd s \<notin> blanks"
  shows "\<exists>w ws. cmd_words s = w # ws \<and> hd (strsep_all blanks s) = w"
proof -
  obtain c s' where s: "s = c # s'" "c \<notin> blanks" using assms by (cases s) auto
  obtain t ts where "strsep_all blanks s' = t # ts" by (cases "strsep_all blanks s'") auto
  then show ?thesis using s by (simp add: cmd_words_def)
qed

lemma parse_redirect_plain:
  assumes "plain s" "\<forall>c \<in> set w. isspace c"
  shows "parse_redirect_dest (w @ s @ 0 # r) 0 = Inr (Some None, w @ s @ 0 # r)"
proof -
  have s: "0 \<notin> set s" "s \<noteq> []" "62 \<notin> set s" "\<not> isspace (hd s)" "\<not> isspace (last s)" using assms(1) by (auto simp: plain_def)
  have "str_at (w @ s @ 0 # r) (int (length w)) = Inr s" using cstr_append [OF s(1)] by (simp add: str_at_def)
  moreover have "take 1 s \<noteq> [62]" using s(2,3) by (cases s) auto
  ultimately show ?thesis using trim_ok [OF assms(2) s(1,2,4,5), of r] s(3) by (simp add: parse_redirect_dest_def)
qed

lemma line_buffer:
  assumes "0 \<notin> set s"
  shows "run_line os (s @ [10]) sh = exec_parallel_cmd os (s @ [0, 0]) sh"
proof -
  have "0 \<notin> set (s @ [10])" using assms by simp
  from cstr_append [OF this, of "[]"] have "str_at ((s @ [10]) @ [0]) 0 = Inr (s @ [10])" by (simp add: str_at_def)
  moreover have "rd ((s @ [10]) @ [0]) (int (length (s @ [10])) - 1) = Inr 10" by (simp add: rd_def nth_append)
  moreover have "isspace 10" by (simp add: isspace_def)
  ultimately show ?thesis by (simp add: run_line_def list_update_append)
qed

lemma one_token:
  assumes "set s \<inter> {0, 38} = {}"
  shows "strsep_loop {38} n (s @ [0, 0]) 0 = Inr ([0], s @ [0, 0])"
proof -
  have "takeWhile (\<lambda>c. c \<noteq> 0 \<and> c \<notin> {38}) (s @ [0, 0]) = s" using assms by (auto simp: takeWhile_append)
  then have "token_end {38} (length (s @ [0, 0])) (s @ [0, 0]) 0 = Inr (length s)"
    using token_end_ok [of 0 "s @ [0, 0]" "length (s @ [0, 0])" "{38}"] by simp
  moreover have "rd (s @ [0, 0]) (int (length s)) = Inr 0" by (simp add: rd_ok nth_append)
  ultimately show ?thesis by (simp add: strsep_loop.simps)
qed

lemma line_single:
  assumes "set s \<inter> {0, 38} = {}" "s \<noteq> []" "\<not> exited sh"
  shows "run_line os (s @ [10]) sh =
    bindE (exec_single_cmd os (s @ [0, 0]) 0 sh) (\<lambda>(k, b, sh'). Inr (if exited sh' then sh' else perform (Wait k) sh'))"
proof -
  have "rd (s @ [0, 0]) 0 = Inr (hd s)" "hd s \<noteq> 0" using assms(1,2) by (cases s; simp add: rd_def)+
  moreover have "0 \<notin> set s" using assms(1) by simp
  ultimately show ?thesis
    unfolding line_buffer [OF \<open>0 \<notin> set s\<close>] exec_parallel_cmd_def one_token [OF assms(1)] using assms(3)
    by (cases "exec_single_cmd os (s @ [0, 0]) 0 sh") (auto split: prod.split)
qed

text \<open>The words of a plain line reach the built-in commands, and then the search.\<close>

lemma single_plain:
  assumes "plain s" "os_junk os 0 = None"
  shows "\<exists>b. 0 \<in> set b \<and> cstr b = hd (cmd_words s) \<and> cmd_words s \<noteq> [] \<and> exec_single_cmd os (s @ [0, 0]) 0 sh =
    bindE (exec_built_in_cmd os (cmd_words s) sh) (\<lambda>(res, s').
      case res of ERROR \<Rightarrow> Inr (0, b, perform PrintError s') | SUCCESS \<Rightarrow> Inr (0, b, s')
      | NOT_EXEC \<Rightarrow> bindE (run_child os (cmd_words s) (length (hd (cmd_words s))) None s') (\<lambda>c. Inr (1, b, perform (Fork c) s')))"
proof -
  have c: "cstr (drop 0 (s @ [0, 0])) = s" using assms(1) cstr_append [of s "[0]"] by (simp add: plain_def)
  obtain b where b: "parse_cmd (os_junk os) (s @ [0, 0]) 0 = Inr (cmd_words s, b)" "0 \<in> set b" "cstr b = hd (strsep_all blanks s)"
    using parse_cmd_ok [of "os_junk os" 0 "s @ [0, 0]"] assms(2) unfolding c by auto
  have "hd s \<notin> blanks" "s \<noteq> []" using assms(1) by (auto simp: plain_def blanks_def isspace_def)
  then obtain w ws where w: "cmd_words s = w # ws" "hd (strsep_all blanks s) = w" using hd_strsep_words by blast
  have "parse_redirect_dest (s @ [0, 0]) 0 = Inr (Some None, s @ [0, 0])" using parse_redirect_plain [OF assms(1), of "[]" "[0]"] by simp
  moreover have "str_at b (int 0) = Inr w" using b w by (simp add: str_at_def)
  ultimately show ?thesis using b w by (intro exI [of _ b]) (simp add: exec_single_cmd_def cong: exec_result.case_cong)
qed

text \<open>The shell as its documentation (README.html) has it: the state is the list of directories of the
  search path and the changes of directory so far, and a line changes it and causes some
  actions.  A program is looked for in the directories of the path only, \<open>cd\<close> takes one argument.\<close>

definition path_is :: "shell \<Rightarrow> uchar list list \<Rightarrow> bool" where
  "path_is sh dirs \<longleftrightarrow> (\<exists>g k. path_link sh = chain_link g [k..<k + length dirs] \<and> path_heap sh = chain None g [k..<k + length dirs] \<and>
       drop k (path_strs sh) = map (\<lambda>d. Some (d @ [0])) dirs \<and> length (path_strs sh) = k + length dirs) \<and>
     (\<forall>d \<in> set dirs. 0 \<notin> set d)"

definition spec_child :: "os \<Rightarrow> uchar list option list \<Rightarrow> uchar list list \<Rightarrow> uchar list list \<Rightarrow> child" where
  "spec_child os cwd dirs argv =
     (case find (os_access os cwd) (map (\<lambda>d. d @ [47] @ hd argv) dirs) of Some p \<Rightarrow> Execv p argv None | None \<Rightarrow> NotFound None)"

definition spec_line :: "os \<Rightarrow> uchar list \<Rightarrow> uchar list list \<Rightarrow> uchar list option list \<Rightarrow> act list \<times> uchar list list" where
  "spec_line os s dirs cwd =
     (let argv = cmd_words s in
      if hd argv = bytes ''exit'' then (if length argv > 1 then [PrintError, Wait 0] else [Exit 0], dirs)
      else if hd argv = bytes ''cd'' then
        (if length argv = 2 \<and> os_chdir os cwd (Some (argv ! 1)) then [Chdir (Some (argv ! 1)), Wait 0]
         else [PrintError, Wait 0], dirs)
      else if hd argv = bytes ''path'' then ([Wait 0], tl argv)
      else ([Fork (spec_child os cwd dirs argv), Wait 1], dirs))"

fun spec_lines :: "os \<Rightarrow> uchar list list \<Rightarrow> uchar list list \<Rightarrow> uchar list option list \<Rightarrow> act list" where
  "spec_lines os [] dirs cwd = [Exit 0]"
| "spec_lines os (s # ss) dirs cwd =
     (let (as, dirs') = spec_line os s dirs cwd
      in as @ (if Exit 0 \<in> set as then [] else spec_lines os ss dirs' (cwd @ entered as)))"

text \<open>The lines on which the code is meant to agree with it: no ampersand, no redirection, a visible
  first and last byte; no argument of \<open>path\<close> ends with a slash, \<open>cd\<close> has at most one argument, and the
  name of a program is not itself the path of an executable file.\<close>

definition line_ok :: "os \<Rightarrow> uchar list \<Rightarrow> bool" where
  "line_ok os s \<longleftrightarrow> plain s \<and>
     (let argv = cmd_words s in
      if hd argv = bytes ''exit'' then True
      else if hd argv = bytes ''cd'' then length argv \<le> 2
      else if hd argv = bytes ''path'' then (\<forall>d \<in> set (tl argv). last d \<noteq> 47)
      else (\<forall>cwd. \<not> os_access os cwd (hd argv)))"

lemma cmd_words_in: "t \<in> set (cmd_words s) \<Longrightarrow> t \<noteq> [] \<and> set t \<subseteq> set s"
  unfolding cmd_words_def using strsep_all_subset by auto

lemma plain_words:
  assumes "plain s"
  shows "cmd_words s \<noteq> []"
proof -
  have "hd s \<notin> blanks" "s \<noteq> []" using assms by (auto simp: plain_def blanks_def isspace_def)
  then show ?thesis using hd_strsep_words by fastforce
qed

lemma path_is_act [simp]: "path_is (perform a sh) dirs = path_is sh dirs"
  by (simp add: path_is_def perform_def)

lemma exited_act [simp]: "exited (perform a sh) \<longleftrightarrow> exited sh \<or> a = Exit 0"
  by (auto simp: exited_def perform_def)

lemma acts_act [simp]: "acts (perform a sh) = acts sh @ [a]"
  by (simp add: perform_def)

lemma entered_append [simp]: "entered (as @ bs) = entered as @ entered bs"
  by (induction as) (auto split: act.split)

lemma path_adds:
  "\<forall>d \<in> set ds. d \<noteq> [] \<and> last d \<noteq> 47 \<Longrightarrow> foldE (path_add junk) ds (l, h, ss) =
     bindE (foldE (link_add junk) [length ss..<length ss + length ds] (l, h)) (\<lambda>(l, h). Inr (l, h, ss @ map (\<lambda>d. Some (d @ [0])) ds))"
proof (induction ds arbitrary: l h ss)
  case (Cons d ds)
  have u: "[length ss..<length ss + length (d # ds)] = length ss # [length (ss @ [Some (d @ [0])])..<length (ss @ [Some (d @ [0])]) + length ds]"
    using upt_conv_Cons [of "length ss" "length ss + length (d # ds)"] by simp
  have "path_add junk d (l, h, ss) = bindE (link_add junk (length ss) (l, h)) (\<lambda>(l, h). Inr (l, h, ss @ [Some (d @ [0])]))"
    using Cons.prems by (simp add: path_add_def)
  then show ?case
    using Cons.IH Cons.prems unfolding u
    by (cases "link_add junk (length ss) (l, h)") (auto split: prod.split)
qed simp

lemma path_chain:
  assumes "\<forall>d \<in> set ds. d \<noteq> [] \<and> last d \<noteq> 47"
  shows "foldE (path_add junk) ds (link_init, h, ss) =
    Inr (chain_link h [length ss..<length ss + length ds], chain (junk (length h)) h [length ss..<length ss + length ds],
      ss @ map (\<lambda>d. Some (d @ [0])) ds)"
  unfolding path_adds [OF assms] link_add_all by simp

lemma path_start:
  "seush_start os = Inr \<lparr>path_link = chain_link ([] :: nat heap) [0], path_heap = chain (os_junk os 0) [] [0],
     path_strs = [Some (bytes ''/bin'' @ [0])], acts = []\<rparr>"
proof -
  have "foldE (path_add (os_junk os)) [bytes ''/bin''] (link_init, [], []) =
      Inr (chain_link ([] :: nat heap) [0], chain (os_junk os 0) [] [0], [Some (bytes ''/bin'' @ [0])])"
    using path_chain [of "[bytes ''/bin'']" "os_junk os" "[]" "[]"] by (simp add: bytes_def)
  then have "path_add (os_junk os) (bytes ''/bin'') (link_init, [], []) =
      Inr (chain_link ([] :: nat heap) [0], chain (os_junk os 0) [] [0], [Some (bytes ''/bin'' @ [0])])"
    by (cases "path_add (os_junk os) (bytes ''/bin'') (link_init, [], [])") simp_all
  then show ?thesis by (simp add: seush_start_def)
qed

lemma free_values_chain:
  "i \<le> n \<Longrightarrow> n - i \<le> fuel \<Longrightarrow> (\<And>j. i \<le> j \<Longrightarrow> j < n \<Longrightarrow> k + j < length ss \<and> ss ! (k + j) \<noteq> None) \<Longrightarrow>
   \<exists>ss'. free_values fuel (if i < n then Some (length g + i) else None) (chain None g [k..<k + n]) ss = Inr ss' \<and> length ss' = length ss"
proof (induction fuel arbitrary: i ss)
  case (Suc fuel)
  show ?case
  proof (cases "i < n")
    case True
    note m = chain_node [of i "[k..<k + n]" g None]
    obtain d where "str_of (k + i) ss = Inr d" using Suc.prems(3) [of i] True by (auto simp: str_of_def)
    moreover have "\<exists>ss'. free_values fuel (if i + 1 < n then Some (length g + (i + 1)) else None) (chain None g [k..<k + n]) (ss[k + i := None]) = Inr ss' \<and>
        length ss' = length (ss[k + i := None])"
      using Suc.prems True by (intro Suc.IH) auto
    ultimately show ?thesis using True m by auto
  qed simp
qed simp

lemma path_is_path:
  assumes "\<And>a. os_junk os a = None" "path_is sh dirs" "\<forall>d \<in> set ds. d \<noteq> [] \<and> last d \<noteq> 47 \<and> 0 \<notin> set d"
  shows "\<exists>p l h ss. path_clear (path_link sh, path_heap sh, path_strs sh) = Inr p \<and>
    foldE (path_add (os_junk os)) ds p = Inr (l, h, ss) \<and> path_is (sh\<lparr>path_link := l, path_heap := h, path_strs := ss\<rparr>) ds"
proof -
  obtain g k where p: "path_link sh = chain_link g [k..<k + length dirs]" "path_heap sh = chain None g [k..<k + length dirs]"
    "drop k (path_strs sh) = map (\<lambda>d. Some (d @ [0])) dirs" "length (path_strs sh) = k + length dirs"
    using assms(2) by (auto simp: path_is_def)
  have "path_strs sh ! (k + j) = Some (dirs ! j @ [0])" if "j < length dirs" for j
    using arg_cong [OF p(3), of "\<lambda>xs. xs ! j"] that p(4) by simp
  then obtain ss' where v: "free_values (Suc (length (path_heap sh))) (if 0 < length dirs then Some (length g + 0) else None)
      (chain None g [k..<k + length dirs]) (path_strs sh) = Inr ss'"
    using free_values_chain [of 0 "length dirs" "Suc (length (path_heap sh))" k "path_strs sh" g] p(2,4) by auto
  have hd: "head (chain_link g [k..<k + length dirs]) = (if 0 < length dirs then Some (length g + 0) else None)"
    by (simp add: chain_link_def)
  obtain h where c: "link_clear (chain_link g [k..<k + length dirs], chain None g [k..<k + length dirs]) = Inr (link_init, h)"
    using link_clear_chain [of g "[k..<k + length dirs]"] by blast
  have "path_clear (path_link sh, path_heap sh, path_strs sh) = Inr (link_init, h, ss')"
    using v c unfolding path_clear_def p(1,2) by (simp only: hd prod.case) (simp add: p(2))
  moreover have "foldE (path_add (os_junk os)) ds (link_init, h, ss') =
    Inr (chain_link h [length ss'..<length ss' + length ds], chain None h [length ss'..<length ss' + length ds],
      ss' @ map (\<lambda>d. Some (d @ [0])) ds)"
    using path_chain [of ds "os_junk os" h ss'] assms(1,3) by simp
  moreover have "path_is (sh\<lparr>path_link := chain_link h [length ss'..<length ss' + length ds],
      path_heap := chain None h [length ss'..<length ss' + length ds], path_strs := ss' @ map (\<lambda>d. Some (d @ [0])) ds\<rparr>) ds"
    using assms(3) unfolding path_is_def by (intro conjI exI [of _ h] exI [of _ "length ss'"]) auto
  ultimately show ?thesis by blast
qed

text \<open>One line: what the built-in commands and the search do is what the specification says.\<close>

lemma child_refines:
  assumes "path_is sh dirs" "argv \<noteq> []" "\<not> os_access os (entered (acts sh)) (hd argv)"
  shows "run_child os argv (length (hd argv)) None sh = Inr (spec_child os (entered (acts sh)) dirs argv)"
proof -
  obtain g k where p: "path_link sh = chain_link g [k..<k + length dirs]" "path_heap sh = chain None g [k..<k + length dirs]"
    "drop k (path_strs sh) = map (\<lambda>d. Some (d @ [0])) dirs" "length (path_strs sh) = k + length dirs" and z: "\<forall>d \<in> set dirs. 0 \<notin> set d"
    using assms(1) by (auto simp: path_is_def)
  have "head (path_link sh) = (if 0 < length dirs then Some (length g + 0) else None)" by (simp add: p(1) chain_link_def)
  moreover have "length (path_heap sh) = length g + length dirs" by (simp add: p(2))
  ultimately show ?thesis
    using search_find [OF z order.refl p(3,4), of 0 "length g + length dirs" os "entered (acts sh)" "hd argv" "hd argv" g] assms(2,3) p(2)
    by (simp add: run_child_def spec_child_def hd_conv_nth)
qed

lemma single_refines:
  assumes "line_ok os s" "\<And>a. os_junk os a = None" "\<And>cwd. \<not> os_chdir os cwd None" "path_is sh dirs" "\<not> exited sh"
  shows "\<exists>k b sh'. exec_single_cmd os (s @ [0, 0]) 0 sh = Inr (k, b, sh') \<and> path_is sh' (snd (spec_line os s dirs (entered (acts sh)))) \<and>
    acts (if exited sh' then sh' else perform (Wait k) sh') = acts sh @ fst (spec_line os s dirs (entered (acts sh)))"
proof -
  let ?a = "cmd_words s"
  have pl: "plain s" using assms(1) by (simp add: line_ok_def)
  obtain b where b: "?a \<noteq> []" "exec_single_cmd os (s @ [0, 0]) 0 sh = bindE (exec_built_in_cmd os ?a sh) (\<lambda>(res, s').
      case res of ERROR \<Rightarrow> Inr (0, b, perform PrintError s') | SUCCESS \<Rightarrow> Inr (0, b, s')
      | NOT_EXEC \<Rightarrow> bindE (run_child os ?a (length (hd ?a)) None s') (\<lambda>c. Inr (1, b, perform (Fork c) s')))"
    using single_plain [OF pl assms(2), of sh] by blast
  have h: "?a ! 0 = hd ?a" using b(1) by (simp add: hd_conv_nth)
  have ne: "bytes ''path'' \<noteq> bytes ''exit''" "bytes ''path'' \<noteq> bytes ''cd''" "bytes ''cd'' \<noteq> bytes ''exit''" by (simp_all add: bytes_def)
  consider "hd ?a = bytes ''exit''" | "hd ?a = bytes ''cd''" | "hd ?a = bytes ''path''"
    | "hd ?a \<notin> {bytes ''exit'', bytes ''cd'', bytes ''path''}" by blast
  then show ?thesis
  proof cases
    case 1
    then show ?thesis using b(2) assms(4,5) by (auto simp: spec_line_def exec_built_in_cmd_def h)
  next
    case 2
    then have "length ?a = 1 \<or> length ?a = 2" using assms(1) ne b(1) by (cases ?a) (auto simp: line_ok_def le_Suc_eq)
    then show ?thesis using 2 ne b(2) assms(3-5) by (elim disjE) (auto simp: spec_line_def exec_built_in_cmd_def h Let_def)
  next
    case 3
    have "\<forall>d \<in> set (tl ?a). d \<noteq> [] \<and> last d \<noteq> 47 \<and> 0 \<notin> set d"
      using assms(1) 3 ne cmd_words_in [of _ s] b(1) by (fastforce simp: plain_def line_ok_def dest: list.set_sel(2))
    from path_is_path [OF assms(2,4) this] obtain p l h ss where
      p: "path_clear (path_link sh, path_heap sh, path_strs sh) = Inr p" "foldE (path_add (os_junk os)) (tl ?a) p = Inr (l, h, ss)"
      "path_is (sh\<lparr>path_link := l, path_heap := h, path_strs := ss\<rparr>) (tl ?a)" by (elim exE conjE) (rule that)
    then have "exec_built_in_cmd os ?a sh = Inr (SUCCESS, sh\<lparr>path_link := l, path_heap := h, path_strs := ss\<rparr>)"
      using 3 ne h by (simp add: exec_built_in_cmd_def)
    then show ?thesis using b(2) 3 ne p(3) assms(5) by (simp add: spec_line_def exited_def)
  next
    case 4
    then have "\<not> os_access os (entered (acts sh)) (hd ?a)" using assms(1) by (simp add: line_ok_def)
    from child_refines [OF assms(4) b(1) this] show ?thesis using 4 b(2) assms(4,5)
      by (simp add: spec_line_def exec_built_in_cmd_def h)
  qed
qed

lemma line_refines:
  assumes "line_ok os s" "\<And>a. os_junk os a = None" "\<And>cwd. \<not> os_chdir os cwd None" "path_is sh dirs" "\<not> exited sh"
  shows "\<exists>sh'. run_line os (s @ [10]) sh = Inr sh' \<and> path_is sh' (snd (spec_line os s dirs (entered (acts sh)))) \<and>
    acts sh' = acts sh @ fst (spec_line os s dirs (entered (acts sh)))"
proof -
  obtain k b sh' where e: "exec_single_cmd os (s @ [0, 0]) 0 sh = Inr (k, b, sh')" "path_is sh' (snd (spec_line os s dirs (entered (acts sh))))"
    "acts (if exited sh' then sh' else perform (Wait k) sh') = acts sh @ fst (spec_line os s dirs (entered (acts sh)))"
    using single_refines [OF assms] by blast
  have "plain s" using assms(1) by (simp add: line_ok_def)
  then have "set s \<inter> {0, 38} = {}" "s \<noteq> []" by (auto simp: plain_def)
  from line_single [OF this assms(5), of os] show ?thesis using e by auto
qed

lemma lines_refine:
  assumes "\<And>a. os_junk os a = None" "\<And>cwd. \<not> os_chdir os cwd None"
  shows "\<forall>s \<in> set ss. line_ok os s \<Longrightarrow> path_is sh dirs \<Longrightarrow> \<not> exited sh \<Longrightarrow>
    \<exists>sh'. run_lines os False (map (\<lambda>s. s @ [10]) ss) sh = Inr sh' \<and> acts sh' = acts sh @ spec_lines os ss dirs (entered (acts sh))"
proof (induction ss arbitrary: sh dirs)
  case (Cons s ss)
  let ?sp = "spec_line os s dirs (entered (acts sh))"
  obtain sh1 where l: "run_line os (s @ [10]) sh = Inr sh1" "path_is sh1 (snd ?sp)" "acts sh1 = acts sh @ fst ?sp"
    using line_refines [OF _ assms] Cons.prems by (metis list.set_intros(1))
  have ex: "exited sh1 \<longleftrightarrow> Exit 0 \<in> set (fst ?sp)" using l(3) Cons.prems(3) by (simp add: exited_def)
  show ?case
  proof (cases "exited sh1")
    case True
    then show ?thesis using l ex by (simp add: case_prod_beta)
  next
    case False
    then obtain sh' where "run_lines os False (map (\<lambda>s. s @ [10]) ss) sh1 = Inr sh'"
      "acts sh' = acts sh1 @ spec_lines os ss (snd ?sp) (entered (acts sh1))"
      using Cons.IH [OF _ l(2)] Cons.prems(1) by auto
    then show ?thesis using l ex False by (simp add: case_prod_beta)
  qed
qed simp

section \<open>Batches\<close>

text \<open>Memory that is not zero where \<open>link_add\<close> leaves the field \<open>next\<close> alone, and lines that start with
  blanks.\<close>

lemma line_junk:
  assumes "plain s" "\<forall>c \<in> set w. c \<in> {32, 9}" "os_junk os 0 \<noteq> None" "\<not> exited sh"
  shows "\<exists>e. run_line os ((w @ s) @ [10]) sh = Inl (Undef e)"
proof -
  have sp: "\<forall>c \<in> set w. isspace c" using assms(2) by (auto simp: isspace_def)
  have z: "set (w @ s) \<inter> {0, 38} = {}" "w @ s \<noteq> []" using assms(1,2) by (auto simp: plain_def)
  have c: "cstr (drop 0 ((w @ s) @ [0, 0])) = w @ s" using z cstr_append [of "w @ s" "[0]"] by simp
  have "cmd_words (w @ s) = cmd_words s" using assms(2) by (induction w) (auto simp: cmd_words_def blanks_def)
  then obtain e where "parse_cmd (os_junk os) ((w @ s) @ [0, 0]) 0 = Inl (Undef e)"
    using parse_cmd_junk [of "os_junk os" 0 "(w @ s) @ [0, 0]"] assms(3) plain_words [OF assms(1)] unfolding c by auto
  then have "exec_single_cmd os ((w @ s) @ [0, 0]) 0 sh = Inl (Undef e)"
    using parse_redirect_plain [OF assms(1) sp, of "[0]"] by (simp add: exec_single_cmd_def)
  then show ?thesis using line_single [OF z assms(4), of os] by simp
qed

lemma line_blank:
  assumes "plain s" "\<forall>c \<in> set w. c \<in> {32, 9}" "w \<noteq> []" "os_junk os 0 = None" "path_is sh (d # dirs)" "\<not> exited sh"
    "hd (cmd_words s) \<notin> {bytes ''exit'', bytes ''cd'', bytes ''path''}" "\<not> os_access os (entered (acts sh)) (hd (cmd_words s))"
  shows "run_line os ((w @ s) @ [10]) sh = Inl (Undef ''heap overflow'')"
proof -
  let ?a = "cmd_words s"
  have sp: "\<forall>c \<in> set w. isspace c" using assms(2) by (auto simp: isspace_def)
  have z: "set (w @ s) \<inter> {0, 38} = {}" "w @ s \<noteq> []" using assms(1,2) by (auto simp: plain_def)
  have c: "cstr (drop 0 ((w @ s) @ [0, 0])) = w @ s" using z cstr_append [of "w @ s" "[0]"] by simp
  have cw: "cmd_words (w @ s) = ?a" using assms(2) by (induction w) (auto simp: cmd_words_def blanks_def)
  obtain x w' where w: "w = x # w'" "x \<in> blanks" using assms(2,3) by (cases w) (auto simp: blanks_def)
  obtain b where b: "parse_cmd (os_junk os) ((w @ s) @ [0, 0]) 0 = Inr (?a, b)" "0 \<in> set b" "cstr b = []"
    using parse_cmd_ok [of "os_junk os" 0 "(w @ s) @ [0, 0]"] assms(4) w unfolding c cw by auto
  have a: "?a \<noteq> []" "?a ! 0 = hd ?a" "hd ?a \<noteq> []"
    using plain_words [OF assms(1)] cmd_words_in [of "hd ?a" s] by (simp_all add: hd_conv_nth)
  obtain g k where p: "path_link sh = chain_link g [k..<k + length (d # dirs)]" "path_heap sh = chain None g [k..<k + length (d # dirs)]"
    "drop k (path_strs sh) = map (\<lambda>d. Some (d @ [0])) (d # dirs)" "length (path_strs sh) = k + length (d # dirs)" "0 \<notin> set d"
    using assms(5) unfolding path_is_def by force
  have "path_strs sh ! k = Some (d @ [0])" using arg_cong [OF p(3), of "\<lambda>xs. xs ! 0"] p(4) by simp
  then have so: "str_of k (path_strs sh) = Inr (d @ [0])" using p(4) by (simp add: str_of_def)
  have sa: "str_at (d @ [0]) 0 = Inr d" using cstr_append [of d "[]"] p(5) by (simp add: str_at_def)
  have n: "node_at (length g) (path_heap sh) = Inr \<lparr>nvalue = k, nxt = (if dirs = [] then None else Some (length g + 1))\<rparr>"
    using chain_node [of 0 "[k..<k + length (d # dirs)]" g None] nth_upt [of k 0 "k + length (d # dirs)"] p(2)
    by (cases dirs) (simp_all del: upt_Suc)
  have "search os (entered (acts sh)) (hd ?a) 0 (hd ?a) (length (path_heap sh)) (head (path_link sh)) (path_heap sh) (path_strs sh) =
      Inl (Undef ''heap overflow'')"
    using so sa n a(3) assms(8) p(1,2)
    by (cases "length (path_heap sh)") (simp_all add: search.simps [of os _ _ _ "hd ?a"] chain_link_def)
  then have "run_child os ?a 0 None sh = Inl (Undef ''heap overflow'')" using a(2) by (simp add: run_child_def)
  moreover have "exec_built_in_cmd os ?a sh = Inr (NOT_EXEC, sh)" using assms(7) a(2) by (simp add: exec_built_in_cmd_def)
  moreover have "str_at b 0 = Inr []" using b(2,3) by (simp add: str_at_def)
  ultimately have "exec_single_cmd os ((w @ s) @ [0, 0]) 0 sh = Inl (Undef ''heap overflow'')"
    using parse_redirect_plain [OF assms(1) sp, of "[0]"] b(1) a(1) by (simp add: exec_single_cmd_def)
  then show ?thesis using line_single [OF z assms(6), of os] by simp
qed

text \<open>C12: In batch mode, the shell refines an interpreter written from its documentation exactly as far
  as uninitialised memory lets it.  Take a file whose lines are plain (no ampersand and no
  redirection, a visible first and last byte), in which no argument of \<open>path\<close> ends with a slash,
  \<open>cd\<close> has at most one argument and no program is named by its own path.  If fresh memory is
  always zero where the nodes of the lists are allocated, the run is that of the interpreter:
  \<open>path\<close> replaces the directories, \<open>cd\<close> changes the directory or is an error, every other command
  runs the first executable in the directories of the path, with its words as arguments,
  until \<open>exit\<close> or the end of the file.  If the memory of the first node is not zero, the first
  line already has undefined behaviour.  \<open>chdir\<close> of a null pointer fails.\<close>

theorem seush_refines:
  assumes "\<forall>s \<in> set ss. line_ok os s" "\<And>cwd. \<not> os_chdir os cwd None" "fs f = Some (concat (map (\<lambda>s. s @ [NL]) ss))"
  shows "((\<forall>a. os_junk os a = None) \<longrightarrow> seush os fs inp [f] = Inr (spec_lines os ss [bytes ''/bin''] [])) \<and>
    (os_junk os 0 \<noteq> None \<and> ss \<noteq> [] \<longrightarrow> (\<exists>e. seush os fs inp [f] = Inl (Undef e)))"
proof -
  let ?sh = "\<lparr>path_link = chain_link ([] :: nat heap) [0], path_heap = chain (os_junk os 0) [] [0],
     path_strs = [Some (bytes ''/bin'' @ [0])], acts = []\<rparr>"
  have "\<not> exited ?sh" by (simp add: exited_def)
  have "file_lines (concat (map (\<lambda>s. s @ [NL]) ss)) = map (\<lambda>s. s @ [10]) ss"
    using file_lines_concat [of ss] assms(1) by (simp add: line_ok_def plain_def)
  then have r: "seush os fs inp [f] = bindE (run_lines os False (map (\<lambda>s. s @ [10]) ss) ?sh) (\<lambda>s. Inr (acts s))"
    using assms(3) by (simp add: seush_def path_start)
  have "seush os fs inp [f] = Inr (spec_lines os ss [bytes ''/bin''] [])" if "\<forall>a. os_junk os a = None"
  proof -
    have "path_is ?sh [bytes ''/bin'']"
      using that unfolding path_is_def by (intro conjI exI [of _ "[]"] exI [of _ 0]) (auto simp: bytes_def)
    from lines_refine [OF _ assms(2,1) this \<open>\<not> exited ?sh\<close>] that r show ?thesis by auto
  qed
  moreover have "\<exists>e. seush os fs inp [f] = Inl (Undef e)" if j: "os_junk os 0 \<noteq> None" and ne: "ss \<noteq> []"
  proof -
    obtain s ts where ss: "ss = s # ts" using ne by (cases ss) auto
    then have "plain s" using assms(1) by (simp add: line_ok_def)
    from line_junk [OF this _ j \<open>\<not> exited ?sh\<close>, of "[]"] r ss show ?thesis by auto
  qed
  ultimately show ?thesis by blast
qed

theorem seush_refines_witness:
  "let os = \<lparr>os_access = (\<lambda>cwd p. p = bytes ''/opt/ls'' \<and> cwd = [Some (bytes ''/tmp'')]), os_chdir = (\<lambda>_ d. d \<noteq> None), os_junk = (\<lambda>_. None)\<rparr>;
       ss = [bytes ''path /usr /opt'', bytes ''cd /tmp'', bytes ''ls -l'', bytes ''exit'']
   in seush os [''batch'' \<mapsto> concat (map (\<lambda>s. s @ [NL]) ss)] [] [''batch''] =
     Inr [Wait 0, Chdir (Some (bytes ''/tmp'')), Wait 0, Fork (Execv (bytes ''/opt/ls'') [bytes ''ls'', bytes ''-l''] None), Wait 1, Exit 0] \<and>
     (\<exists>e. seush (os\<lparr>os_junk := (\<lambda>_. Some 7)\<rparr>) [''batch'' \<mapsto> concat (map (\<lambda>s. s @ [NL]) ss)] [] [''batch''] = Inl (Undef e))"
proof -
  let ?os = "\<lparr>os_access = (\<lambda>cwd p. p = bytes ''/opt/ls'' \<and> cwd = [Some (bytes ''/tmp'')]), os_chdir = (\<lambda>_ d. d \<noteq> None), os_junk = (\<lambda>_. None)\<rparr>"
  let ?ss = "[bytes ''path /usr /opt'', bytes ''cd /tmp'', bytes ''ls -l'', bytes ''exit'']"
  have w: "map cmd_words ?ss = [[bytes ''path'', bytes ''/usr'', bytes ''/opt''], [bytes ''cd'', bytes ''/tmp''], [bytes ''ls'', bytes ''-l''], [bytes ''exit'']]"
    by code_simp
  have "list_all plain ?ss" by code_simp
  then have ok: "\<forall>s \<in> set ?ss. line_ok (?os\<lparr>os_junk := j\<rparr>) s" for j
    using w by (simp add: line_ok_def) (simp add: bytes_def)
  have "spec_lines ?os ?ss [bytes ''/bin''] [] =
      [Wait 0, Chdir (Some (bytes ''/tmp'')), Wait 0, Fork (Execv (bytes ''/opt/ls'') [bytes ''ls'', bytes ''-l''] None), Wait 1, Exit 0]"
    by code_simp
  then show ?thesis
    using seush_refines [OF ok [of "\<lambda>_. None"], of "[''batch'' \<mapsto> concat (map (\<lambda>s. s @ [NL]) ?ss)]" "''batch''" "[]"]
      seush_refines [OF ok [of "\<lambda>_. Some 7"], of "[''batch'' \<mapsto> concat (map (\<lambda>s. s @ [NL]) ?ss)]" "''batch''" "[]"]
    by (simp add: Let_def)
qed

text \<open>C39: White space in front of a command breaks the shell, whatever fresh memory holds: when the first
  line of a batch is a plain line behind blanks or tabs and its command is not built in and
  not the path of an executable file, the run has undefined behaviour; on zeroed memory it
  writes past the end of the buffer for the first candidate path.\<close>

theorem leading_blank_overflows:
  assumes "plain s" "w \<noteq> []" "\<forall>c \<in> set w. c \<in> {32, 9}" "hd (cmd_words s) \<notin> {bytes ''exit'', bytes ''cd'', bytes ''path''}"
    "\<not> os_access os [] (hd (cmd_words s))" "\<forall>t \<in> set ts. NL \<notin> set t" "fs f = Some (concat (map (\<lambda>s. s @ [NL]) ((w @ s) # ts)))"
  shows "\<exists>e. seush os fs inp [f] = Inl (Undef e) \<and> (os_junk os 0 = None \<longrightarrow> e = ''heap overflow'')"
proof -
  let ?sh = "\<lparr>path_link = chain_link ([] :: nat heap) [0], path_heap = chain (os_junk os 0) [] [0],
     path_strs = [Some (bytes ''/bin'' @ [0])], acts = []\<rparr>"
  have ex: "\<not> exited ?sh" by (simp add: exited_def)
  have "NL \<notin> set w" using assms(3) by force
  moreover have "NL \<notin> set s" using assms(1) by (simp add: plain_def)
  ultimately have "NL \<notin> set (w @ s)" by simp
  then have "file_lines (concat (map (\<lambda>s. s @ [NL]) ((w @ s) # ts))) = map (\<lambda>s. s @ [10]) ((w @ s) # ts)"
    using file_lines_concat [of "(w @ s) # ts"] assms(6) by simp
  then have r: "seush os fs inp [f] = bindE (run_lines os False (map (\<lambda>s. s @ [10]) ((w @ s) # ts)) ?sh) (\<lambda>s. Inr (acts s))"
    using assms(7) by (simp add: seush_def path_start)
  obtain e where e: "run_line os ((w @ s) @ [10]) ?sh = Inl (Undef e)" "os_junk os 0 = None \<longrightarrow> e = ''heap overflow''"
  proof (cases "os_junk os 0 = None")
    case True
    then have "path_is ?sh [bytes ''/bin'']"
      unfolding path_is_def by (intro conjI exI [of _ "[]"] exI [of _ 0]) (auto simp: bytes_def)
    from line_blank [OF assms(1,3,2) True this ex assms(4)] assms(5) that [of "''heap overflow''"] show ?thesis by simp
  next
    case False
    from line_junk [OF assms(1,3) False ex] obtain e where je: "run_line os ((w @ s) @ [10]) ?sh = Inl (Undef e)" by (rule exE)
    show ?thesis by (rule that [OF je]) (use False in auto)
  qed
  have "seush os fs inp [f] = Inl (Undef e)" unfolding r using e(1) by simp
  with e(2) show ?thesis by (intro exI [of _ e] conjI)
qed

theorem leading_blank_overflows_witness:
  "let os = \<lparr>os_access = (\<lambda>_ _. False), os_chdir = (\<lambda>_ d. d \<noteq> None), os_junk = (\<lambda>_. None)\<rparr>
   in seush os [''batch'' \<mapsto> bytes '' ls -l'' @ [NL]] [] [''batch''] = Inl (Undef ''heap overflow'')"
proof -
  let ?os = "\<lparr>os_access = (\<lambda>_ _. False), os_chdir = (\<lambda>_ d. d \<noteq> None), os_junk = (\<lambda>_. None)\<rparr>"
  have "plain (bytes ''ls -l'')" "hd (cmd_words (bytes ''ls -l'')) \<notin> {bytes ''exit'', bytes ''cd'', bytes ''path''}" by code_simp+
  then show ?thesis
    using leading_blank_overflows [of "bytes ''ls -l''" "[32]" ?os "[]" "[''batch'' \<mapsto> bytes '' ls -l'' @ [NL]]" "''batch''" "[]"]
    by (simp add: bytes_def)
qed

text \<open>Further lines on which the shell leaves its buffers on zeroed memory: the second command of
  \<open>a & b\<close>, a line of blanks, which reads in front of the line, and a command after \<open>path /bin/\<close>, whose
  directory has no zero byte.  A second argument of \<open>cd\<close> is ignored, and with an empty path a
  program in the working directory still runs.\<close>

lemma seush_overflows:
  "let os = \<lparr>os_access = (\<lambda>_ _. False), os_chdir = (\<lambda>_ d. d \<noteq> None), os_junk = (\<lambda>_. None)\<rparr>; batch = (\<lambda>s. [''batch'' \<mapsto> bytes s @ [NL]])
   in seush os (batch ''ls & ls'') [] [''batch''] = Inl (Undef ''heap overflow'') \<and>
      seush os (batch ''   '') [] [''batch''] = Inl (Undef ''read outside the buffer'') \<and>
      seush os [''batch'' \<mapsto> bytes ''path /bin/'' @ [NL] @ bytes ''ls'' @ [NL]] [] [''batch''] = Inl (Undef ''unterminated string'')"
  by code_simp

lemma seush_undocumented:
  "let os = \<lparr>os_access = (\<lambda>_ p. p = bytes ''main''), os_chdir = (\<lambda>_ d. d \<noteq> None), os_junk = (\<lambda>_. None)\<rparr>
   in seush os [''batch'' \<mapsto> bytes ''cd a b'' @ [NL]] [] [''batch''] = Inr [Chdir (Some (bytes ''a'')), Wait 0, Exit 0] \<and>
      seush os [''batch'' \<mapsto> bytes ''path'' @ [NL] @ bytes ''main'' @ [NL]] [] [''batch''] =
        Inr [Wait 0, Fork (Execv (bytes ''main'') [bytes ''main''] None), Wait 1, Exit 0]"
  by code_simp

end
