(* ===== verification/User_Sh.thy ===== *)
theory User_Sh
  imports C_Stdio
begin

text \<open>
  The shell of xv6 (sh.c).  The line is a C string \<open>s\<close> and a pointer into it is an index; its end
  \<open>es\<close> is \<open>length s\<close>.  A command tree carries at its leaves the strings as the parser has them,
  pairs of a start and an end pointer, and after \<open>nulterminate\<close> the strings themselves; the
  type has a parameter for them.  A call of \<open>panic\<close>, which ends the process, is an error value.
\<close>

section \<open>Commands\<close>

definition MAXARGS :: nat where "MAXARGS = 10"

definition O_RDONLY :: int where "O_RDONLY = 0"
definition O_WRONLY_CREATE :: int where "O_WRONLY_CREATE = 0x201"

datatype 'a cmd =
    EXEC "'a list"
  | REDIR "'a cmd" 'a int nat
  | PIPE "'a cmd" "'a cmd"
  | LIST "'a cmd" "'a cmd"
  | BACK "'a cmd"

type_synonym tok = "nat \<times> nat"

text \<open>\<open>cmd->argv[argc] = q\<close> where \<open>cmd\<close> is the command that the redirections in \<open>ret\<close> end in.\<close>

fun add_arg :: "'a \<Rightarrow> 'a cmd \<Rightarrow> 'a cmd" where
  "add_arg a (EXEC as) = EXEC (as @ [a])"
| "add_arg a (REDIR c f m d) = REDIR (add_arg a c) f m d"
| "add_arg a c = c"

section \<open>Tokens\<close>

definition whitespace :: "uchar list" where "whitespace = [32, 9, 13, 10, 11]"
definition symbols :: "uchar list" where "symbols = [60, 124, 62, 38, 59, 40, 41]"

text \<open>\<open>*s\<close>, with the zero byte at the end.\<close>

definition char_at :: "uchar list \<Rightarrow> nat \<Rightarrow> uchar res" where
  "char_at s p = (if p < length s then Inr (s ! p) else if p = length s then Inr 0 else Inl (Undef ''read outside the buffer''))"

definition skip_white :: "uchar list \<Rightarrow> nat \<Rightarrow> nat" where
  "skip_white s p = p + length (takeWhile (\<lambda>c. c \<in> set whitespace) (drop p s))"

definition skip_word :: "uchar list \<Rightarrow> nat \<Rightarrow> nat" where
  "skip_word s p = p + length (takeWhile (\<lambda>c. c \<notin> set whitespace \<and> c \<notin> set symbols) (drop p s))"

text \<open>The token, its start and end, and the new position.\<close>

definition gettoken :: "uchar list \<Rightarrow> nat \<Rightarrow> (uchar \<times> nat \<times> nat \<times> nat) res" where
  "gettoken s ps =
     (let q = skip_white s ps in
      bindE (char_at s q) (\<lambda>c.
      bindE
       (if c = 0 then Inr (0, q)
        else if c \<in> {124, 40, 41, 59, 38, 60} then Inr (c, q + 1)
        else if c = 62 then bindE (char_at s (q + 1)) (\<lambda>d. if d = 62 then Inr (43, q + 2) else Inr (62, q + 1))
        else Inr (97, skip_word s q))
       (\<lambda>(ret, eq). Inr (ret, q, eq, skip_white s eq))))"

definition peek :: "uchar list \<Rightarrow> nat \<Rightarrow> uchar list \<Rightarrow> (bool \<times> nat) res" where
  "peek s ps toks = (let p = skip_white s ps in bindE (char_at s p) (\<lambda>c. Inr (c \<noteq> 0 \<and> c \<in> set toks, p)))"

lemma skip_white_le: "p \<le> skip_white s p"
  by (simp add: skip_white_def)

lemma skip_white_bound: "p \<le> length s \<Longrightarrow> skip_white s p \<le> length s"
  using length_takeWhile_le [of "\<lambda>c. c \<in> set whitespace" "drop p s"] by (auto simp: skip_white_def)

lemma skip_word_bound: "p \<le> length s \<Longrightarrow> skip_word s p \<le> length s"
  using length_takeWhile_le [of "\<lambda>c. c \<notin> set whitespace \<and> c \<notin> set symbols" "drop p s"] by (auto simp: skip_word_def)

lemma char_at_Inr: "char_at s p = Inr c \<Longrightarrow> c \<noteq> 0 \<Longrightarrow> p < length s \<and> s ! p = c"
  by (auto simp: char_at_def split: if_splits)

lemma skip_white_stop: "skip_white s p < length s \<Longrightarrow> s ! skip_white s p \<notin> set whitespace"
  using nth_length_takeWhile [of "\<lambda>c. c \<in> set whitespace" "drop p s"] by (auto simp: skip_white_def)

lemma skip_word_less:
  assumes "q < length s" "s ! q \<notin> set whitespace" "s ! q \<notin> set symbols"
  shows "q < skip_word s q"
  using assms by (auto simp: skip_word_def Cons_nth_drop_Suc [symmetric])

text \<open>A token that is not the end of the line moves the position.\<close>

lemma gettoken_progress:
  assumes "gettoken s p = Inr (t, q, eq, p')"
  shows "p \<le> q \<and> q \<le> eq \<and> eq \<le> p' \<and> (t \<noteq> 0 \<longrightarrow> q < eq \<and> q < length s)"
proof -
  let ?q = "skip_white s p"
  obtain c where c: "char_at s ?q = Inr c" using assms by (auto simp: gettoken_def Let_def)
  have "?q < skip_word s ?q" if "c \<noteq> 0" "c \<notin> {124, 40, 41, 59, 38, 60}" "c \<noteq> 62"
    using char_at_Inr [OF c that(1)] skip_white_stop [of s p] that(2,3) by (intro skip_word_less) (auto simp: symbols_def)
  then show ?thesis using assms c skip_white_le [of p s] skip_white_le [of _ s] char_at_Inr [OF c]
    by (auto simp: gettoken_def Let_def split: if_splits intro: less_imp_le)
qed

lemma gettoken_moves:
  assumes "gettoken s p = Inr (t, q, eq, p')"
  shows "p \<le> p' \<and> (p < length s \<longrightarrow> s ! p \<noteq> 0 \<longrightarrow> p < p')"
proof -
  have "p < p'" if "p < length s" "s ! p \<noteq> 0"
  proof (cases "s ! p \<in> set whitespace")
    case True
    then have "p < skip_white s p" using that(1) by (simp add: skip_white_def Cons_nth_drop_Suc [symmetric])
    also have "skip_white s p = q" using assms by (auto simp: gettoken_def Let_def)
    finally show ?thesis using gettoken_progress [OF assms] by linarith
  next
    case False
    then have "skip_white s p = p" using that(1) by (simp add: skip_white_def Cons_nth_drop_Suc [symmetric])
    then have "t \<noteq> 0" using assms that by (auto simp: gettoken_def Let_def char_at_def split: if_splits)
    then show ?thesis using gettoken_progress [OF assms] by linarith
  qed
  then show ?thesis using gettoken_progress [OF assms] by auto
qed

lemma peek_progress: "peek s p ts = Inr (y, p') \<Longrightarrow> p \<le> p' \<and> (y \<longrightarrow> p' < length s \<and> s ! p' \<noteq> 0)"
  using skip_white_le [of p s] by (auto simp: peek_def Let_def dest: char_at_Inr)

section \<open>The parser\<close>

function parseredirs :: "uchar list \<Rightarrow> tok cmd \<Rightarrow> nat \<Rightarrow> (tok cmd \<times> nat) res" where
  "parseredirs s c ps =
     bindE (peek s ps [60, 62]) (\<lambda>(y, ps).
     if \<not> y then Inr (c, ps)
     else bindE (gettoken s ps) (\<lambda>(t, _, _, ps).
       bindE (gettoken s ps) (\<lambda>(t', q, eq, ps).
       if t' \<noteq> 97 then panic ''missing file for redirection''
       else parseredirs s
         (if t = 60 then REDIR c (q, eq) O_RDONLY 0
          else if t = 62 then REDIR c (q, eq) O_WRONLY_CREATE 1
          else if t = 43 then REDIR c (q, eq) O_WRONLY_CREATE 1
          else c) ps)))"
  by pat_completeness auto
termination by (relation "measure (\<lambda>(s, c, ps). length s - ps)") (auto dest!: peek_progress gettoken_progress)

declare parseredirs.simps [simp del]

lemma parseredirs_le: "parseredirs s c p = Inr (c', p') \<Longrightarrow> p \<le> p'"
proof (induction s c p rule: parseredirs.induct)
  case (1 s c ps)
  obtain y p1 where y: "peek s ps [60, 62] = Inr (y, p1)" using "1.prems" by (subst (asm) parseredirs.simps) auto
  show ?case
  proof (cases y)
    case False
    then show ?thesis using "1.prems" y peek_progress [OF y] by (subst (asm) parseredirs.simps) simp
  next
    case True
    obtain t q1 e1 p2 t' q eq p3 where g: "gettoken s p1 = Inr (t, q1, e1, p2)" "gettoken s p2 = Inr (t', q, eq, p3)" "t' = 97"
      using "1.prems" y True by (subst (asm) parseredirs.simps) (auto split: if_splits)
    have "p3 \<le> p'" by (rule "1.IH" [OF y refl _ g(1) refl refl refl g(2) refl refl refl])
        (use "1.prems" y True g in \<open>(subst (asm) parseredirs.simps, simp)+\<close>)
    then show ?thesis using gettoken_progress [OF g(1)] gettoken_progress [OF g(2)] peek_progress [OF y] by linarith
  qed
qed

function parseargs :: "uchar list \<Rightarrow> nat \<Rightarrow> tok cmd \<Rightarrow> nat \<Rightarrow> (tok cmd \<times> nat) res" where
  "parseargs s argc ret ps =
     bindE (peek s ps [124, 41, 38, 59]) (\<lambda>(y, ps).
     if y then Inr (ret, ps)
     else bindE (gettoken s ps) (\<lambda>(t, q, eq, ps).
       if t = 0 then Inr (ret, ps)
       else if t \<noteq> 97 then panic ''syntax''
       else if argc + 1 \<ge> MAXARGS then panic ''too many args''
       else bindE (parseredirs s (add_arg (q, eq) ret) ps) (\<lambda>(ret, ps). parseargs s (argc + 1) ret ps)))"
  by pat_completeness auto
termination by (relation "measure (\<lambda>(s, argc, ret, ps). length s - ps)") (auto dest!: peek_progress gettoken_progress parseredirs_le)

declare parseargs.simps [simp del]

function parseamps :: "uchar list \<Rightarrow> tok cmd \<Rightarrow> nat \<Rightarrow> (tok cmd \<times> nat) res" where
  "parseamps s c ps =
     bindE (peek s ps [38]) (\<lambda>(y, ps).
     if \<not> y then Inr (c, ps)
     else bindE (gettoken s ps) (\<lambda>(_, _, _, ps). parseamps s (BACK c) ps))"
  by pat_completeness auto
termination by (relation "measure (\<lambda>(s, c, ps). length s - ps)") (auto dest!: peek_progress gettoken_moves)

declare parseamps.simps [simp del]

text \<open>The recursion through blocks is bounded by fuel; \<open>parse_fuel\<close> below shows that \<open>parsecmd\<close> has
  enough of it on every line.\<close>

fun parseline :: "nat \<Rightarrow> uchar list \<Rightarrow> nat \<Rightarrow> (tok cmd \<times> nat) res"
and parsepipe :: "nat \<Rightarrow> uchar list \<Rightarrow> nat \<Rightarrow> (tok cmd \<times> nat) res"
and parseblock :: "nat \<Rightarrow> uchar list \<Rightarrow> nat \<Rightarrow> (tok cmd \<times> nat) res"
and parseexec :: "nat \<Rightarrow> uchar list \<Rightarrow> nat \<Rightarrow> (tok cmd \<times> nat) res" where
  "parseline 0 s ps = Inl (Block ''parse'')"
| "parseline (Suc n) s ps =
     bindE (parsepipe n s ps) (\<lambda>(c, ps).
     bindE (parseamps s c ps) (\<lambda>(c, ps).
     bindE (peek s ps [59]) (\<lambda>(y, ps).
     if y then
       bindE (gettoken s ps) (\<lambda>(_, _, _, ps).
       bindE (parseline n s ps) (\<lambda>(r, ps). Inr (LIST c r, ps)))
     else Inr (c, ps))))"
| "parsepipe 0 s ps = Inl (Block ''parse'')"
| "parsepipe (Suc n) s ps =
     bindE (parseexec n s ps) (\<lambda>(c, ps).
     bindE (peek s ps [124]) (\<lambda>(y, ps).
     if y then
       bindE (gettoken s ps) (\<lambda>(_, _, _, ps).
       bindE (parsepipe n s ps) (\<lambda>(r, ps). Inr (PIPE c r, ps)))
     else Inr (c, ps)))"
| "parseblock 0 s ps = Inl (Block ''parse'')"
| "parseblock (Suc n) s ps =
     bindE (peek s ps [40]) (\<lambda>(y, ps).
     if \<not> y then panic ''parseblock''
     else bindE (gettoken s ps) (\<lambda>(_, _, _, ps).
       bindE (parseline n s ps) (\<lambda>(c, ps).
       bindE (peek s ps [41]) (\<lambda>(y, ps).
       if \<not> y then panic ''syntax - missing )''
       else bindE (gettoken s ps) (\<lambda>(_, _, _, ps). parseredirs s c ps)))))"
| "parseexec 0 s ps = Inl (Block ''parse'')"
| "parseexec (Suc n) s ps =
     bindE (peek s ps [40]) (\<lambda>(y, ps).
     if y then parseblock n s ps
     else bindE (parseredirs s (EXEC []) ps) (\<lambda>(ret, ps). parseargs s 0 ret ps))"

text \<open>The end pointers become zero bytes.\<close>

definition set_nul :: "tok \<Rightarrow> uchar list \<Rightarrow> uchar list res" where
  "set_nul t b = (if snd t < length b then Inr (b[snd t := 0]) else Inl (Undef ''write outside the buffer''))"

fun nulterminate :: "tok cmd \<Rightarrow> uchar list \<Rightarrow> uchar list res" where
  "nulterminate (EXEC args) b = foldE set_nul args b"
| "nulterminate (REDIR c f m d) b = bindE (nulterminate c b) (set_nul f)"
| "nulterminate (PIPE l r) b = bindE (nulterminate l b) (nulterminate r)"
| "nulterminate (LIST l r) b = bindE (nulterminate l b) (nulterminate r)"
| "nulterminate (BACK c) b = nulterminate c b"

text \<open>The command with its strings as they stand in the buffer at the end.\<close>

definition parsecmd :: "uchar list \<Rightarrow> uchar list cmd res" where
  "parsecmd s =
     bindE (parseline (4 * length s + 4) s 0) (\<lambda>(c, ps).
     bindE (peek s ps []) (\<lambda>(_, ps).
     if ps \<noteq> length s then panic ''syntax''
     else bindE (nulterminate c (s @ [0])) (\<lambda>b. Inr (map_cmd (\<lambda>(q, _). cstr (drop q b)) c))))"

text \<open>What \<open>parsecmd\<close> prints before it panics over the rest of a line.\<close>

definition leftovers :: "uchar list \<Rightarrow> uchar list" where
  "leftovers s =
     (case bindE (parseline (4 * length s + 4) s 0) (\<lambda>(_, ps). peek s ps []) of
        Inr (_, ps) \<Rightarrow> if ps \<noteq> length s then bytes ''leftovers: '' @ drop ps s @ [10] else []
      | Inl _ \<Rightarrow> [])"

section \<open>Running commands\<close>

text \<open>Open files of a process are a table of descriptors, of which a new one is the lowest that is
  free.  What \<open>open\<close> and \<open>exec\<close> answer, and whether the \<open>k\<close>-th \<open>fork\<close> succeeds, are parameters.\<close>

datatype 'h opened = Opened 'h | RdEnd nat | WrEnd nat

type_synonym 'h fds = "'h opened option list"

record 'h os =
  os_open :: "uchar list \<Rightarrow> int \<Rightarrow> 'h option"
  os_exec :: "uchar list \<Rightarrow> bool"
  os_fork :: "nat \<Rightarrow> bool"
  os_chdir :: "uchar list \<Rightarrow> bool"

definition fd_alloc :: "'h opened option \<Rightarrow> 'h fds \<Rightarrow> (nat \<times> 'h fds) option" where
  "fd_alloc h t = (let i = length (takeWhile (\<lambda>x. x \<noteq> None) t) in if i < length t then Some (i, t[i := h]) else None)"

definition fd_close :: "nat \<Rightarrow> 'h fds \<Rightarrow> 'h fds" where
  "fd_close i t = t[i := None]"

definition fd_dup :: "nat \<Rightarrow> 'h fds \<Rightarrow> 'h fds" where
  "fd_dup i t = (case fd_alloc (t ! i) t of Some (_, t) \<Rightarrow> t | None \<Rightarrow> t)"

text \<open>What a process does, with the processes it forks inside.  \<open>Exec\<close> and \<open>Wait\<close> carry the descriptors
  that the process has open then.\<close>

datatype 'h step = Exec "uchar list list" "'h fds" | Print "uchar list" | Fork "'h step list" | Wait "'h fds" | Exit | Chdir "uchar list"

definition sh_panic :: "string \<Rightarrow> 'h step list" where
  "sh_panic m = [Print (bytes m @ [10]), Exit]"

text \<open>The number counts forks and pipes.  The list ends with the process: \<open>runcmd\<close> never returns.\<close>

fun runcmd :: "'h os \<Rightarrow> uchar list cmd \<Rightarrow> 'h fds \<Rightarrow> nat \<Rightarrow> 'h step list \<times> nat" where
  "runcmd os (EXEC argv) t k =
     (case argv of [] \<Rightarrow> ([Exit], k)
      | a # _ \<Rightarrow> (Exec argv t # (if os_exec os a then [] else [Print (bytes ''exec '' @ a @ bytes '' failed'' @ [10]), Exit]), k))"
| "runcmd os (REDIR c f m d) t k =
     (let t = fd_close d t in
      case os_open os f m of None \<Rightarrow> ([Print (bytes ''open '' @ f @ bytes '' failed'' @ [10]), Exit], k)
      | Some h \<Rightarrow> (case fd_alloc (Some (Opened h)) t of
          None \<Rightarrow> ([Print (bytes ''open '' @ f @ bytes '' failed'' @ [10]), Exit], k)
        | Some (_, t) \<Rightarrow> runcmd os c t k))"
| "runcmd os (LIST l r) t k =
     (if \<not> os_fork os k then (sh_panic ''fork'', k + 1)
      else let (x, k) = runcmd os l t (k + 1); (y, k) = runcmd os r t k in (Fork x # Wait t # y, k))"
| "runcmd os (PIPE l r) t k =
     (case fd_alloc (Some (RdEnd k)) t of None \<Rightarrow> (sh_panic ''pipe'', k + 1)
      | Some (p0, t) \<Rightarrow> (case fd_alloc (Some (WrEnd k)) t of None \<Rightarrow> (sh_panic ''pipe'', k + 1)
        | Some (p1, t) \<Rightarrow>
            if \<not> os_fork os (k + 1) then (sh_panic ''fork'', k + 2)
            else let (x, k) = runcmd os l (fd_close p1 (fd_close p0 (fd_dup p1 (fd_close 1 t)))) (k + 2) in
              if \<not> os_fork os k then (Fork x # sh_panic ''fork'', k + 1)
              else let (y, k) = runcmd os r (fd_close p1 (fd_close p0 (fd_dup p0 (fd_close 0 t)))) (k + 1)
                in let t = fd_close p1 (fd_close p0 t) in ([Fork x, Fork y, Wait t, Wait t, Exit], k)))"
| "runcmd os (BACK c) t k =
     (if \<not> os_fork os k then (sh_panic ''fork'', k + 1)
      else let (x, k) = runcmd os c t (k + 1) in ([Fork x, Exit], k))"

section \<open>The main loop\<close>

text \<open>\<open>gets(buf, 100)\<close>: up to 99 bytes, ending with a newline or carriage return.\<close>

fun gets_take :: "nat \<Rightarrow> uchar list \<Rightarrow> uchar list \<times> uchar list" where
  "gets_take 0 inp = ([], inp)"
| "gets_take (Suc n) [] = ([], [])"
| "gets_take (Suc n) (c # inp) =
     (if c = 10 \<or> c = 13 then ([c], inp) else let (l, r) = gets_take n inp in (c # l, r))"

lemma gets_take_append: "gets_take n inp = (l, r) \<Longrightarrow> l @ r = inp"
  by (induction n inp arbitrary: l r rule: gets_take.induct) (auto split: if_splits prod.splits)

lemma gets_shorter: "(l, r) = gets_take n inp \<Longrightarrow> cstr l \<noteq> [] \<Longrightarrow> length r < length inp"
  using gets_take_append [of n inp l r] by (cases l) (auto simp: cstr_def)

function sh_loop :: "'h os \<Rightarrow> 'h fds \<Rightarrow> uchar list \<Rightarrow> nat \<Rightarrow> 'h step list" where
  "sh_loop os t inp k =
     (let (l, inp') = gets_take 99 inp; buf = cstr l in
      Print (bytes ''$ '') #
      (if buf = [] then [Exit]
       else if take 3 buf = bytes ''cd '' then
         let dir = drop 3 (butlast buf) in
         Chdir dir # (if os_chdir os dir then [] else [Print (bytes ''cannot cd '' @ dir @ [10])]) @ sh_loop os t inp' k
       else if \<not> os_fork os k then sh_panic ''fork''
       else let (x, k) = (case parsecmd buf of Inr c \<Rightarrow> runcmd os c t (k + 1) 
             | Inl (Panic m) \<Rightarrow> ((if leftovers buf = [] then [] else [Print (leftovers buf)]) @ sh_panic m, k + 1)
             | Inl _ \<Rightarrow> ([], k + 1))
         in Fork x # Wait t # sh_loop os t inp' k))"
  by pat_completeness auto
termination by (relation "measure (\<lambda>(os, t, inp, k). length inp)") (auto dest: gets_shorter)

declare sh_loop.simps [simp del]

end
