(* ===== verification/User_Parse.thy ===== *)
theory User_Parse
  imports User_Sh
begin

text \<open>
  The parser of the xv6 shell: every line gives a command or a message, with the strings of the
  command taken from the line, and the printed form of a command is parsed back to it.
\<close>

section \<open>Every line is parsed or rejected\<close>

definition wordchar :: "uchar \<Rightarrow> bool" where
  "wordchar c \<longleftrightarrow> c \<noteq> 0 \<and> c \<notin> set whitespace \<and> c \<notin> set symbols"

definition is_word :: "uchar list \<Rightarrow> bool" where
  "is_word w \<longleftrightarrow> w \<noteq> [] \<and> list_all wordchar w"

text \<open>Trees whose leaves satisfy a predicate, with fewer than \<open>MAXARGS\<close> arguments in a command and the
  modes and descriptors that the redirections of the language have.\<close>

fun wf_cmd :: "('a \<Rightarrow> bool) \<Rightarrow> 'a cmd \<Rightarrow> bool" where
  "wf_cmd P (EXEC args) \<longleftrightarrow> length args < MAXARGS \<and> list_all P args"
| "wf_cmd P (REDIR c f m d) \<longleftrightarrow> wf_cmd P c \<and> P f \<and> (m = O_RDONLY \<and> d = 0 \<or> m = O_WRONLY_CREATE \<and> d = 1)"
| "wf_cmd P (PIPE l r) \<longleftrightarrow> wf_cmd P l \<and> wf_cmd P r"
| "wf_cmd P (LIST l r) \<longleftrightarrow> wf_cmd P l \<and> wf_cmd P r"
| "wf_cmd P (BACK c) \<longleftrightarrow> wf_cmd P c"

lemma wf_cmd_leaf: "wf_cmd P c \<Longrightarrow> t \<in> set_cmd c \<Longrightarrow> P t"
  by (induction c) (auto simp: list_all_iff)

lemma wf_cmd_map: "wf_cmd P c \<Longrightarrow> (\<And>t. P t \<Longrightarrow> Q (f t)) \<Longrightarrow> wf_cmd Q (map_cmd f c)"
  by (induction c) (auto simp: list_all_iff)

text \<open>A token of the line: its bytes belong to a word, and the byte behind it does not.\<close>

definition tok_ok :: "uchar list \<Rightarrow> tok \<Rightarrow> bool" where
  "tok_ok s t \<longleftrightarrow> fst t < snd t \<and> snd t \<le> length s \<and> (\<forall>i. fst t \<le> i \<and> i < snd t \<longrightarrow> wordchar (s ! i)) \<and>
     (snd t < length s \<longrightarrow> \<not> wordchar (s ! snd t))"

definition stretch :: "uchar list \<Rightarrow> tok \<Rightarrow> uchar list" where
  "stretch s t = take (snd t - fst t) (drop (fst t) s)"

lemma stretch_word: "tok_ok s t \<Longrightarrow> is_word (stretch s t)"
  by (auto simp: is_word_def stretch_def tok_ok_def list_all_length)

lemma peek_ok:
  assumes "0 \<notin> set s" "p \<le> length s"
  shows "\<exists>y p'. peek s p ts = Inr (y, p') \<and> p \<le> p' \<and> p' \<le> length s \<and> (y \<longrightarrow> p' < length s \<and> s ! p' \<noteq> 0)"
proof -
  have b: "skip_white s p \<le> length s" using skip_white_bound [OF assms(2)] .
  then have "char_at s (skip_white s p) = Inr (if skip_white s p < length s then s ! skip_white s p else 0)" by (simp add: char_at_def)
  then obtain y where "peek s p ts = Inr (y, skip_white s p)" by (simp add: peek_def Let_def)
  then show ?thesis using peek_progress [of s p ts] b by blast
qed

lemma skip_word_tok:
  assumes "0 \<notin> set s" "q < length s" "wordchar (s ! q)"
  shows "tok_ok s (q, skip_word s q)"
proof -
  let ?P = "\<lambda>c. c \<notin> set whitespace \<and> c \<notin> set symbols"
  let ?u = "takeWhile ?P (drop q s)"
  have l: "length ?u \<le> length s - q" using length_takeWhile_le [of ?P "drop q s"] by simp
  have "wordchar (s ! i)" if "q \<le> i" "i < q + length ?u" for i
  proof -
    have "i - q < length ?u" using that by linarith
    from nth_mem [OF this] have "?P (?u ! (i - q))" by (auto dest: set_takeWhileD)
    then have "?P (drop q s ! (i - q))" using takeWhile_nth [OF \<open>i - q < length ?u\<close>] by simp
    moreover have "drop q s ! (i - q) = s ! i" "i < length s" using that l assms(2) by auto
    moreover from this(2) have "s ! i \<noteq> 0" using assms(1) nth_mem by metis
    ultimately show ?thesis by (simp add: wordchar_def)
  qed
  moreover have "\<not> wordchar (s ! (q + length ?u))" if "q + length ?u < length s"
    using nth_length_takeWhile [of ?P "drop q s"] that by (auto simp: wordchar_def)
  moreover have "q < skip_word s q" using skip_word_less assms by (auto simp: wordchar_def)
  ultimately show ?thesis using l assms(2) unfolding tok_ok_def skip_word_def by auto
qed

lemma gettoken_ok:
  assumes "0 \<notin> set s" "p \<le> length s"
  shows "\<exists>t q eq p'. gettoken s p = Inr (t, q, eq, p') \<and> p \<le> p' \<and> p' \<le> length s \<and> (p < length s \<longrightarrow> p < p') \<and> (t = 97 \<longrightarrow> tok_ok s (q, eq))"
proof -
  let ?q = "skip_white s p"
  have b: "?q \<le> length s" using skip_white_bound [OF assms(2)] .
  define c where "c = (if ?q < length s then s ! ?q else 0)"
  have c: "char_at s ?q = Inr c" using b by (simp add: char_at_def c_def)
  have q: "?q < length s \<and> c = s ! ?q" if "c \<noteq> 0" using that by (cases "?q < length s") (simp_all add: c_def)
  define d where "d = (if ?q + 1 < length s then s ! (?q + 1) else 0)"
  have d: "char_at s (?q + 1) = Inr d" "d \<noteq> 0 \<Longrightarrow> ?q + 1 < length s" if "c \<noteq> 0"
    using q [OF that] by (cases "?q + 1 < length s"; simp add: char_at_def d_def)+
  obtain t eq where r: "gettoken s p = Inr (t, ?q, eq, skip_white s eq)" "eq \<le> length s" "t = 97 \<longrightarrow> tok_ok s (?q, eq)"
  proof (cases "c = 0 \<or> c \<in> {124, 40, 41, 59, 38, 60}")
    case True
    then show ?thesis using that [of c "if c = 0 then ?q else ?q + 1"] c q b by (auto simp: gettoken_def Let_def)
  next
    case F: False
    show ?thesis
    proof (cases "c = 62")
      case True
      then show ?thesis using that [of 43 "?q + 2"] that [of 62 "?q + 1"] c d q by (cases "d = 62") (simp_all add: gettoken_def Let_def)
    next
      case False
      then have s: "c \<notin> set symbols" using F by (simp add: symbols_def)
      have "?q < length s" "c = s ! ?q" using q F by auto
      then have "wordchar (s ! ?q)" using skip_white_stop [of s p] s F by (simp add: wordchar_def)
      then have "tok_ok s (?q, skip_word s ?q)" using skip_word_tok [OF assms(1) \<open>?q < length s\<close>] by blast
      moreover have "gettoken s p = Inr (97, ?q, skip_word s ?q, skip_white s (skip_word s ?q))" using F False c by (simp add: gettoken_def Let_def)
      ultimately show ?thesis using that [of 97 "skip_word s ?q"] skip_word_bound [OF b] by simp
    qed
  qed
  have "p < length s \<longrightarrow> p < skip_white s eq" "p \<le> skip_white s eq" using gettoken_moves [OF r(1)] assms(1) by (metis nth_mem)+
  then show ?thesis using r skip_white_bound [OF r(2)] by blast
qed

text \<open>The outcome of a stage of the parser that starts at a position: a message, or a tree of tokens
  of the line and a later position on the line.\<close>

definition messages :: "string list" where
  "messages = [''syntax'', ''missing file for redirection'', ''too many args'', ''syntax - missing )'']"

definition outcome :: "uchar list \<Rightarrow> nat \<Rightarrow> (tok cmd \<times> nat) res \<Rightarrow> bool" where
  "outcome s p r \<longleftrightarrow> (\<exists>m \<in> set messages. r = panic m) \<or>
     (\<exists>c p'. r = Inr (c, p') \<and> wf_cmd (tok_ok s) c \<and> p \<le> p' \<and> p' \<le> length s)"

lemma outcome_later: "outcome s p' r \<Longrightarrow> p \<le> p' \<Longrightarrow> outcome s p r"
  by (fastforce simp: outcome_def)

lemma outcome_bind:
  assumes "outcome s p m" "\<And>c p'. wf_cmd (tok_ok s) c \<Longrightarrow> p \<le> p' \<Longrightarrow> p' \<le> length s \<Longrightarrow> outcome s p' (f (c, p'))"
  shows "outcome s p (bindE m f)"
proof (cases m)
  case (Inl e)
  then show ?thesis using assms(1) by (auto simp: outcome_def panic_def)
next
  case (Inr x)
  obtain c p' where x: "x = (c, p')" by (cases x)
  then have "wf_cmd (tok_ok s) c" "p \<le> p'" "p' \<le> length s" using assms(1) Inr by (auto simp: outcome_def)
  then show ?thesis using assms(2) [of c p'] outcome_later [of s p' "f (c, p')" p] Inr x by simp
qed

lemma outcome_Inr: "wf_cmd (tok_ok s) c \<Longrightarrow> p \<le> p' \<Longrightarrow> p' \<le> length s \<Longrightarrow> outcome s p (Inr (c, p'))"
  by (auto simp: outcome_def)

lemma outcome_panic: "m \<in> set messages \<Longrightarrow> outcome s p (panic m)"
  by (auto simp: outcome_def)

lemma outcome_peek:
  assumes "0 \<notin> set s" "p \<le> length s"
    "\<And>y p'. p \<le> p' \<Longrightarrow> p' \<le> length s \<Longrightarrow> (y \<Longrightarrow> p' < length s) \<Longrightarrow> peek s p ts = Inr (y, p') \<Longrightarrow> outcome s p' (f (y, p'))"
  shows "outcome s p (bindE (peek s p ts) f)"
  using peek_ok [OF assms(1,2), of ts] assms(3) by (metis bindE_Inr outcome_later)

lemma outcome_gettoken:
  assumes "0 \<notin> set s" "p \<le> length s"
    "\<And>t q eq p'. p \<le> p' \<Longrightarrow> p' \<le> length s \<Longrightarrow> (p < length s \<Longrightarrow> p < p') \<Longrightarrow> (t = 97 \<Longrightarrow> tok_ok s (q, eq)) \<Longrightarrow>
       gettoken s p = Inr (t, q, eq, p') \<Longrightarrow> outcome s p' (f (t, q, eq, p'))"
  shows "outcome s p (bindE (gettoken s p) f)"
proof -
  obtain t q eq p' where g: "gettoken s p = Inr (t, q, eq, p')" "p \<le> p'" "p' \<le> length s" "p < length s \<longrightarrow> p < p'" "t = 97 \<longrightarrow> tok_ok s (q, eq)"
    using gettoken_ok [OF assms(1,2)] by blast
  have "outcome s p' (f (t, q, eq, p'))" by (rule assms(3)) (use g in auto)
  then show ?thesis using g(1) outcome_later [OF _ g(2)] by simp
qed

text \<open>The stages.  A command that is being built is a chain of redirections around its arguments.\<close>

fun simple :: "nat \<Rightarrow> 'a cmd \<Rightarrow> bool" where
  "simple k (EXEC args) \<longleftrightarrow> length args = k"
| "simple k (REDIR c f m d) \<longleftrightarrow> simple k c"
| "simple k c \<longleftrightarrow> False"

lemma add_arg_simple: "simple k c \<Longrightarrow> simple (Suc k) (add_arg a c)"
  by (induction k c rule: simple.induct) auto

lemma add_arg_wf: "simple k c \<Longrightarrow> wf_cmd P c \<Longrightarrow> Suc k < MAXARGS \<Longrightarrow> P a \<Longrightarrow> wf_cmd P (add_arg a c)"
  by (induction k c rule: simple.induct) auto

lemma redir_outcome:
  assumes "0 \<notin> set s"
  shows "p \<le> length s \<Longrightarrow> wf_cmd (tok_ok s) c \<Longrightarrow> outcome s p (parseredirs s c p)"
proof (induction "length s - p" arbitrary: c p rule: less_induct)
  case less
  show ?case
  proof (subst parseredirs.simps, rule outcome_peek [OF assms less.prems(1)], goal_cases)
    case (1 y p1)
    show ?case
    proof (cases y)
      case True
      have "outcome s p1 (bindE (gettoken s p1) (\<lambda>(t, _, _, ps). bindE (gettoken s ps) (\<lambda>(t', q, eq, ps).
          if t' \<noteq> 97 then panic ''missing file for redirection''
          else parseredirs s (if t = 60 then REDIR c (q, eq) O_RDONLY 0 else if t = 62 then REDIR c (q, eq) O_WRONLY_CREATE 1
            else if t = 43 then REDIR c (q, eq) O_WRONLY_CREATE 1 else c) ps)))"
      proof (rule outcome_gettoken [OF assms 1(2)], goal_cases)
        case g: (1 t q1 e1 p2)
        have "outcome s p2 (bindE (gettoken s p2) (\<lambda>(t', q, eq, ps).
          if t' \<noteq> 97 then panic ''missing file for redirection''
          else parseredirs s (if t = 60 then REDIR c (q, eq) O_RDONLY 0 else if t = 62 then REDIR c (q, eq) O_WRONLY_CREATE 1
            else if t = 43 then REDIR c (q, eq) O_WRONLY_CREATE 1 else c) ps))"
        proof (rule outcome_gettoken [OF assms g(2)], goal_cases)
          case h: (1 t' q eq p3)
          have "length s - p3 < length s - p" using 1(1,3) g(1,3) h(1) True by fastforce
          then show ?case using h(2,4) less.prems(2) by (auto intro: less.hyps simp: outcome_panic messages_def)
        qed
        then show ?case by simp
      qed
      then show ?thesis using True by simp
    qed (use 1 less.prems in \<open>simp add: outcome_Inr\<close>)
  qed
qed

lemma redir_simple: "parseredirs s c p = Inr (c', p') \<Longrightarrow> simple k c \<Longrightarrow> simple k c'"
proof (induction "length s - p" arbitrary: c p rule: less_induct)
  case less
  obtain y p1 where y: "peek s p [60, 62] = Inr (y, p1)" using less.prems(1) by (subst (asm) parseredirs.simps) auto
  show ?case
  proof (cases y)
    case False
    then show ?thesis using less.prems y by (subst (asm) parseredirs.simps) simp
  next
    case True
    note e = less.prems(1) [unfolded parseredirs.simps [of s c p] y]
    obtain t q1 e1 p2 t' q eq p3 where g: "gettoken s p1 = Inr (t, q1, e1, p2)" "gettoken s p2 = Inr (t', q, eq, p3)" "t' = 97"
      using e True by (auto split: if_splits)
    define d where "d = (if t = 60 then REDIR c (q, eq) O_RDONLY 0 else if t = 62 then REDIR c (q, eq) O_WRONLY_CREATE 1
      else if t = 43 then REDIR c (q, eq) O_WRONLY_CREATE 1 else c)"
    have d: "simple k d" "parseredirs s d p3 = Inr (c', p')" using less.prems(2) e g True by (simp_all add: d_def)
    have "p \<le> p1" "p1 < length s" "p1 \<le> p2" "p2 < p3" using peek_progress [OF y] gettoken_progress [OF g(1)] gettoken_progress [OF g(2)] g(3) True by auto
    then show ?thesis using less.hyps [OF _ d(2,1)] by linarith
  qed
qed

lemma args_outcome:
  assumes "0 \<notin> set s"
  shows "p \<le> length s \<Longrightarrow> wf_cmd (tok_ok s) c \<Longrightarrow> simple k c \<Longrightarrow> outcome s p (parseargs s k c p)"
proof (induction "length s - p" arbitrary: k c p rule: less_induct)
  case less
  show ?case
  proof (subst parseargs.simps, rule outcome_peek [OF assms less.prems(1)], goal_cases)
    case (1 y p1)
    show ?case
    proof (cases y)
      case False
      have "outcome s p1 (bindE (gettoken s p1) (\<lambda>(t, q, eq, ps).
         if t = 0 then Inr (c, ps) else if t \<noteq> 97 then panic ''syntax'' else if k + 1 \<ge> MAXARGS then panic ''too many args''
         else bindE (parseredirs s (add_arg (q, eq) c) ps) (\<lambda>(ret, ps). parseargs s (k + 1) ret ps)))"
      proof (rule outcome_gettoken [OF assms 1(2)], goal_cases)
        case g: (1 t q eq p2)
        have "outcome s p2 (bindE (parseredirs s (add_arg (q, eq) c) p2) (\<lambda>(ret, ps). parseargs s (k + 1) ret ps))" if "t = 97" "k + 1 < MAXARGS"
        proof -
          have "outcome s p2 (parseredirs s (add_arg (q, eq) c) p2)"
            using redir_outcome [OF assms g(2)] add_arg_wf [OF less.prems(3,2)] g(4) that by simp
          moreover have "outcome s p3 (parseargs s (k + 1) d p3)" if "parseredirs s (add_arg (q, eq) c) p2 = Inr (d, p3)" "wf_cmd (tok_ok s) d" "p3 \<le> length s" for d p3
          proof -
            have "p1 < p2" "p2 \<le> length s" using gettoken_progress [OF g(5)] \<open>t = 97\<close> g(2) by auto
            moreover have "p2 \<le> p3" using parseredirs_le [OF that(1)] .
            ultimately have "length s - p3 < length s - p" using 1(1) by linarith
            then show ?thesis using less.hyps that redir_simple [OF that(1)] add_arg_simple [OF less.prems(3)] by simp
          qed
          ultimately show ?thesis by (fastforce simp: outcome_def)
        qed
        then show ?case using g(2) less.prems(2) by (auto simp: outcome_panic outcome_Inr messages_def)
      qed
      then show ?thesis using False by simp
    qed (use 1 less.prems in \<open>simp add: outcome_Inr\<close>)
  qed
qed

lemma amps_outcome:
  assumes "0 \<notin> set s"
  shows "p \<le> length s \<Longrightarrow> wf_cmd (tok_ok s) c \<Longrightarrow> outcome s p (parseamps s c p)"
proof (induction "length s - p" arbitrary: c p rule: less_induct)
  case less
  show ?case
  proof (subst parseamps.simps, rule outcome_peek [OF assms less.prems(1)], goal_cases)
    case (1 y p1)
    show ?case
    proof (cases y)
      case True
      have "outcome s p1 (bindE (gettoken s p1) (\<lambda>(_, _, _, ps). parseamps s (BACK c) ps))"
      proof (rule outcome_gettoken [OF assms 1(2)], goal_cases)
        case g: (1 t q eq p2)
        have "length s - p2 < length s - p" using 1(1,3) g(1,3) True by fastforce
        then show ?case using less.hyps [of p2] g(2) less.prems(2) by simp
      qed
      then show ?thesis using True by simp
    qed (use 1 less.prems in \<open>simp add: outcome_Inr\<close>)
  qed
qed

lemma peek_again: "peek s p ts = Inr (y, p') \<Longrightarrow> peek s p' ts = Inr (y, p')"
proof -
  assume a: "peek s p ts = Inr (y, p')"
  then have p': "p' = skip_white s p" by (auto simp: peek_def Let_def)
  have "takeWhile (\<lambda>c. c \<in> set whitespace) (drop p' s) = []"
    using skip_white_stop [of s p] unfolding p' by (cases "skip_white s p < length s") (simp_all add: Cons_nth_drop_Suc [symmetric])
  then have "skip_white s p' = p'" by (simp add: skip_white_def)
  then show ?thesis using a p' by (simp add: peek_def Let_def)
qed

text \<open>A separator and what follows it.\<close>

lemma outcome_then:
  assumes "0 \<notin> set s" "p \<le> length s" "wf_cmd (tok_ok s) c" "\<And>p'. p < p' \<Longrightarrow> p' \<le> length s \<Longrightarrow> outcome s p' (g p')"
    "\<And>r. wf_cmd (tok_ok s) r \<Longrightarrow> wf_cmd (tok_ok s) (h r)"
  shows "outcome s p (bindE (peek s p ts) (\<lambda>(y, ps).
    if y then bindE (gettoken s ps) (\<lambda>(_, _, _, ps). bindE (g ps) (\<lambda>(r, ps). Inr (h r, ps))) else Inr (c, ps)))"
proof (rule outcome_peek [OF assms(1,2)], goal_cases)
  case (1 y p1)
  have "outcome s p1 (bindE (gettoken s p1) (\<lambda>(_, _, _, ps). bindE (g ps) (\<lambda>(r, ps). Inr (h r, ps))))" if y
  proof (rule outcome_gettoken [OF assms(1) 1(2)], goal_cases)
    case g: (1 t q eq p2)
    have "outcome s p2 (g p2)" using assms(4) 1(1,3) g(2,3) that by fastforce
    then have "outcome s p2 (bindE (g p2) (\<lambda>(r, ps). Inr (h r, ps)))" by (rule outcome_bind) (use assms(5) in \<open>simp add: outcome_Inr\<close>)
    then show ?case by simp
  qed
  then show ?case using assms(3) 1(2) by (simp add: outcome_Inr)
qed

text \<open>With four steps of fuel for every byte that is left, no stage runs out of it.\<close>

lemma parse_fuel:
  assumes "0 \<notin> set s" "p \<le> length s"
  shows "4 * (length s - p) + 4 \<le> n \<Longrightarrow> outcome s p (parseline n s p)"
    "4 * (length s - p) + 3 \<le> n \<Longrightarrow> outcome s p (parsepipe n s p)"
    "4 * (length s - p) + 1 \<le> n \<Longrightarrow> peek s p [40] = Inr (True, p) \<Longrightarrow> outcome s p (parseblock n s p)"
    "4 * (length s - p) + 2 \<le> n \<Longrightarrow> outcome s p (parseexec n s p)"
  using assms(2)
proof (induction n arbitrary: p)
  case (Suc n)
  {
    case 1
    have "outcome s p (parsepipe n s p)" using Suc.IH(2) 1 by simp
    then show ?case unfolding parseline.simps
    proof (rule outcome_bind, goal_cases)
      case a: (1 c p1)
      let ?k = "\<lambda>c ps. bindE (peek s ps [59]) (\<lambda>(y, ps). if y then bindE (gettoken s ps) (\<lambda>(_, _, _, ps).
         bindE (parseline n s ps) (\<lambda>(r, ps). Inr (LIST c r, ps))) else Inr (c, ps))"
      have "outcome s p1 (bindE (parseamps s c p1) (\<lambda>(c, ps). ?k c ps))"
      proof (rule outcome_bind [OF amps_outcome [OF assms(1) a(3,1)]], goal_cases)
        case b: (1 c' p2)
        have "outcome s p2 (?k c' p2)"
          by (rule outcome_then [OF assms(1) b(3,1)]) (use Suc.IH(1) 1 a(2) b(1,2) in auto)
        then show ?case by simp
      qed
      then show ?case by simp
    qed
  next
    case 2
    have "outcome s p (parseexec n s p)" using Suc.IH(4) 2 by simp
    then show ?case unfolding parsepipe.simps
    proof (rule outcome_bind, goal_cases)
      case a: (1 c p1)
      have "outcome s p1 (bindE (peek s p1 [124]) (\<lambda>(y, ps). if y then bindE (gettoken s ps) (\<lambda>(_, _, _, ps).
         bindE (parsepipe n s ps) (\<lambda>(r, ps). Inr (PIPE c r, ps))) else Inr (c, ps)))"
        by (rule outcome_then [OF assms(1) a(3,1)]) (use Suc.IH(2) 2 a(1,2) in auto)
      then show ?case by simp
    qed
  next
    case 3
    have "p < length s" using peek_progress [OF 3(2)] by simp
    have "outcome s p (bindE (gettoken s p) (\<lambda>(_, _, _, ps). bindE (parseline n s ps) (\<lambda>(c, ps). bindE (peek s ps [41]) (\<lambda>(y, ps).
       if \<not> y then panic ''syntax - missing )'' else bindE (gettoken s ps) (\<lambda>(_, _, _, ps). parseredirs s c ps)))))"
    proof (rule outcome_gettoken [OF assms(1) 3(3)], goal_cases)
      case a: (1 t q eq p1)
      have "outcome s p1 (parseline n s p1)" using Suc.IH(1) [of p1] 3 a(2) a(3) [OF \<open>p < length s\<close>] by simp
      then have "outcome s p1 (bindE (parseline n s p1) (\<lambda>(c, ps). bindE (peek s ps [41]) (\<lambda>(y, ps).
         if \<not> y then panic ''syntax - missing )'' else bindE (gettoken s ps) (\<lambda>(_, _, _, ps). parseredirs s c ps))))"
      proof (rule outcome_bind, goal_cases)
        case b: (1 c p2)
        have "outcome s p2 (bindE (peek s p2 [41]) (\<lambda>(y, ps).
           if \<not> y then panic ''syntax - missing )'' else bindE (gettoken s ps) (\<lambda>(_, _, _, ps). parseredirs s c ps)))"
        proof (rule outcome_peek [OF assms(1) b(3)], goal_cases)
          case d: (1 y p3)
          have "outcome s p3 (bindE (gettoken s p3) (\<lambda>(_, _, _, ps). parseredirs s c ps))"
            by (rule outcome_gettoken [OF assms(1) d(2)]) (use redir_outcome [OF assms(1)] b(1) in simp)
          then show ?case by (simp add: outcome_panic messages_def)
        qed
        then show ?case by simp
      qed
      then show ?case by simp
    qed
    then show ?case using 3(2) by simp
  next
    case 4
    show ?case unfolding parseexec.simps
    proof (rule outcome_peek [OF assms(1) 4(2)], goal_cases)
      case a: (1 y p1)
      have "outcome s p1 (parseblock n s p1)" if y using Suc.IH(3) [of p1] peek_again [OF a(4)] 4 a(1,2) that by simp
      moreover have "outcome s p1 (bindE (parseredirs s (EXEC []) p1) (\<lambda>(ret, ps). parseargs s 0 ret ps))"
      proof -
        have "outcome s p1 (parseredirs s (EXEC []) p1)" using redir_outcome [OF assms(1) a(2)] by (simp add: MAXARGS_def)
        moreover have "outcome s p2 (parseargs s 0 c p2)" if "parseredirs s (EXEC []) p1 = Inr (c, p2)" "wf_cmd (tok_ok s) c" "p2 \<le> length s" for c p2
          using args_outcome [OF assms(1) that(3,2)] redir_simple [OF that(1), of 0] by simp
        ultimately show ?thesis by (fastforce simp: outcome_def)
      qed
      ultimately show ?case by simp
    qed
  }
qed simp_all

section \<open>Strings of a command\<close>

text \<open>Cutting the tokens off leaves the bytes of every word alone, because an end pointer never
  points into a word.\<close>

definition ended :: "uchar list \<Rightarrow> tok set \<Rightarrow> uchar list \<Rightarrow> bool" where
  "ended s T b \<longleftrightarrow> length b = Suc (length s) \<and> (\<forall>i < length s. wordchar (s ! i) \<longrightarrow> b ! i = s ! i) \<and> (\<forall>t \<in> T. b ! snd t = 0)"

lemma ended_set_nul:
  assumes "ended s T b" "tok_ok s t"
  shows "\<exists>b'. set_nul t b = Inr b' \<and> ended s (insert t T) b'"
proof -
  have l: "snd t < length b" using assms by (simp add: ended_def tok_ok_def)
  have "b[snd t := 0] ! i = s ! i" if "i < length s" "wordchar (s ! i)" for i
    using assms that by (cases "i = snd t") (auto simp: ended_def tok_ok_def)
  moreover have "b[snd t := 0] ! snd u = 0" if "u \<in> insert t T" for u
    using assms(1) l that by (cases "snd u = snd t") (auto simp: ended_def)
  ultimately have "ended s (insert t T) (b[snd t := 0])" using assms(1) by (simp add: ended_def)
  then show ?thesis using l by (simp add: set_nul_def)
qed

lemma ended_args: "ended s T b \<Longrightarrow> list_all (tok_ok s) args \<Longrightarrow> \<exists>b'. foldE set_nul args b = Inr b' \<and> ended s (T \<union> set args) b'"
proof (induction args arbitrary: T b)
  case (Cons a args)
  obtain b1 where b1: "set_nul a b = Inr b1" "ended s (insert a T) b1" using ended_set_nul [OF Cons.prems(1), of a] Cons.prems(2) by (simp only: list.pred_inject) blast
  then show ?case using Cons.IH [OF b1(2)] Cons.prems(2) by auto
qed simp

lemma ended_cmd: "ended s T b \<Longrightarrow> wf_cmd (tok_ok s) c \<Longrightarrow> \<exists>b'. nulterminate c b = Inr b' \<and> ended s (T \<union> set_cmd c) b'"
proof (induction c arbitrary: T b)
  case (REDIR c f m d)
  obtain b1 where b1: "nulterminate c b = Inr b1" "ended s (T \<union> set_cmd c) b1" using REDIR.IH [OF REDIR.prems(1)] REDIR.prems(2) by (simp only: wf_cmd.simps) blast
  then show ?case using ended_set_nul [OF b1(2), of f] REDIR.prems(2) by auto
next
  case (PIPE l r)
  obtain b1 where b1: "nulterminate l b = Inr b1" "ended s (T \<union> set_cmd l) b1" using PIPE.IH(1) [OF PIPE.prems(1)] PIPE.prems(2) by (simp only: wf_cmd.simps) blast
  then show ?case using PIPE.IH(2) [OF b1(2)] PIPE.prems(2) by (auto simp: Un_assoc)
next
  case (LIST l r)
  obtain b1 where b1: "nulterminate l b = Inr b1" "ended s (T \<union> set_cmd l) b1" using LIST.IH(1) [OF LIST.prems(1)] LIST.prems(2) by (simp only: wf_cmd.simps) blast
  then show ?case using LIST.IH(2) [OF b1(2)] LIST.prems(2) by (auto simp: Un_assoc)
qed (auto simp: ended_args)

lemma ended_string:
  assumes "ended s T b" "t \<in> T" "tok_ok s t"
  shows "cstr (drop (fst t) b) = stretch s t"
proof -
  obtain q e where t: "t = (q, e)" by (cases t)
  have l: "e < length b" "q < e" "e \<le> length s" using assms by (auto simp: ended_def tok_ok_def t)
  have s: "take (e - q) (drop q b) = stretch s t"
    by (rule nth_equalityI) (use assms l in \<open>auto simp: stretch_def t ended_def tok_ok_def\<close>)
  have "drop q b = take (e - q) (drop q b) @ drop e b" using l by (metis append_take_drop_id drop_drop le_add_diff_inverse2 less_imp_le)
  also have "drop e b = 0 # drop (Suc e) b" using l assms by (auto simp: ended_def t Cons_nth_drop_Suc [symmetric])
  finally have "drop q b = stretch s t @ 0 # drop (Suc e) b" unfolding s .
  moreover have "0 \<notin> set (stretch s t)" using stretch_word [OF assms(3)] by (auto simp: is_word_def list_all_iff wordchar_def)
  ultimately show ?thesis by (auto simp: t cstr_def takeWhile_append)
qed

text \<open>So \<open>parsecmd\<close> gives the tree with the stretches of the line in it.\<close>

lemma parsecmd_slices:
  assumes "0 \<notin> set s" "parseline (4 * length s + 4) s 0 = Inr (c, p)" "peek s p [] = Inr (y, length s)"
  shows "parsecmd s = Inr (map_cmd (stretch s) c) \<and> wf_cmd is_word (map_cmd (stretch s) c)"
proof -
  have "outcome s 0 (parseline (4 * length s + 4) s 0)" using parse_fuel(1) [OF assms(1), of 0] by simp
  then have wf: "wf_cmd (tok_ok s) c" using assms(2) by (auto simp: outcome_def)
  have "ended s {} (s @ [0])" by (auto simp: ended_def nth_append)
  from ended_cmd [OF this wf] obtain b where b: "nulterminate c (s @ [0]) = Inr b" "ended s (set_cmd c) b" by auto
  have "map_cmd (\<lambda>(q, _). cstr (drop q b)) c = map_cmd (stretch s) c"
    by (rule cmd.map_cong0) (use ended_string [OF b(2)] wf_cmd_leaf [OF wf] in \<open>auto simp: split_beta\<close>)
  then show ?thesis using assms b(1) wf_cmd_map [OF wf, of is_word "stretch s"] stretch_word by (simp add: parsecmd_def)
qed

text \<open>The whole parser.\<close>

lemma parsecmd_cases:
  assumes "0 \<notin> set s"
  shows "(\<exists>m \<in> set messages. parsecmd s = panic m) \<or> (\<exists>c. parsecmd s = Inr c \<and> wf_cmd is_word c)"
proof -
  have "outcome s 0 (parseline (4 * length s + 4) s 0)" using parse_fuel(1) [OF assms, of 0] by simp
  then consider m where "m \<in> set messages" "parseline (4 * length s + 4) s 0 = panic m"
    | c p where "parseline (4 * length s + 4) s 0 = Inr (c, p)" "p \<le> length s" by (auto simp: outcome_def)
  then show ?thesis
  proof cases
    case 1
    then show ?thesis by (auto simp: parsecmd_def)
  next
    case 2
    obtain y p' where y: "peek s p [] = Inr (y, p')" using peek_ok [OF assms 2(2)] by blast
    show ?thesis
    proof (cases "p' = length s")
      case True
      then show ?thesis using parsecmd_slices [OF assms 2(1)] y by blast
    next
      case False
      then have "parsecmd s = panic ''syntax''" using 2(1) y by (simp add: parsecmd_def)
      then show ?thesis by (simp add: messages_def)
    qed
  qed
qed

text \<open>C11: The parser of the xv6 shell is total.  Every line is either rejected with one of the four
  messages or gives a command: the parser never reads or writes outside the line and never
  runs on for ever.  The strings of the command are words of visible bytes without separators,
  no command has more than nine arguments, and every redirection has a mode and a descriptor
  that belong together.\<close>

theorem parsecmd_total:
  assumes "0 \<notin> set s"
  shows "(\<exists>m \<in> set messages. parsecmd s = panic m) \<or> (\<exists>c. parsecmd s = Inr c \<and> wf_cmd is_word c)"
  using assms by (rule parsecmd_cases)

theorem parsecmd_total_witness:
  "\<exists>c. parsecmd (bytes ''cat < a | (wc; ls &)'') = Inr c \<and> wf_cmd is_word c \<and>
     c = PIPE (REDIR (EXEC [bytes ''cat'']) (bytes ''a'') O_RDONLY 0) (LIST (EXEC [bytes ''wc'']) (BACK (EXEC [bytes ''ls''])))"
proof -
  have "parsecmd (bytes ''cat < a | (wc; ls &)'') =
      Inr (PIPE (REDIR (EXEC [bytes ''cat'']) (bytes ''a'') O_RDONLY 0) (LIST (EXEC [bytes ''wc'']) (BACK (EXEC [bytes ''ls'']))))"
    by code_simp
  moreover have "0 \<notin> set (bytes ''cat < a | (wc; ls &)'')" by (simp add: bytes_def)
  ultimately show ?thesis using parsecmd_total by fastforce
qed

section \<open>Printing and parsing back\<close>

text \<open>A command as a line, every token followed by a blank.  The level says what can stand without
  parentheses: 0 everything, 1 no list, 2 no list and no background command, 3 also no pipe.\<close>

definition ptok :: "uchar list \<Rightarrow> uchar list" where
  "ptok w = w @ [32]"

definition predir :: "uchar list \<times> int \<times> nat \<Rightarrow> uchar list" where
  "predir x = (if snd (snd x) = 0 then [60, 32] else [62, 32]) @ ptok (fst x)"

definition paren :: "bool \<Rightarrow> uchar list \<Rightarrow> uchar list" where
  "paren b x = (if b then [40, 32] @ x @ [41, 32] else x)"

fun pr :: "nat \<Rightarrow> uchar list cmd \<Rightarrow> uchar list" where
  "pr l (EXEC args) = concat (map ptok args)"
| "pr l (REDIR c f m d) = pr 3 c @ predir (f, m, d)"
| "pr l (PIPE a b) = paren (l > 2) (pr 3 a @ [124, 32] @ pr 2 b)"
| "pr l (BACK c) = paren (l > 1) (pr 1 c @ [38, 32])"
| "pr l (LIST a b) = paren (l > 0) (pr 1 a @ [59, 32] @ pr 0 b)"

text \<open>What is left of the line from a position on.\<close>

definition rest :: "uchar list \<Rightarrow> nat \<Rightarrow> uchar list \<Rightarrow> bool" where
  "rest s p r \<longleftrightarrow> p \<le> length s \<and> drop p s = r"

definition nows :: "uchar list \<Rightarrow> bool" where
  "nows r \<longleftrightarrow> r = [] \<or> hd r \<notin> set whitespace"

lemma rest_append: "rest s p (u @ r) \<Longrightarrow> rest s (p + length u) r"
proof -
  assume a: "rest s p (u @ r)"
  then have "drop (length u) (drop p s) = r" by (simp add: rest_def)
  moreover have "length s - p = length u + length r" "p \<le> length s" using a by (auto simp: rest_def dest: arg_cong [of _ _ length])
  ultimately show ?thesis by (simp add: rest_def add.commute)
qed

lemma rest_stretch: "rest s p (u @ r) \<Longrightarrow> stretch s (p, p + length u) = u"
  by (simp add: rest_def stretch_def)

lemma rest_length: "rest s p r \<Longrightarrow> length s - p = length r"
  by (auto simp: rest_def)

lemma rest_skip: "rest s p r \<Longrightarrow> nows r \<Longrightarrow> skip_white s p = p"
  by (cases r) (auto simp: rest_def nows_def skip_white_def)

lemma rest_char: "rest s p r \<Longrightarrow> char_at s p = Inr (case r of [] \<Rightarrow> 0 | c # _ \<Rightarrow> c)"
proof (cases "p < length s")
  case True
  assume "rest s p r"
  then show ?thesis using True by (auto simp: rest_def char_at_def Cons_nth_drop_Suc [symmetric])
qed (auto simp: rest_def char_at_def)

lemma peek_rest:
  assumes "rest s p r" "nows r" "0 \<notin> set s"
  shows "peek s p ts = Inr (r \<noteq> [] \<and> hd r \<in> set ts, p)"
proof -
  have "set r \<subseteq> set s" using assms(1) set_drop_subset [of p s] by (simp add: rest_def)
  then have "0 \<notin> set r" using assms(3) by blast
  then show ?thesis using rest_skip [OF assms(1,2)] rest_char [OF assms(1)] by (cases r) (auto simp: peek_def Let_def)
qed

lemma skip_blank: "rest s p (32 # r) \<Longrightarrow> nows r \<Longrightarrow> skip_white s p = p + 1"
  by (cases r) (auto simp: rest_def nows_def skip_white_def whitespace_def)

lemma gettoken_sym:
  assumes "rest s p ([c, 32] @ r)" "nows r" "c \<in> {124, 40, 41, 59, 38, 60}"
  shows "gettoken s p = Inr (c, p, p + 1, p + 2)"
proof -
  have "nows ([c, 32] @ r)" using assms(3) by (auto simp: nows_def whitespace_def)
  moreover have "rest s (p + 1) (32 # r)" using rest_append [of s p "[c]" "32 # r"] assms(1) by simp
  ultimately show ?thesis using rest_skip [OF assms(1)] rest_char [OF assms(1)] skip_blank [OF _ assms(2)] assms(3)
    by (auto simp: gettoken_def Let_def)
qed

lemma gettoken_gt:
  assumes "rest s p ([62, 32] @ r)" "nows r"
  shows "gettoken s p = Inr (62, p, p + 1, p + 2)"
proof -
  have "nows ([62, 32] @ r)" by (simp add: nows_def whitespace_def)
  moreover have b: "rest s (p + 1) (32 # r)" using rest_append [of s p "[62]" "32 # r"] assms(1) by simp
  ultimately show ?thesis using rest_skip [OF assms(1)] rest_char [OF assms(1)] rest_char [OF b] skip_blank [OF b assms(2)]
    by (simp add: gettoken_def Let_def)
qed

lemma gettoken_word:
  assumes "rest s p (ptok w @ r)" "nows r" "is_word w"
  shows "gettoken s p = Inr (97, p, p + length w, p + length w + 1)"
proof -
  obtain c w' where w: "w = c # w'" "wordchar c" using assms(3) by (cases w) (auto simp: is_word_def)
  then have c: "c \<noteq> 0" "c \<notin> set whitespace" "c \<notin> set symbols" by (simp_all add: wordchar_def)
  then have "c \<notin> {124, 40, 41, 59, 38, 60}" "c \<noteq> 62" by (auto simp: symbols_def)
  moreover have "skip_white s p = p" using rest_skip [OF assms(1)] c w by (simp add: nows_def ptok_def)
  moreover have "skip_word s p = p + length w"
    using assms(1,3) by (auto simp: skip_word_def rest_def ptok_def takeWhile_append is_word_def list_all_iff wordchar_def whitespace_def)
  moreover have "rest s (p + length w) (32 # r)" using rest_append [of s p w "32 # r"] assms(1) by (simp add: ptok_def)
  then have "skip_white s (p + length w) = p + length w + 1" by (rule skip_blank [OF _ assms(2)])
  moreover have "char_at s p = Inr c" using rest_char [OF assms(1)] w by (simp add: ptok_def)
  ultimately show ?thesis using c(1) by (simp add: gettoken_def Let_def)
qed

lemma gettoken_end: "rest s p [] \<Longrightarrow> gettoken s p = Inr (0, p, p, p)"
  using rest_skip [of s p "[]"] rest_char [of s p "[]"] by (simp add: nows_def gettoken_def Let_def)

text \<open>Redirections around a command, the first one innermost.\<close>

definition wrap :: "('a \<times> int \<times> nat) list \<Rightarrow> 'a cmd \<Rightarrow> 'a cmd" where
  "wrap rs c = fold (\<lambda>(f, m, d) c. REDIR c f m d) rs c"

definition redir_ok :: "uchar list \<times> int \<times> nat \<Rightarrow> bool" where
  "redir_ok x \<longleftrightarrow> is_word (fst x) \<and> (snd x = (O_RDONLY, 0) \<or> snd x = (O_WRONLY_CREATE, 1))"

lemma word_hd: "is_word w \<Longrightarrow> hd (ptok w @ r) \<notin> set whitespace \<and> hd (ptok w @ r) \<notin> set symbols"
  by (cases w) (auto simp: is_word_def wordchar_def ptok_def)

lemma nows_ptok: "is_word w \<Longrightarrow> nows (ptok w @ r)"
  using word_hd [of w r] by (simp add: nows_def)

lemma nows_predirs: "nows r \<Longrightarrow> nows (concat (map predir rs) @ r)"
  by (cases rs) (simp_all add: nows_def predir_def whitespace_def)

lemma parseredirs_rest:
  assumes "0 \<notin> set s" "nows r" "r = [] \<or> hd r \<notin> {60, 62}"
  shows "rest s p (concat (map predir rs) @ r) \<Longrightarrow> list_all redir_ok rs \<Longrightarrow>
    \<exists>c' p'. parseredirs s c p = Inr (c', p') \<and> map_cmd (stretch s) c' = wrap rs (map_cmd (stretch s) c) \<and> rest s p' r"
proof (induction rs arbitrary: c p)
  case Nil
  then show ?case using peek_rest [of s p r "[60, 62]"] assms by (subst parseredirs.simps) (auto simp: wrap_def)
next
  case (Cons x rs)
  obtain f m d where x: "x = (f, m, d)" by (cases x)
  let ?t = "if d = 0 then 60 else 62 :: uchar" and ?tl = "concat (map predir rs) @ r"
  have f: "is_word f" "(m, d) = (O_RDONLY, 0) \<or> (m, d) = (O_WRONLY_CREATE, 1)" using Cons.prems(2) by (auto simp: x redir_ok_def)
  have r1: "rest s p ([?t, 32] @ ptok f @ ?tl)" 
  proof -
    have "predir x = [?t, 32] @ ptok f" by (simp add: x predir_def)
    then show ?thesis using Cons.prems(1) by simp
  qed
  have n1: "nows (ptok f @ ?tl)" using nows_ptok [OF f(1)] .
  have p1: "peek s p [60, 62] = Inr (True, p)"
    using peek_rest [OF r1 _ assms(1), of "[60, 62]"] by (simp add: nows_def whitespace_def)
  have g1: "gettoken s p = Inr (?t, p, p + 1, p + 2)"
    using gettoken_sym [of s p 60 "ptok f @ ?tl"] gettoken_gt [of s p "ptok f @ ?tl"] r1 n1 by (cases "d = 0") simp_all
  have r2: "rest s (p + 2) (ptok f @ ?tl)" using rest_append [OF r1] by simp
  have g2: "gettoken s (p + 2) = Inr (97, p + 2, p + 2 + length f, p + 2 + length f + 1)"
    using gettoken_word [OF r2 nows_predirs [OF assms(2)] f(1)] .
  have r3: "rest s (p + 2 + length f + 1) ?tl" using rest_append [OF r2] by (simp add: ptok_def)
  have st: "stretch s (p + 2, p + 2 + length f) = f" using rest_stretch [of s "p + 2" f "[32] @ ?tl"] r2 by (simp add: ptok_def)
  let ?c = "REDIR c (p + 2, p + 2 + length f) m d"
  have "parseredirs s c p = parseredirs s ?c (p + 2 + length f + 1)"
    using p1 g1 g2 f(2) by (subst parseredirs.simps) auto
  then show ?case using Cons.IH [OF r3, of ?c] Cons.prems(2) st by (simp add: x wrap_def)
qed

lemma map_add_arg: "map_cmd f (add_arg a c) = add_arg (f a) (map_cmd f c)"
  by (induction a c rule: add_arg.induct) simp_all

definition follow :: "uchar list \<Rightarrow> bool" where
  "follow r \<longleftrightarrow> r = [] \<or> hd r \<in> {124, 41, 38, 59}"

lemma follow_nows: "follow r \<Longrightarrow> nows r \<and> (r = [] \<or> hd r \<notin> {60, 62})"
  by (auto simp: follow_def nows_def whitespace_def)

lemma parseargs_end:
  assumes "0 \<notin> set s" "rest s p r" "follow r"
  shows "parseargs s k c p = Inr (c, p)"
  using peek_rest [OF assms(2) _ assms(1), of "[124, 41, 38, 59]"] follow_nows [OF assms(3)] gettoken_end [of s p] assms(2,3)
  by (subst parseargs.simps) (auto simp: follow_def)

lemma parseargs_rest:
  assumes "0 \<notin> set s" "follow r" "list_all redir_ok rs"
  shows "rest s p (concat (map ptok args) @ concat (map predir rs) @ r) \<Longrightarrow> list_all is_word args \<Longrightarrow> k + length args < MAXARGS \<Longrightarrow>
    (args = [] \<longrightarrow> rs = []) \<Longrightarrow>
    \<exists>c' p'. parseargs s k c p = Inr (c', p') \<and> map_cmd (stretch s) c' = wrap rs (fold add_arg args (map_cmd (stretch s) c)) \<and> rest s p' r"
proof (induction args arbitrary: k c p)
  case Nil
  then show ?case using parseargs_end [OF assms(1) _ assms(2), of p] by (simp add: wrap_def)
next
  case (Cons a args)
  let ?rd = "if args = [] then rs else []"
  let ?tl = "concat (map ptok args) @ concat (map predir rs) @ r"
  have a: "is_word a" using Cons.prems(2) by simp
  have r1: "rest s p (ptok a @ ?tl)" using Cons.prems(1) by simp
  have n: "nows ?tl" using follow_nows [OF assms(2)] nows_predirs [of r rs] nows_ptok Cons.prems(2) by (cases args) simp_all
  have "hd (ptok a @ ?tl) \<notin> set [124, 41, 38, 59]" using word_hd [OF a, of ?tl] by (auto simp: symbols_def)
  then have p1: "peek s p [124, 41, 38, 59] = Inr (False, p)" using peek_rest [OF r1 nows_ptok [OF a] assms(1)] by simp
  have g: "gettoken s p = Inr (97, p, p + length a, p + length a + 1)" using gettoken_word [OF r1 n a] .
  have r2: "rest s (p + length a + 1) ?tl" using rest_append [OF r1] by (simp add: ptok_def)
  have st: "stretch s (p, p + length a) = a" using rest_stretch [of s p a "[32] @ ?tl"] r1 by (simp add: ptok_def)
  let ?c = "add_arg (p, p + length a) c"
  obtain r' where r': "?tl = concat (map predir ?rd) @ r'" "nows r'" "r' = [] \<or> hd r' \<notin> {60, 62}"
    "r' = concat (map ptok args) @ concat (map predir (if args = [] then [] else rs)) @ r"
  proof (cases args)
    case Nil
    then show ?thesis using that [of r] follow_nows [OF assms(2)] by simp
  next
    case (Cons b bs)
    have "is_word b" using Cons.prems(2) Cons by simp
    then show ?thesis using that [of ?tl] Cons n word_hd [of b "concat (map ptok bs) @ concat (map predir rs) @ r"] by (auto simp: symbols_def)
  qed
  have "list_all redir_ok ?rd" using assms(3) by simp
  with parseredirs_rest [OF assms(1) r'(2,3), of "p + length a + 1" ?rd ?c] r2 r'(1) obtain c1 p1' where
    c1: "parseredirs s ?c (p + length a + 1) = Inr (c1, p1')" "map_cmd (stretch s) c1 = wrap ?rd (map_cmd (stretch s) ?c)" "rest s p1' r'" by auto
  have "parseargs s k c p = parseargs s (k + 1) c1 p1'" using p1 g c1(1) Cons.prems(3) by (subst parseargs.simps) simp
  moreover have "\<exists>c' p'. parseargs s (k + 1) c1 p1' = Inr (c', p') \<and>
      map_cmd (stretch s) c' = wrap rs (fold add_arg args (add_arg a (map_cmd (stretch s) c))) \<and> rest s p' r"
  proof (cases "args = []")
    case True
    then show ?thesis using parseargs_end [OF assms(1) c1(3), of "k + 1" c1] assms(2) r'(4) c1(2,3) st by (simp add: map_add_arg)
  next
    case False
    then show ?thesis using Cons.IH [of p1' "k + 1" c1] Cons.prems(2,3) r'(4) c1(2,3) st by (simp add: map_add_arg wrap_def)
  qed
  ultimately show ?case by simp
qed

text \<open>A command that is not itself a redirection, with redirections around it.\<close>

fun is_redir :: "'a cmd \<Rightarrow> bool" where
  "is_redir (REDIR c f m d) = True"
| "is_redir c = False"

lemma pr_wrap: "rs \<noteq> [] \<Longrightarrow> pr l (wrap rs c) = pr 3 c @ concat (map predir rs)"
proof (induction rs arbitrary: l rule: rev_induct)
  case (snoc x rs)
  then show ?case by (cases x; cases "rs = []") (simp_all add: wrap_def)
qed simp

lemma unwrap:
  "wf_cmd is_word c \<Longrightarrow> \<exists>rs b. c = wrap rs b \<and> \<not> is_redir b \<and> list_all redir_ok rs \<and> wf_cmd is_word b \<and> (rs \<noteq> [] \<longrightarrow> size b < size c)"
proof (induction c)
  case (REDIR c f m d)
  then obtain rs b where b: "c = wrap rs b" "\<not> is_redir b" "list_all redir_ok rs" "wf_cmd is_word b" "rs \<noteq> [] \<longrightarrow> size b < size c" by auto
  have "size b \<le> size c" using b(1,5) by (cases "rs = []") (auto simp: wrap_def)
  then have "size b < size (REDIR c f m d)" by simp
  moreover have "REDIR c f m d = wrap (rs @ [(f, m, d)]) b" using b(1) by (simp add: wrap_def)
  moreover have "list_all redir_ok (rs @ [(f, m, d)])" using b(3) REDIR.prems by (simp add: redir_ok_def)
  ultimately show ?case using b(2,4) by blast
next
  case (EXEC args)
  then show ?case by (intro exI [of _ "[]"] exI [of _ "EXEC args"]) (simp add: wrap_def)
next
  case (PIPE a b)
  then show ?case by (intro exI [of _ "[]"] exI [of _ "PIPE a b"]) (simp add: wrap_def)
next
  case (LIST a b)
  then show ?case by (intro exI [of _ "[]"] exI [of _ "LIST a b"]) (simp add: wrap_def)
next
  case (BACK c)
  then show ?case by (intro exI [of _ "[]"] exI [of _ "BACK c"]) (simp add: wrap_def)
qed

text \<open>What each stage does on the printed form of a command.\<close>

definition parses :: "uchar list \<Rightarrow> nat \<Rightarrow> nat \<Rightarrow> uchar set \<Rightarrow> (nat \<Rightarrow> uchar list \<Rightarrow> nat \<Rightarrow> (tok cmd \<times> nat) res) \<Rightarrow> uchar list cmd \<Rightarrow> bool" where
  "parses s l k F stage c \<longleftrightarrow> (\<forall>n p r. rest s p (pr l c @ r) \<longrightarrow> (r = [] \<or> hd r \<in> F) \<longrightarrow> 4 * length (pr l c @ r) + k \<le> n \<longrightarrow>
     (\<exists>c' p'. stage n s p = Inr (c', p') \<and> map_cmd (stretch s) c' = c \<and> rest s p' r))"

abbreviation "parses_exec s \<equiv> parses s 3 2 {124, 41, 38, 59} parseexec"
abbreviation "parses_pipe s \<equiv> parses s 2 3 {41, 38, 59} parsepipe"
abbreviation "parses_line s \<equiv> parses s 0 4 {41} parseline"

definition parses_amp :: "uchar list \<Rightarrow> uchar list cmd \<Rightarrow> bool" where
  "parses_amp s c \<longleftrightarrow> (\<forall>n p r. rest s p (pr 1 c @ r) \<longrightarrow> (r = [] \<or> hd r \<in> {41, 38, 59}) \<longrightarrow> 4 * length (pr 1 c @ r) + 3 \<le> n \<longrightarrow>
     (\<exists>c' p'. bindE (parsepipe n s p) (\<lambda>(c, ps). parseamps s c ps) = parseamps s c' p' \<and> map_cmd (stretch s) c' = c \<and> rest s p' r))"

lemma wrap_map: "map_cmd f (wrap rs c) = wrap (map (\<lambda>(x, m, d). (f x, m, d)) rs) (map_cmd f c)"
  by (induction rs arbitrary: c) (auto simp: wrap_def)

lemma fold_add_arg: "fold add_arg args (EXEC as) = EXEC (as @ args)"
  by (induction args arbitrary: as) simp_all

lemma exec_simple:
  assumes "0 \<notin> set s" "list_all redir_ok rs" "list_all is_word args" "length args < MAXARGS"
  shows "parses_exec s (wrap rs (EXEC args))"
  unfolding parses_def
proof (intro allI impI, goal_cases)
  case (1 n p r)
  obtain n' where n: "n = Suc n'" using 1(3) by (cases n) auto
  have fo: "follow r" using 1(2) by (simp add: follow_def)
  let ?tl = "concat (map ptok args) @ concat (map predir rs) @ r"
  have r1: "rest s p ?tl" using 1(1) pr_wrap [of rs 3 "EXEC args"] by (cases "rs = []") (simp_all add: wrap_def)
  have "nows ?tl \<and> (?tl = [] \<or> hd ?tl \<noteq> 40)"
  proof (cases args)
    case Nil
    then show ?thesis using follow_nows [OF fo] nows_predirs [of r rs] fo
      by (cases rs) (auto simp: predir_def follow_def)
  next
    case (Cons a as)
    then have "is_word a" using assms(3) by simp
    then show ?thesis using Cons nows_ptok [of a] word_hd [of a "concat (map ptok as) @ concat (map predir rs) @ r"]
      by (auto simp: symbols_def)
  qed
  then have h: "nows ?tl" "?tl = [] \<or> hd ?tl \<noteq> 40" by blast+
  have p1: "peek s p [40] = Inr (False, p)" using peek_rest [OF r1 h(1) assms(1), of "[40]"] h(2) by auto
  have "\<exists>c' p'. bindE (parseredirs s (EXEC []) p) (\<lambda>(ret, ps). parseargs s 0 ret ps) = Inr (c', p') \<and>
      map_cmd (stretch s) c' = wrap rs (EXEC args) \<and> rest s p' r"
  proof (cases "args = []")
    case True
    obtain c1 p1 where "parseredirs s (EXEC []) p = Inr (c1, p1)" "map_cmd (stretch s) c1 = wrap rs (EXEC [])" "rest s p1 r"
      using parseredirs_rest [OF assms(1) _ _ _ assms(2), of r p "EXEC []"] follow_nows [OF fo] r1 True by auto
    then show ?thesis using parseargs_end [OF assms(1) _ fo, of p1 0 c1] True by simp
  next
    case False
    then obtain a as where a: "args = a # as" "is_word a" using assms(3) by (cases args) auto
    have "?tl = [] \<or> hd ?tl \<notin> {60, 62}" using word_hd [OF a(2), of "concat (map ptok as) @ concat (map predir rs) @ r"] a(1) by (auto simp: symbols_def)
    then obtain c1 p1 where c1: "parseredirs s (EXEC []) p = Inr (c1, p1)" "map_cmd (stretch s) c1 = EXEC []" "rest s p1 ?tl"
      using parseredirs_rest [OF assms(1) h(1), of p "[]" "EXEC []"] r1 by (auto simp: wrap_def)
    then show ?thesis using parseargs_rest [OF assms(1) fo assms(2) c1(3) assms(3), of 0 c1] assms(4) False by (simp add: fold_add_arg)
  qed
  then show ?case using p1 by (simp add: n)
qed

text \<open>From one stage to the next.\<close>

lemma nows_sym: "c \<in> {124, 40, 41, 59, 38, 60} \<Longrightarrow> nows (c # r)"
  by (auto simp: nows_def whitespace_def)

lemma peek_follow:
  assumes "0 \<notin> set s" "rest s p r" "r = [] \<or> hd r \<in> {41, 38, 59, 124}"
  shows "peek s p ts = Inr (r \<noteq> [] \<and> hd r \<in> set ts, p)"
  using peek_rest [OF assms(2) _ assms(1)] assms(3) by (auto simp: nows_def whitespace_def)

lemma pipe_of_exec:
  assumes "0 \<notin> set s" "parses_exec s c" "pr 2 c = pr 3 c"
  shows "parses_pipe s c"
  unfolding parses_def
proof (intro allI impI, goal_cases)
  case (1 n p r)
  obtain n' where n: "n = Suc n'" using 1(3) by (cases n) auto
  then obtain c' p' where e: "parseexec n' s p = Inr (c', p')" "map_cmd (stretch s) c' = c" "rest s p' r"
    using assms(2) [unfolded parses_def, rule_format, of p r n'] 1 assms(3) by auto
  then show ?case using peek_follow [OF assms(1) e(3), of "[124]"] 1(2) by (auto simp: n)
qed

lemma amp_of_pipe:
  assumes "parses_pipe s c" "pr 1 c = pr 2 c"
  shows "parses_amp s c"
  unfolding parses_amp_def
proof (intro allI impI, goal_cases)
  case (1 n p r)
  then obtain c' p' where e: "parsepipe n s p = Inr (c', p')" "map_cmd (stretch s) c' = c" "rest s p' r"
    using assms(1) [unfolded parses_def, rule_format, of p r n] assms(2) by auto
  then show ?case by auto
qed

lemma amps_end:
  assumes "0 \<notin> set s" "rest s p r" "r = [] \<or> hd r \<in> {41, 59}"
  shows "parseamps s c p = Inr (c, p)"
  using peek_follow [OF assms(1,2), of "[38]"] assms(3) by (subst parseamps.simps) auto

lemma line_of_amp:
  assumes "0 \<notin> set s" "parses_amp s c" "pr 0 c = pr 1 c"
  shows "parses_line s c"
  unfolding parses_def
proof (intro allI impI, goal_cases)
  case (1 n p r)
  obtain n' where n: "n = Suc n'" using 1(3) by (cases n) auto
  then obtain c' p' where e: "bindE (parsepipe n' s p) (\<lambda>(c, ps). parseamps s c ps) = parseamps s c' p'" "map_cmd (stretch s) c' = c" "rest s p' r"
    using assms(2) [unfolded parses_amp_def, rule_format, of p r n'] 1 assms(3) by auto
  then have "bindE (parsepipe n' s p) (\<lambda>(c, ps). parseamps s c ps) = Inr (c', p')" using amps_end [OF assms(1) e(3)] 1(2) by auto
  then obtain c1 p1 where "parsepipe n' s p = Inr (c1, p1)" "parseamps s c1 p1 = Inr (c', p')" by auto
  then show ?case using peek_follow [OF assms(1) e(3), of "[59]"] 1(2) e(2,3) by (auto simp: n)
qed

lemma exec_of_line:
  assumes "0 \<notin> set s" "parses_line s b" "pr 3 b = [40, 32] @ pr 0 b @ [41, 32]" "list_all redir_ok rs" "nows (pr 0 b @ [41, 32])"
  shows "parses_exec s (wrap rs b)"
  unfolding parses_def
proof (intro allI impI, goal_cases)
  case (1 n p r)
  have fo: "follow r" using 1(2) by (simp add: follow_def)
  let ?tl = "concat (map predir rs) @ r"
  have t: "pr 3 (wrap rs b) @ r = [40, 32] @ pr 0 b @ [41, 32] @ ?tl" using pr_wrap [of rs 3 b] assms(3) by (cases "rs = []") (simp_all add: wrap_def)
  obtain n1 where n1: "n = Suc n1" using 1(3) by (cases n) auto
  then obtain n2 where n2: "n1 = Suc n2" using 1(3) t by (cases n1) auto
  have r1: "rest s p ([40, 32] @ pr 0 b @ [41, 32] @ ?tl)" using 1(1) t by simp
  have p1: "peek s p [40] = Inr (True, p)" using peek_rest [OF r1 _ assms(1), of "[40]"] nows_sym [of 40] by simp
  have "nows (pr 0 b @ [41, 32] @ ?tl)" using assms(5) by (cases "pr 0 b") (simp_all add: nows_def)
  then have g1: "gettoken s p = Inr (40, p, p + 1, p + 2)" using gettoken_sym [OF r1] by simp
  have r2: "rest s (p + 2) (pr 0 b @ [41, 32] @ ?tl)" using rest_append [OF r1] by simp
  obtain c1 p1 where l: "parseline n2 s (p + 2) = Inr (c1, p1)" "map_cmd (stretch s) c1 = b" "rest s p1 ([41, 32] @ ?tl)"
    using assms(2) [unfolded parses_def, rule_format, OF r2, of n2] 1(3) t n1 n2 by auto
  have p2: "peek s p1 [41] = Inr (True, p1)" using peek_rest [OF l(3) _ assms(1), of "[41]"] nows_sym [of 41] by simp
  have g2: "gettoken s p1 = Inr (41, p1, p1 + 1, p1 + 2)" using gettoken_sym [OF l(3)] nows_predirs [of r rs] follow_nows [OF fo] by simp
  have r3: "rest s (p1 + 2) ?tl" using rest_append [OF l(3)] by simp
  have "\<exists>c' p'. parseredirs s c1 (p1 + 2) = Inr (c', p') \<and> map_cmd (stretch s) c' = wrap rs b \<and> rest s p' r"
    using parseredirs_rest [OF assms(1) _ _ r3 assms(4), of c1] follow_nows [OF fo] l(2) by simp
  then show ?case using p1 g1 l(1) p2 g2 by (simp add: n1 n2)
qed

lemma pipe_pipe:
  assumes "0 \<notin> set s" "parses_exec s a" "parses_pipe s b" "nows (pr 2 b)"
  shows "parses_pipe s (PIPE a b)"
  unfolding parses_def
proof (intro allI impI, goal_cases)
  case (1 n p r)
  obtain n' where n: "n = Suc n'" using 1(3) by (cases n) auto
  have r1: "rest s p (pr 3 a @ [124, 32] @ pr 2 b @ r)" using 1(1) by (simp add: paren_def)
  obtain c1 p1 where e: "parseexec n' s p = Inr (c1, p1)" "map_cmd (stretch s) c1 = a" "rest s p1 ([124, 32] @ pr 2 b @ r)"
    using assms(2) [unfolded parses_def, rule_format, OF r1, of n'] 1(3) n by (auto simp: paren_def)
  have "nows (pr 2 b @ r)" using assms(4) 1(2) by (cases "pr 2 b") (auto simp: nows_def whitespace_def)
  then have g: "gettoken s p1 = Inr (124, p1, p1 + 1, p1 + 2)" using gettoken_sym [OF e(3)] by simp
  have pk: "peek s p1 [124] = Inr (True, p1)" using peek_rest [OF e(3) _ assms(1), of "[124]"] nows_sym [of 124] by simp
  have r2: "rest s (p1 + 2) (pr 2 b @ r)" using rest_append [OF e(3)] by simp
  obtain c2 p2 where "parsepipe n' s (p1 + 2) = Inr (c2, p2)" "map_cmd (stretch s) c2 = b" "rest s p2 r"
    using assms(3) [unfolded parses_def, rule_format, OF r2, of n'] 1(2,3) n by (auto simp: paren_def)
  then show ?case using e pk g by (simp add: n)
qed

lemma amp_back:
  assumes "0 \<notin> set s" "parses_amp s c"
  shows "parses_amp s (BACK c)"
  unfolding parses_amp_def
proof (intro allI impI, goal_cases)
  case (1 n p r)
  have r1: "rest s p (pr 1 c @ [38, 32] @ r)" using 1(1) by (simp add: paren_def)
  obtain c' p' where e: "bindE (parsepipe n s p) (\<lambda>(c, ps). parseamps s c ps) = parseamps s c' p'" "map_cmd (stretch s) c' = c" "rest s p' ([38, 32] @ r)"
    using assms(2) [unfolded parses_amp_def, rule_format, OF r1, of n] 1(3) by (auto simp: paren_def)
  have pk: "peek s p' [38] = Inr (True, p')" using peek_rest [OF e(3) _ assms(1), of "[38]"] nows_sym [of 38] by simp
  have "nows r" using 1(2) by (auto simp: nows_def whitespace_def)
  then have g: "gettoken s p' = Inr (38, p', p' + 1, p' + 2)" using gettoken_sym [OF e(3)] by simp
  have "parseamps s c' p' = parseamps s (BACK c') (p' + 2)" using pk g by (subst parseamps.simps) simp
  moreover have "rest s (p' + 2) r" using rest_append [OF e(3)] by simp
  ultimately show ?case using e(1,2) by (intro exI [of _ "BACK c'"] exI [of _ "p' + 2"]) simp
qed

lemma line_list:
  assumes "0 \<notin> set s" "parses_amp s a" "parses_line s b" "nows (pr 0 b)"
  shows "parses_line s (LIST a b)"
  unfolding parses_def
proof (intro allI impI, goal_cases)
  case (1 n p r)
  obtain n' where n: "n = Suc n'" using 1(3) by (cases n) auto
  have r1: "rest s p (pr 1 a @ [59, 32] @ pr 0 b @ r)" using 1(1) by (simp add: paren_def)
  obtain c1 p1 where e: "bindE (parsepipe n' s p) (\<lambda>(c, ps). parseamps s c ps) = parseamps s c1 p1" "map_cmd (stretch s) c1 = a" "rest s p1 ([59, 32] @ pr 0 b @ r)"
    using assms(2) [unfolded parses_amp_def, rule_format, OF r1, of n'] 1(3) n by (auto simp: paren_def)
  have "parseamps s c1 p1 = Inr (c1, p1)" using amps_end [OF assms(1) e(3)] by simp
  then obtain c0 p0 where a: "parsepipe n' s p = Inr (c0, p0)" "parseamps s c0 p0 = Inr (c1, p1)" using e(1) by auto
  have pk: "peek s p1 [59] = Inr (True, p1)" using peek_rest [OF e(3) _ assms(1), of "[59]"] nows_sym [of 59] by simp
  have "nows (pr 0 b @ r)" using assms(4) 1(2) by (cases "pr 0 b") (auto simp: nows_def whitespace_def)
  then have g: "gettoken s p1 = Inr (59, p1, p1 + 1, p1 + 2)" using gettoken_sym [OF e(3)] by simp
  have r2: "rest s (p1 + 2) (pr 0 b @ r)" using rest_append [OF e(3)] by simp
  obtain c2 p2 where "parseline n' s (p1 + 2) = Inr (c2, p2)" "map_cmd (stretch s) c2 = b" "rest s p2 r"
    using assms(3) [unfolded parses_def, rule_format, OF r2, of n'] 1(2,3) n by (auto simp: paren_def)
  then show ?case using a pk g e(2) by (simp add: n)
qed

lemma nows_append: "nows u \<Longrightarrow> nows r \<Longrightarrow> nows (u @ r)"
  by (cases u) (auto simp: nows_def)

lemma pr_nows: "wf_cmd is_word c \<Longrightarrow> nows (pr l c)"
proof (induction c arbitrary: l)
  case (EXEC args)
  then show ?case by (cases args) (simp_all add: nows_def [of "[]"] nows_ptok)
next
  case (REDIR c f m d)
  have "nows (predir (f, m, d))" by (simp add: nows_def predir_def whitespace_def)
  then show ?case using REDIR nows_append by simp
next
  case (PIPE a b)
  then have "nows (pr 3 a @ [124, 32] @ pr 2 b)" using nows_append [of "pr 3 a" "[124, 32] @ pr 2 b"] nows_sym [of 124] by simp
  then show ?case using nows_sym [of 40] by (simp add: paren_def)
next
  case (LIST a b)
  then have "nows (pr 1 a @ [59, 32] @ pr 0 b)" using nows_append [of "pr 1 a" "[59, 32] @ pr 0 b"] nows_sym [of 59] by simp
  then show ?case using nows_sym [of 40] by (simp add: paren_def)
next
  case (BACK c)
  then have "nows (pr 1 c @ [38, 32])" using nows_append [of "pr 1 c" "[38, 32]"] nows_sym [of 38] by simp
  then show ?case using nows_sym [of 40] by (simp add: paren_def)
qed

lemma exec_paren:
  assumes "0 \<notin> set s" "parses_line s b" "pr 3 b = paren True (pr 0 b)" "list_all redir_ok rs" "wf_cmd is_word b"
  shows "parses_exec s (wrap rs b)"
  using exec_of_line [OF assms(1,2) _ assms(4)] assms(3) nows_append [OF pr_nows [OF assms(5)], of "[41, 32]" 0] nows_sym [of 41 "[32]"]
  by (simp add: paren_def)

text \<open>All stages, on commands in the order of their size.\<close>

definition stages :: "uchar list \<Rightarrow> uchar list cmd \<Rightarrow> bool" where
  "stages s c \<longleftrightarrow> parses_exec s c \<and> parses_pipe s c \<and> parses_amp s c \<and> parses_line s c"

lemma stages_of_exec:
  assumes "0 \<notin> set s" "parses_exec s c" "\<And>l. pr l c = pr 3 c"
  shows "stages s c"
proof -
  have "parses_pipe s c" using pipe_of_exec [OF assms(1,2)] assms(3) by simp
  moreover from this have "parses_amp s c" using amp_of_pipe assms(3) by metis
  moreover from this have "parses_line s c" using line_of_amp [OF assms(1)] assms(3) by metis
  ultimately show ?thesis using assms(2) by (simp add: stages_def)
qed

lemma wrap_nil: "wrap [] c = c"
  by (simp add: wrap_def)

lemma stages_base:
  assumes "0 \<notin> set s" "wf_cmd is_word c" "\<not> is_redir c" "\<And>d. size d < size c \<Longrightarrow> wf_cmd is_word d \<Longrightarrow> stages s d"
  shows "stages s c"
proof (cases c)
  case (EXEC args)
  then show ?thesis using exec_simple [OF assms(1), of "[]" args] assms(2) by (intro stages_of_exec [OF assms(1)]) (simp_all add: wrap_nil)
next
  case (PIPE a b)
  have p: "parses_pipe s c" using pipe_pipe [OF assms(1), of a b] assms(4) [of a] assms(4) [of b] assms(2) pr_nows [of b] PIPE by (simp add: stages_def)
  moreover have a: "parses_amp s c" using amp_of_pipe [OF p] PIPE by simp
  moreover have l: "parses_line s c" using line_of_amp [OF assms(1) a] PIPE by simp
  moreover have "parses_exec s c" using exec_paren [OF assms(1) l _ _ assms(2), of "[]"] PIPE by (simp add: wrap_nil paren_def)
  ultimately show ?thesis by (simp add: stages_def)
next
  case (BACK d)
  have a: "parses_amp s c" using amp_back [OF assms(1), of d] assms(4) [of d] assms(2) BACK by (simp add: stages_def)
  moreover have l: "parses_line s c" using line_of_amp [OF assms(1) a] BACK by simp
  moreover have e: "parses_exec s c" using exec_paren [OF assms(1) l _ _ assms(2), of "[]"] BACK by (simp add: wrap_nil paren_def)
  moreover have "parses_pipe s c" using pipe_of_exec [OF assms(1) e] BACK by simp
  ultimately show ?thesis by (simp add: stages_def)
next
  case (LIST a b)
  have l: "parses_line s c" using line_list [OF assms(1), of a b] assms(4) [of a] assms(4) [of b] assms(2) pr_nows [of b] LIST by (simp add: stages_def)
  moreover have e: "parses_exec s c" using exec_paren [OF assms(1) l _ _ assms(2), of "[]"] LIST by (simp add: wrap_nil paren_def)
  moreover have p: "parses_pipe s c" using pipe_of_exec [OF assms(1) e] LIST by simp
  moreover have "parses_amp s c" using amp_of_pipe [OF p] LIST by simp
  ultimately show ?thesis by (simp add: stages_def)
qed (use assms(3) in simp)

lemma stages_all:
  assumes "0 \<notin> set s"
  shows "wf_cmd is_word c \<Longrightarrow> stages s c"
proof (induction "size c" arbitrary: c rule: less_induct)
  case less
  obtain rs b where b: "c = wrap rs b" "\<not> is_redir b" "list_all redir_ok rs" "wf_cmd is_word b" "rs \<noteq> [] \<longrightarrow> size b < size c"
    using unwrap [OF less.prems] by blast
  show ?case
  proof (cases "rs = []")
    case True
    then show ?thesis using stages_base [OF assms b(4,2)] less.hyps b(1) by (simp add: wrap_nil)
  next
    case False
    have "parses_exec s c"
    proof (cases b)
      case (EXEC args)
      then show ?thesis using exec_simple [OF assms b(3)] b(1,4) by simp
    qed (use exec_paren [OF assms _ _ b(3,4)] less.hyps b False in \<open>simp_all add: stages_def paren_def\<close>)
    then show ?thesis using pr_wrap [OF False, of _ b] b(1) by (intro stages_of_exec [OF assms]) simp_all
  qed
qed

lemma pr_no_nul: "wf_cmd is_word c \<Longrightarrow> 0 \<notin> set (pr l c)"
proof (induction c arbitrary: l)
  case (EXEC args)
  then show ?case by (auto simp: list_all_iff is_word_def wordchar_def ptok_def)
next
  case (REDIR c f m d)
  then show ?case by (auto simp: predir_def ptok_def is_word_def wordchar_def list_all_iff)
qed (auto simp: paren_def)

text \<open>C9: Parsing is the inverse of printing.  Every command tree whose strings are words, with at most
  nine arguments in a command, is what the parser makes of its printed form, with parentheses
  where the grammar needs them; so the parser keeps the structure of pipes, lists, background
  commands, blocks and redirections, and every such tree can be typed.\<close>

theorem parse_print_roundtrip:
  assumes "wf_cmd is_word c"
  shows "parsecmd (pr 0 c) = Inr c"
proof -
  let ?s = "pr 0 c"
  have z: "0 \<notin> set ?s" using pr_no_nul [OF assms] .
  have l: "parses_line ?s c" using stages_all [OF z assms] by (simp add: stages_def)
  have r: "rest ?s 0 (pr 0 c @ [])" by (simp add: rest_def)
  obtain c' p' where p: "parseline (4 * length ?s + 4) ?s 0 = Inr (c', p')" "map_cmd (stretch ?s) c' = c" "rest ?s p' []"
    using l [unfolded parses_def, rule_format, OF r, of "4 * length ?s + 4"] by auto
  have "peek ?s p' [] = Inr (False, length ?s)" using peek_rest [OF p(3) _ z, of "[]"] p(3) by (simp add: nows_def rest_def)
  from parsecmd_slices [OF z p(1) this] show ?thesis unfolding p(2) by (rule conjunct1)
qed

theorem parse_print_roundtrip_witness:
  "\<exists>c. c = PIPE (LIST (EXEC [bytes ''ls'']) (BACK (EXEC [bytes ''wc'']))) (REDIR (EXEC [bytes ''cat'', bytes ''x'']) (bytes ''out'') O_WRONLY_CREATE 1) \<and>
     pr 0 c = bytes ''( ls ; wc & ) | cat x > out '' \<and> parsecmd (pr 0 c) = Inr c"
proof -
  let ?c = "PIPE (LIST (EXEC [bytes ''ls'']) (BACK (EXEC [bytes ''wc'']))) (REDIR (EXEC [bytes ''cat'', bytes ''x'']) (bytes ''out'') O_WRONLY_CREATE 1)"
  have "wf_cmd is_word ?c" by code_simp
  moreover have "pr 0 ?c = bytes ''( ls ; wc & ) | cat x > out ''" by code_simp
  ultimately show ?thesis using parse_print_roundtrip by blast
qed

end
