(* ===== verification/User_Run.thy ===== *)
theory User_Run
  imports User_Parse
begin

text \<open>
  The processes that the xv6 shell starts for a command tree: with the three standard descriptors
  open, the closing and duplicating of descriptors in \<open>runcmd\<close> connects every command to its
  input and output and leaves no descriptor behind.
\<close>

section \<open>Descriptors\<close>

text \<open>Input, output and error are open and the other descriptors are free.\<close>

definition std :: "'h opened \<Rightarrow> 'h opened \<Rightarrow> 'h opened \<Rightarrow> nat \<Rightarrow> 'h fds" where
  "std i out e n = [Some i, Some out, Some e] @ replicate n None"

lemma redirect_in: "fd_alloc (Some h) (fd_close 0 (std i out e n)) = Some (0, std h out e n)"
  by (simp add: fd_alloc_def fd_close_def std_def)

lemma redirect_out: "fd_alloc (Some h) (fd_close 1 (std i out e n)) = Some (1, std i h e n)"
  by (simp add: fd_alloc_def fd_close_def std_def)

lemma pipe_alloc:
  assumes "2 \<le> n"
  shows "fd_alloc (Some r) (std i out e n) = Some (3, [Some i, Some out, Some e, Some r] @ replicate (n - 1) None)"
    "fd_alloc (Some w) ([Some i, Some out, Some e, Some r] @ replicate (n - 1) None) =
      Some (4, [Some i, Some out, Some e, Some r, Some w] @ replicate (n - 2) None)"
proof -
  obtain m where "n = Suc (Suc m)" using assms by (metis add_2_eq_Suc le_Suc_ex)
  then show "fd_alloc (Some r) (std i out e n) = Some (3, [Some i, Some out, Some e, Some r] @ replicate (n - 1) None)"
    "fd_alloc (Some w) ([Some i, Some out, Some e, Some r] @ replicate (n - 1) None) =
      Some (4, [Some i, Some out, Some e, Some r, Some w] @ replicate (n - 2) None)"
    by (simp_all add: fd_alloc_def std_def)
qed

lemma pipe_ends:
  assumes "2 \<le> n"
  shows "fd_close 4 (fd_close 3 (fd_dup 4 (fd_close 1 ([Some i, Some out, Some e, Some r, Some w] @ replicate (n - 2) None)))) = std i w e n"
    "fd_close 4 (fd_close 3 (fd_dup 3 (fd_close 0 ([Some i, Some out, Some e, Some r, Some w] @ replicate (n - 2) None)))) = std r out e n"
proof -
  obtain m where "n = Suc (Suc m)" using assms by (metis add_2_eq_Suc le_Suc_ex)
  then show "fd_close 4 (fd_close 3 (fd_dup 4 (fd_close 1 ([Some i, Some out, Some e, Some r, Some w] @ replicate (n - 2) None)))) = std i w e n"
    "fd_close 4 (fd_close 3 (fd_dup 3 (fd_close 0 ([Some i, Some out, Some e, Some r, Some w] @ replicate (n - 2) None)))) = std r out e n"
    by (simp_all add: fd_alloc_def fd_close_def fd_dup_def std_def)
qed

lemma pipe_parent:
  assumes "2 \<le> n"
  shows "fd_close 4 (fd_close 3 ([Some i, Some out, Some e, Some r, Some w] @ replicate (n - 2) None)) = std i out e n"
proof -
  obtain m where "n = Suc (Suc m)" using assms by (metis add_2_eq_Suc le_Suc_ex)
  then show ?thesis by (simp add: fd_close_def std_def)
qed

section \<open>Which process runs what\<close>

text \<open>The programs that a process and its children load, with their descriptors.\<close>

fun execs :: "'h step \<Rightarrow> (uchar list list \<times> 'h fds) list" where
  "execs (Exec argv t) = [(argv, t)]"
| "execs (Fork xs) = concat (map execs xs)"
| "execs x = []"

text \<open>The descriptors of the shells that wait for their children.\<close>

fun waits :: "'h step \<Rightarrow> 'h fds list" where
  "waits (Wait t) = [t]"
| "waits (Fork xs) = concat (map waits xs)"
| "waits x = []"

text \<open>The specification: the programs of a command with what they read from and write to.\<close>

fun wiring :: "'h os \<Rightarrow> uchar list cmd \<Rightarrow> 'h opened \<Rightarrow> 'h opened \<Rightarrow> nat \<Rightarrow> (uchar list list \<times> 'h opened \<times> 'h opened) list \<times> nat" where
  "wiring os (EXEC argv) i out k = (if argv = [] then [] else [(argv, i, out)], k)"
| "wiring os (REDIR c f m d) i out k =
     (case os_open os f m of None \<Rightarrow> ([], k)
      | Some h \<Rightarrow> if d = 0 then wiring os c (Opened h) out k else wiring os c i (Opened h) k)"
| "wiring os (LIST l r) i out k =
     (if \<not> os_fork os k then ([], k + 1)
      else let (x, k) = wiring os l i out (k + 1); (y, k) = wiring os r i out k in (x @ y, k))"
| "wiring os (PIPE l r) i out k =
     (if \<not> os_fork os (k + 1) then ([], k + 2)
      else let (x, k1) = wiring os l i (WrEnd k) (k + 2) in
        if \<not> os_fork os k1 then (x, k1 + 1)
        else let (y, k2) = wiring os r (RdEnd k) out (k1 + 1) in (x @ y, k2))"
| "wiring os (BACK c) i out k =
     (if \<not> os_fork os k then ([], k + 1) else wiring os c i out (k + 1))"

text \<open>And the shells that wait, with their input and output.\<close>

fun waiting :: "'h os \<Rightarrow> uchar list cmd \<Rightarrow> 'h opened \<Rightarrow> 'h opened \<Rightarrow> nat \<Rightarrow> ('h opened \<times> 'h opened) list" where
  "waiting os (EXEC argv) i out k = []"
| "waiting os (REDIR c f m d) i out k =
     (case os_open os f m of None \<Rightarrow> []
      | Some h \<Rightarrow> if d = 0 then waiting os c (Opened h) out k else waiting os c i (Opened h) k)"
| "waiting os (LIST l r) i out k =
     (if \<not> os_fork os k then []
      else waiting os l i out (k + 1) @ (i, out) # waiting os r i out (snd (wiring os l i out (k + 1))))"
| "waiting os (PIPE l r) i out k =
     (if \<not> os_fork os (k + 1) then []
      else let k1 = snd (wiring os l i (WrEnd k) (k + 2)) in
        waiting os l i (WrEnd k) (k + 2) @
        (if \<not> os_fork os k1 then [] else waiting os r (RdEnd k) out (k1 + 1) @ [(i, out), (i, out)]))"
| "waiting os (BACK c) i out k =
     (if \<not> os_fork os k then [] else waiting os c i out (k + 1))"

abbreviation started :: "'h step list \<Rightarrow> (uchar list list \<times> 'h fds) list" where
  "started xs \<equiv> concat (map execs xs)"

abbreviation waiters :: "'h step list \<Rightarrow> 'h fds list" where
  "waiters xs \<equiv> concat (map waits xs)"

abbreviation with_std :: "'h opened \<Rightarrow> nat \<Rightarrow> uchar list list \<times> 'h opened \<times> 'h opened \<Rightarrow> uchar list list \<times> 'h fds" where
  "with_std e n \<equiv> (\<lambda>(argv, i, out). (argv, std i out e n))"

lemma started_panic: "started (sh_panic m) = []" "waiters (sh_panic m) = []"
  by (simp_all add: sh_panic_def)

lemma runcmd_wiring:
  assumes "2 \<le> n"
  shows "wf_cmd P c \<Longrightarrow> started (fst (runcmd os c (std i out e n) k)) = map (with_std e n) (fst (wiring os c i out k)) \<and>
    snd (runcmd os c (std i out e n) k) = snd (wiring os c i out k)"
proof (induction c arbitrary: i out k)
  case (EXEC argv)
  then show ?case by (cases argv) auto
next
  case (REDIR c f m d)
  then have d: "d = 0 \<or> d = 1" "wf_cmd P c" by auto
  show ?case
  proof (cases "os_open os f m")
    case (Some h)
    then show ?thesis using REDIR.IH [OF d(2)] d(1) by (auto simp: redirect_in redirect_out [simplified])
  qed simp
next
  case (PIPE l r)
  then show ?case using PIPE.IH(1) [of i "WrEnd k" "k + 2"]
    by (simp add: pipe_alloc [OF assms, simplified] pipe_ends [OF assms, simplified] started_panic case_prod_beta Let_def)
next
  case (LIST l r)
  then show ?case using LIST.IH(1) [of i out "k + 1"] by (simp add: started_panic case_prod_beta)
next
  case (BACK c)
  then show ?case by (simp add: started_panic case_prod_beta)
qed

lemma runcmd_waiting:
  assumes "2 \<le> n"
  shows "wf_cmd P c \<Longrightarrow> waiters (fst (runcmd os c (std i out e n) k)) = map (\<lambda>(i, out). std i out e n) (waiting os c i out k)"
proof (induction c arbitrary: i out k)
  case (EXEC argv)
  then show ?case by (cases argv) auto
next
  case (REDIR c f m d)
  then have d: "d = 0 \<or> d = 1" "wf_cmd P c" by auto
  show ?case
  proof (cases "os_open os f m")
    case (Some h)
    then show ?thesis using REDIR.IH [OF d(2)] d(1) by (auto simp: redirect_in redirect_out [simplified])
  qed simp
next
  case (PIPE l r)
  then show ?case using runcmd_wiring [OF assms, of P l os i "WrEnd k" e "k + 2"]
    by (simp add: pipe_alloc [OF assms, simplified] pipe_ends [OF assms, simplified] pipe_parent [OF assms, simplified]
        started_panic case_prod_beta Let_def)
next
  case (LIST l r)
  then show ?case using runcmd_wiring [OF assms, of P l os i out e "k + 1"] by (simp add: started_panic case_prod_beta)
next
  case (BACK c)
  then show ?case by (simp add: started_panic case_prod_beta)
qed

text \<open>C10: The shell connects its commands.  Of a line that is parsed to a command, the programs that are
  started are those of the command from left to right, a pipe's left side writing to the pipe
  and its right side reading from it, and a redirection replacing input or output.  Each of them
  has exactly the three standard descriptors, and so have the shells that wait for them: the one
  that made a pipe has closed both its ends.  So nobody holds an end of a pipe that is not its
  input or output, and a reader sees the end of its input when the writers are gone.\<close>

theorem shell_wiring:
  assumes "0 \<notin> set s" "parsecmd s = Inr c" "2 \<le> n"
  shows "started (fst (runcmd os c (std i out e n) k)) = map (with_std e n) (fst (wiring os c i out k)) \<and>
    waiters (fst (runcmd os c (std i out e n) k)) = map (\<lambda>(i, out). std i out e n) (waiting os c i out k)"
proof -
  have "wf_cmd is_word c" using parsecmd_cases [OF assms(1)] assms(2) by (auto simp: panic_def)
  then show ?thesis using runcmd_wiring [OF assms(3)] runcmd_waiting [OF assms(3)] by blast
qed

theorem shell_wiring_witness:
  "let os = \<lparr>os_open = (\<lambda>f _. Some f), os_exec = (\<lambda>_. True), os_fork = (\<lambda>_. True), os_chdir = (\<lambda>_. True)\<rparr>;
       t = std (Opened (bytes ''console'')) (Opened (bytes ''console'')) (Opened (bytes ''console'')) 13
   in \<exists>c. parsecmd (bytes ''cat < a | wc'') = Inr c \<and> started (fst (runcmd os c t 0)) =
     [([bytes ''cat''], std (Opened (bytes ''a'')) (WrEnd 0) (Opened (bytes ''console'')) 13),
      ([bytes ''wc''], std (RdEnd 0) (Opened (bytes ''console'')) (Opened (bytes ''console'')) 13)] \<and>
     waiters (fst (runcmd os c t 0)) = [t, t]"
proof -
  let ?os = "\<lparr>os_open = (\<lambda>f _. Some f), os_exec = (\<lambda>_. True), os_fork = (\<lambda>_. True), os_chdir = (\<lambda>_. True)\<rparr> :: uchar list os"
  let ?c = "PIPE (REDIR (EXEC [bytes ''cat'']) (bytes ''a'') O_RDONLY 0) (EXEC [bytes ''wc''])"
  let ?h = "Opened (bytes ''console'')"
  have p: "parsecmd (bytes ''cat < a | wc'') = Inr ?c" by code_simp
  have "0 \<notin> set (bytes ''cat < a | wc'')" by (simp add: bytes_def)
  from shell_wiring [OF this p, of 13 ?os ?h ?h ?h 0] show ?thesis using p by (simp add: Let_def)
qed

end
