(* ===== verification/Spec2Isabelle.thy ===== *)
theory Spec2Isabelle
  imports Xv6_String Xv6_Kalloc Xv6_Sched Xv6_Uvm Xv6_Pipe Xv6_Txn Xv6_Trap Lab_Utils Lab_MapReduce Lab_Shell User_Run
begin

text \<open>
  Verification of the operating-system labwork repository.

  \<^bold>\<open>The program.\<close>  The repository holds four pieces of work.  Unix_Utilities has four small
  programs, seucat, seugrep, seuzip and seuunzip.  Unix_Shell has a shell, seush.  Map_Reduce has
  a library that runs mappers and reducers on threads, with word counting as its client.
  Xv6-Syscall/src is the xv6 teaching kernel with a system call that counts
  reads.  Its parts are the physical page allocator and the page tables; spin locks, the
  process table and scheduler, sleep locks; pipes; the buffer cache, the write-ahead log and
  the file system on a disk; the console; open files; and the system calls.

  \<^bold>\<open>How the code is modelled.\<close>  A C integer is a word of its width or, where it cannot overflow,
  an integer; a struct is a record; a pointer into a table is an index; memory that the code
  treats as bytes (pages, page tables, stacks) is a function from addresses to bytes.  A call
  of \<open>panic\<close> is an error value, and so are a step that C leaves undefined and a step that
  would sleep or spin for ever in a sequential run (\<open>kerr\<close> in the prelude).  The state of the
  kernel grows by record extension along the layers: \<open>bio\<close>, \<open>lg\<close>, \<open>kcons\<close>, \<open>fss\<close>, \<open>fls\<close>, \<open>prs\<close>;
  a routine of a lower layer is polymorphic in what the upper layers add.

  A critical section of a spin lock is one step of the model.  What justifies this is proved
  first: with any number of CPUs, at most one is in the critical section of a lock, with
  interrupts off.  Where interleaving matters (the scheduler, sleep and wakeup, sleep locks,
  pipes) there is a step relation whose steps are the critical sections.

  \<^bold>\<open>Theories.\<close>
  \<^item> \<open>Xv6_Prelude\<close>: machine types, errors, byte memory.
  \<^item> \<open>Xv6_String\<close> (string.c, the string stores of x86.h): memmove under overlap, strncpy and
    strncmp, safestrcpy; the contract of a routine that writes one region is a locale.
  \<^item> \<open>Xv6_Mmu\<close> (mmu.h, memlayout.h): address arithmetic.
  \<^item> \<open>Xv6_Kalloc\<close> (kalloc.c): the free list threaded through the pages; the allocator's
    contract is a locale interpreted on the code.
  \<^item> \<open>Xv6_Spinlock\<close> (spinlock.c): nesting, mutual exclusion on many CPUs.
  \<^item> \<open>Xv6_Ptable\<close>, \<open>Xv6_Sched\<close> (proc.c, sleeplock.c): process states on many CPUs, pids,
    fork, wait and exit, sleep and wakeup, scheduling rounds, sleep locks; \<open>sleep\<close> is a list of
    statements, so that the states between them can be spoken of.
  \<^item> \<open>Xv6_Vm\<close>, \<open>Xv6_Uvm\<close> (vm.c): page tables as a map from addresses to entries; growing and
    shrinking an address space, with every page accounted for.
  \<^item> \<open>Xv6_Pipe\<close> (pipe.c): the ring buffer as a queue, many readers and writers, and what each
    single call of pipewrite put into it.
  \<^item> \<open>Xv6_Bio\<close> (bio.c, memide.c): the cache and its list; what the cache stands for.
  \<^item> \<open>Xv6_Disk\<close> (fs.h), \<open>Xv6_Log\<close> (log.c): the disk format and the log.
  \<^item> \<open>Xv6_Crash\<close>, \<open>Xv6_Txn\<close>: a transaction reaches the disk as a whole or not at all when the
    machine stops between any two block writes, recovery can be interrupted, and a sequence
    of logged updates refines its specification on the blocks.
  \<^item> \<open>Xv6_Console\<close> (console.c, kbd.c, kbd.h): screen, printing, keyboard, line input.
  \<^item> \<open>Xv6_Inode\<close>, \<open>Xv6_Fs\<close> (fs.c): blocks, inodes, file contents, directories, paths.
  \<^item> \<open>Xv6_File\<close> (file.c, pipealloc), \<open>Xv6_Proc\<close> (proc.c), \<open>Xv6_Sysfile\<close> (sysfile.c, sysproc.c,
    syscall.c), \<open>Xv6_Trap\<close> (exec.c, syscall.c, trap.c): the calls of user programs.
  \<^item> \<open>C_Stdio\<close>: what the other programs use of the C library, strings and lines of files.
  \<^item> \<open>Lab_Utils\<close> (Unix_Utilities): the programs as functions of a file system; compression
    against run lengths, the round trip, printing and searching.
  \<^item> \<open>Lab_MapReduce\<close> (arraylist.c, multimap.c, mapreduce.c, wordcount.c): the growing array as
    a locale interpreted on the code, and \<open>MR_Run\<close> of word counting under every interleaving of
    the mappers.
  \<^item> \<open>Lab_Shell\<close> (seush.c): lines as buffers with checked accesses, linked lists in a heap.
    On lines in the documented form the shell refines an interpreter of the README when the
    fresh nodes, whose link the code does not set, happen to be zero, and its behaviour is
    undefined when the first is not; a command behind blanks overflows a buffer.
  \<^item> \<open>User_Sh\<close>, \<open>User_Parse\<close>, \<open>User_Run\<close> (sh.c, gets of ulib.c): the shell of xv6.  Its
    parser works on positions in the line; it is total and the inverse of printing.  A command
    starts processes with the descriptors that its pipes and redirections call for, and the
    shells that wait for them keep no end of a pipe.

  \<^bold>\<open>Bounds.\<close>  Loops are recursive functions with a termination proof.  Where the code's own loop
  has no bound in its arguments the model has fuel: \<open>deallocuvm_loop\<close> has two steps more than
  the pages below the old size, which \<open>deallocuvm_loop_returns\<close> shows to be enough;
  \<open>bscan\<close> has as many steps as there are buffers, which \<open>bscan_path\<close> shows to be enough on the
  list the code keeps; \<open>kill_line\<close> has the distance between the two indices it moves.  In
  the shell, \<open>strsep_loop\<close>, \<open>skip_space\<close> and \<open>back_space\<close> have the length of the
  buffer, \<open>argv_walk\<close> the slots of
  the array it fills, and \<open>search\<close>, \<open>free_values\<close> and \<open>free_nodes\<close> the length of the heap; \<open>strsep_loop_ok\<close>,
  \<open>trim_ok\<close>, \<open>argv_walk_chain\<close>, \<open>search_find\<close>, \<open>free_values_chain\<close> and \<open>free_nodes_chain\<close> show these
  to be enough on terminated strings and on lists without a cycle.  The
  parser of sh.c has four steps for every byte of the line, enough by \<open>parse_fuel\<close>.

  \<^bold>\<open>Not modelled.\<close>  Assembly, the boot loader, the set-up of interrupt controllers and of the
  serial port, and the segment and gate descriptors: they are sequences of port and register
  accesses.  The test programs of xv6 only call the kernel;
  of its other user programs only the shell is modelled.
\<close>

end
